(* ===== verification/Prelude.thy ===== *)
theory Prelude
  imports Main "HOL-Library.Word" "HOL-Library.AList" "HOL-Library.Char_ord" "HOL-Library.List_Lexorder"
begin

text \<open>
  Shared ground of the development: Go's errors as values, the state-and-error
  functions that the stores and services are written in, the parts of Go's
  standard library the sources use (\<open>sort.Search\<close>, \<open>copy\<close>, \<open>strconv\<close>,
  \<open>time.Duration\<close> arithmetic), and lemmas on association lists, which model
  Go maps that the code iterates over.
\<close>

section \<open>Collections of rewrite rules\<close>

named_theorems io_simps "unfolding the sequencing of fallible, stateful calls"
named_theorems key_simps "Redis keys of different families are different"
named_theorems const_simps "string constants of the state machines"

section \<open>Errors\<close>

text \<open>
  A Go \<open>error\<close> value. The sentinel and struct errors of the repository are
  constructors of their own, because the code compares them with \<open>==\<close> or by a type
  assertion; \<open>Errorf\<close> is \<open>fmt.Errorf\<close> with a \<open>%w\<close> operand, which hides the wrapped
  error from both tests.
\<close>

datatype go_error =
    ErrDriverNotFound
  | ErrTripNotFound
  | ErrOfferNotFound
  | ErrOfferStale
  | ErrIllegalDriverTransition string string
  | ErrIllegalTripTransition string string
  | ErrIllegalOfferTransition string string
  | RedisError string
  | ParseError string
  | H3Error string
  | ContextDone
  | Errorf string go_error
  | ErrorMsg string

type_synonym 'a result = "go_error + 'a"

text \<open>A call that reads and changes the world and may return an error.\<close>

type_synonym ('w, 'a) io = "'w \<Rightarrow> (go_error + 'a) \<times> 'w"

definition io_return :: "'a \<Rightarrow> ('w, 'a) io" where
  "io_return x = (\<lambda>w. (Inr x, w))"

definition io_fail :: "go_error \<Rightarrow> ('w, 'a) io" where
  "io_fail e = (\<lambda>w. (Inl e, w))"

text \<open>\<open>x, err := m; if err != nil { return err }; f(x)\<close>\<close>

definition io_bind :: "('w, 'a) io \<Rightarrow> ('a \<Rightarrow> ('w, 'b) io) \<Rightarrow> ('w, 'b) io" where
  "io_bind m f = (\<lambda>w. case m w of (Inl e, w') \<Rightarrow> (Inl e, w') | (Inr x, w') \<Rightarrow> f x w')"

text \<open>\<open>if err != nil { return fmt.Errorf("msg: %w", err) }\<close>\<close>

definition io_wrap :: "string \<Rightarrow> ('w, 'a) io \<Rightarrow> ('w, 'a) io" where
  "io_wrap msg m = (\<lambda>w. case m w of (Inl e, w') \<Rightarrow> (Inl (Errorf msg e), w') | (Inr x, w') \<Rightarrow> (Inr x, w'))"

definition io_lift :: "go_error + 'a \<Rightarrow> ('w, 'a) io" where
  "io_lift r = (\<lambda>w. (r, w))"

lemma io_return_apply [simp, io_simps]: "io_return x w = (Inr x, w)"
  by (simp add: io_return_def)

lemma io_fail_apply [simp, io_simps]: "io_fail e w = (Inl e, w)"
  by (simp add: io_fail_def)

lemma io_lift_apply [simp, io_simps]: "io_lift r w = (r, w)"
  by (simp add: io_lift_def)

lemma io_bind_Inr [simp]: "m w = (Inr x, w') \<Longrightarrow> io_bind m f w = f x w'"
  by (simp add: io_bind_def)

lemma io_bind_Inl [simp]: "m w = (Inl e, w') \<Longrightarrow> io_bind m f w = (Inl e, w')"
  by (simp add: io_bind_def)

lemma io_wrap_Inr [simp]: "m w = (Inr x, w') \<Longrightarrow> io_wrap s m w = (Inr x, w')"
  by (simp add: io_wrap_def)

lemma io_wrap_Inl [simp]: "m w = (Inl e, w') \<Longrightarrow> io_wrap s m w = (Inl (Errorf s e), w')"
  by (simp add: io_wrap_def)

lemma io_bind_cases:
  assumes "io_bind m f w = (r, w'')"
  obtains (err) e where "m w = (Inl e, w'')" "r = Inl e"
  | (ok) x w' where "m w = (Inr x, w')" "f x w' = (r, w'')"
  using assms by (auto simp: io_bind_def split: prod.splits sum.splits)

lemma io_wrap_snd [simp]: "snd (io_wrap s m w) = snd (m w)"
  by (auto simp: io_wrap_def split: prod.splits sum.splits)

text \<open>
  The rule behind every invariant proof about a sequence of calls: a predicate that the
  first call keeps, and that the rest keeps from wherever the first call leaves off, is
  kept by the sequence.
\<close>

lemma io_bind_inv:
  assumes "I w" and "\<And>w. I w \<Longrightarrow> I (snd (m w))" and "\<And>x w. I w \<Longrightarrow> I (snd (f x w))"
  shows "I (snd (io_bind m f w))"
  using assms(1) assms(2) [of w] assms(3) [of "snd (m w)"]
  by (auto simp: io_bind_def split: prod.splits sum.splits)

section \<open>sort.Search\<close>

text \<open>
  Go's binary search for the least index with \<open>p\<close>, over \<open>[i, j)\<close>; the caller's
  \<open>sort.Search(n, p)\<close> is \<open>search_from p 0 n\<close>.
\<close>

function search_from :: "(nat \<Rightarrow> bool) \<Rightarrow> nat \<Rightarrow> nat \<Rightarrow> nat" where
  "search_from p i j =
     (if i < j then let h = (i + j) div 2
                    in if \<not> p h then search_from p (Suc h) j else search_from p i h
      else i)"
  by pat_completeness auto
termination
  by (relation "measure (\<lambda>(p, i, j). j - i)") auto

declare search_from.simps [simp del]

definition sort_search :: "nat \<Rightarrow> (nat \<Rightarrow> bool) \<Rightarrow> nat" where
  "sort_search n p = search_from p 0 n"

lemma search_from_bounds: "i \<le> j \<Longrightarrow> i \<le> search_from p i j \<and> search_from p i j \<le> j"
proof (induction p i j rule: search_from.induct)
  case (1 p i j)
  show ?case
  proof (cases "i < j")
    case True
    let ?h = "(i + j) div 2"
    have h: "i \<le> ?h" "?h < j" using True by auto
    show ?thesis
    proof (cases "p ?h")
      case True
      with \<open>i < j\<close> "1.IH"(2) h show ?thesis by (subst (1 2) search_from.simps) (auto simp: Let_def)
    next
      case False
      with \<open>i < j\<close> "1.IH"(1) h show ?thesis by (subst (1 2) search_from.simps) (auto simp: Let_def)
    qed
  next
    case False
    with "1.prems" show ?thesis by (subst (1 2) search_from.simps) auto
  qed
qed

text \<open>For a predicate that stays true once it is true, the search is correct.\<close>

lemma search_from_correct:
  assumes "\<And>a b. a \<le> b \<Longrightarrow> b < n \<Longrightarrow> p a \<Longrightarrow> p b"
    and "i \<le> j" "j \<le> n" "\<And>a. a < i \<Longrightarrow> \<not> p a" "\<And>a. j \<le> a \<Longrightarrow> a < n \<Longrightarrow> p a"
  shows "(\<forall>a < search_from p i j. \<not> p a) \<and> (\<forall>a. search_from p i j \<le> a \<longrightarrow> a < n \<longrightarrow> p a)"
  using assms
proof (induction p i j rule: search_from.induct)
  case (1 p i j)
  show ?case
  proof (cases "i < j")
    case True
    let ?h = "(i + j) div 2"
    have h: "i \<le> ?h" "?h < j" "?h < n" using True "1.prems"(3) by auto
    show ?thesis
    proof (cases "p ?h")
      case p: True
      have "\<And>a. ?h \<le> a \<Longrightarrow> a < n \<Longrightarrow> p a" using "1.prems"(1) p by blast
      moreover have "search_from p i j = search_from p i ?h"
        using True p by (subst search_from.simps) (simp add: Let_def)
      moreover have "(\<forall>a < search_from p i ?h. \<not> p a) \<and> (\<forall>a. search_from p i ?h \<le> a \<longrightarrow> a < n \<longrightarrow> p a)"
      proof (rule "1.IH"(2) [OF True refl])
        show "\<And>a b. a \<le> b \<Longrightarrow> b < n \<Longrightarrow> p a \<Longrightarrow> p b" by (fact "1.prems"(1))
      qed (use p h "1.prems"(4) calculation(1) in auto)
      ultimately show ?thesis by simp
    next
      case np: False
      have "\<And>a. a < Suc ?h \<Longrightarrow> \<not> p a" using "1.prems"(1) np h(3) by (metis less_Suc_eq_le)
      moreover have "search_from p i j = search_from p (Suc ?h) j"
        using True np by (subst search_from.simps) (simp add: Let_def)
      moreover have "(\<forall>a < search_from p (Suc ?h) j. \<not> p a) \<and> (\<forall>a. search_from p (Suc ?h) j \<le> a \<longrightarrow> a < n \<longrightarrow> p a)"
      proof (rule "1.IH"(1) [OF True refl])
        show "\<And>a b. a \<le> b \<Longrightarrow> b < n \<Longrightarrow> p a \<Longrightarrow> p b" by (fact "1.prems"(1))
      qed (use np h "1.prems"(3,5) calculation(1) in auto)
      ultimately show ?thesis by simp
    qed
  next
    case False
    with "1.prems" have "i = j" by simp
    moreover from False have "search_from p i j = i" by (subst search_from.simps) simp
    ultimately show ?thesis using "1.prems" by auto
  qed
qed

lemma sort_search_le: "sort_search n p \<le> n"
  unfolding sort_search_def using search_from_bounds [of 0 n p] by simp

lemma sort_search_correct:
  assumes "\<forall>a b. a \<le> b \<longrightarrow> b < n \<longrightarrow> p a \<longrightarrow> p b"
  shows "\<forall>a < sort_search n p. \<not> p a"
    and "\<forall>a. sort_search n p \<le> a \<longrightarrow> a < n \<longrightarrow> p a"
  using search_from_correct [of n p 0 n] assms unfolding sort_search_def by auto

section \<open>Options\<close>

lemma option_eqI: "(\<And>x. a = Some x \<longleftrightarrow> b = Some x) \<Longrightarrow> a = b"
  by (cases a; cases b) auto

text \<open>The error as a value, for code that goes on after it.\<close>

definition io_try :: "('w, 'a) io \<Rightarrow> ('w, 'a result) io" where
  "io_try m = (\<lambda>w. case m w of (r, w') \<Rightarrow> (Inr r, w'))"

lemma io_try_simps [simp]:
  "fst (io_try m w) = Inr (fst (m w))" "snd (io_try m w) = snd (m w)"
  by (simp_all add: io_try_def split_beta)

section \<open>Computing with known results\<close>

lemma io_bind_ok: "fst (m w) = Inr x \<Longrightarrow> io_bind m f w = f x (snd (m w))"
  by (cases "m w") (auto simp: io_bind_def)

lemma io_bind_err: "fst (m w) = Inl e \<Longrightarrow> io_bind m f w = (Inl e, snd (m w))"
  by (cases "m w") (auto simp: io_bind_def)

lemma io_wrap_ok: "fst (m w) = Inr x \<Longrightarrow> io_wrap s m w = (Inr x, snd (m w))"
  by (cases "m w") (auto simp: io_wrap_def)

lemma io_wrap_err: "fst (m w) = Inl e \<Longrightarrow> io_wrap s m w = (Inl (Errorf s e), snd (m w))"
  by (cases "m w") (auto simp: io_wrap_def)

lemma io_wrap_fst: "fst (io_wrap s m w) = (case fst (m w) of Inl e \<Rightarrow> Inl (Errorf s e) | Inr x \<Rightarrow> Inr x)"
  by (auto simp: io_wrap_def split: prod.splits sum.splits)

lemmas io_known = io_bind_ok io_bind_err io_wrap_ok io_wrap_err

lemma io_bind_lift_snd [simp]: "snd (io_bind m (\<lambda>r. io_lift (f r)) w) = snd (m w)"
  by (auto simp: io_bind_def split: prod.splits sum.splits)

lemma io_bind_return_snd [simp]: "snd (io_bind m (\<lambda>r. io_return (f r)) w) = snd (m w)"
  by (auto simp: io_bind_def split: prod.splits sum.splits)

section \<open>What a run makes true\<close>

text \<open>
  \<open>post P m Q\<close>: run where \<open>P\<close> holds, \<open>m\<close> leaves a result and a state in \<open>Q\<close>. \<open>goes P m v Q\<close>: it
  returns \<open>v\<close>. Both are total, as every \<open>io\<close> is a function.
\<close>

definition post :: "('w \<Rightarrow> bool) \<Rightarrow> ('w, 'a) io \<Rightarrow> ('a result \<Rightarrow> 'w \<Rightarrow> bool) \<Rightarrow> bool" where
  "post P m Q \<longleftrightarrow> (\<forall>w. P w \<longrightarrow> Q (fst (m w)) (snd (m w)))"

abbreviation goes :: "('w \<Rightarrow> bool) \<Rightarrow> ('w, 'a) io \<Rightarrow> 'a \<Rightarrow> ('w \<Rightarrow> bool) \<Rightarrow> bool" where
  "goes P m v Q \<equiv> post P m (\<lambda>r w. r = Inr v \<and> Q w)"

lemma postI: "(\<And>w. P w \<Longrightarrow> Q (fst (m w)) (snd (m w))) \<Longrightarrow> post P m Q"
  by (simp add: post_def)

lemma postD: "post P m Q \<Longrightarrow> P w \<Longrightarrow> Q (fst (m w)) (snd (m w))"
  by (simp add: post_def)

lemma post_mono: "post P m Q \<Longrightarrow> (\<And>r w. Q r w \<Longrightarrow> Q' r w) \<Longrightarrow> post P m Q'"
  by (simp add: post_def)

lemma goes_bind: "goes P m v Q \<Longrightarrow> post Q (f v) R \<Longrightarrow> post P (io_bind m f) R"
  unfolding post_def by (metis io_bind_ok)

lemma goes_wrap: "goes P m v Q \<Longrightarrow> goes P (io_wrap s m) v Q"
  unfolding post_def by (metis io_wrap_ok fst_conv snd_conv)

lemma goes_return: "goes P (io_return v) v P"
  by (simp add: post_def io_return_def)

lemma goes_try: "post P m (\<lambda>r w. r = v \<and> Q w) \<Longrightarrow> goes P (io_try m) v Q"
  unfolding post_def by simp

end
