(* ===== verification/GoLib.thy ===== *)
theory GoLib
  imports Prelude
begin

text \<open>
  The rest of Go's standard library that the sources rely on: \<open>copy\<close> between
  overlapping slices, decimal formatting and parsing of integers, 64-bit signed
  arithmetic on \<open>time.Duration\<close>, and saturating subtraction of \<open>time.Time\<close> values.
  Times and durations are integers in nanoseconds.
\<close>

text \<open>An H3 cell is the 64-bit index that \<open>h3-go\<close> uses.\<close>

type_synonym cell = "64 word"

section \<open>copy on slices\<close>

text \<open>
  \<open>copy(xs[i:], xs[j:])\<close> on one backing array, as memmove: the destination holds the
  old source elements, as many as fit.
\<close>

definition slice_copy_within :: "'a list \<Rightarrow> nat \<Rightarrow> nat \<Rightarrow> 'a list" where
  "slice_copy_within xs i j =
     (let n = min (length xs - i) (length xs - j)
      in take i xs @ take n (drop j xs) @ drop (i + n) xs)"

section \<open>strconv\<close>

definition digit_char :: "nat \<Rightarrow> char" where
  "digit_char d = char_of (48 + d)"

definition digit_val :: "char \<Rightarrow> nat option" where
  "digit_val c = (let n = of_char c in if 48 \<le> n \<and> n \<le> 57 then Some (n - 48) else None)"

fun nat_str :: "nat \<Rightarrow> string" where
  "nat_str n = (if n < 10 then [digit_char n] else nat_str (n div 10) @ [digit_char (n mod 10)])"

declare nat_str.simps [simp del]

definition itoa :: "int \<Rightarrow> string" where
  "itoa i = (if i < 0 then CHR ''-'' # nat_str (nat (- i)) else nat_str (nat i))"

fun parse_digits :: "nat \<Rightarrow> string \<Rightarrow> nat option" where
  "parse_digits acc [] = Some acc"
| "parse_digits acc (c # cs) =
     (case digit_val c of None \<Rightarrow> None | Some d \<Rightarrow> parse_digits (10 * acc + d) cs)"

definition parse_nat :: "string \<Rightarrow> nat option" where
  "parse_nat s = (if s = [] then None else parse_digits 0 s)"

definition in_i64 :: "int \<Rightarrow> bool" where
  "in_i64 i \<longleftrightarrow> - (2 ^ 63) \<le> i \<and> i < 2 ^ 63"

text \<open>\<open>strconv.ParseInt(s, 10, 64)\<close>: an optional sign, digits, and a range check.\<close>

definition parse_int64 :: "string \<Rightarrow> int result" where
  "parse_int64 s =
     (let (neg, ds) = (case s of [] \<Rightarrow> (False, [])
                       | c # cs \<Rightarrow> if c = CHR ''-'' then (True, cs)
                                  else if c = CHR ''+'' then (False, cs) else (False, s))
      in case parse_nat ds of
           None \<Rightarrow> Inl (ParseError s)
         | Some n \<Rightarrow> (let i = (if neg then - int n else int n)
                     in if in_i64 i then Inr i else Inl (ParseError s)))"

lemma digit_chars [simp]:
  "digit_char 0 = CHR ''0''" "digit_char (Suc 0) = CHR ''1''" "digit_char 1 = CHR ''1''"
  "digit_char 2 = CHR ''2''" "digit_char 3 = CHR ''3''" "digit_char 4 = CHR ''4''"
  "digit_char 5 = CHR ''5''" "digit_char 6 = CHR ''6''" "digit_char 7 = CHR ''7''"
  "digit_char 8 = CHR ''8''" "digit_char 9 = CHR ''9''"
  by code_simp+

lemma digit_val_char [simp]: "d < 10 \<Longrightarrow> digit_val (digit_char d) = Some d"
  by (simp add: digit_val_def digit_char_def)

lemma digit_char_not_sign: "d < 10 \<Longrightarrow> digit_char d \<noteq> CHR ''-'' \<and> digit_char d \<noteq> CHR ''+''"
  by (auto simp: digit_char_def dest: arg_cong [where f = "of_char :: char \<Rightarrow> nat"])

lemma parse_digits_append:
  "parse_digits a (xs @ ys) = (case parse_digits a xs of None \<Rightarrow> None | Some b \<Rightarrow> parse_digits b ys)"
  by (induction xs arbitrary: a) (auto split: option.splits)

lemma parse_digits_nat_str: "parse_digits 0 (nat_str n) = Some n"
proof (induction n rule: nat_str.induct)
  case (1 n)
  show ?case
    using 1 by (subst nat_str.simps) (auto simp: parse_digits_append)
qed

lemma nat_str_Cons: "\<exists>d cs. nat_str n = digit_char d # cs \<and> d < 10"
proof (induction n rule: nat_str.induct)
  case (1 n)
  show ?case using 1 by (subst nat_str.simps) (cases "n < 10"; auto)
qed

lemma parse_nat_nat_str [simp]: "parse_nat (nat_str n) = Some n"
  using nat_str_Cons [of n] parse_digits_nat_str [of n] by (auto simp: parse_nat_def)

text \<open>What \<open>strconv.Itoa\<close> prints, \<open>ParseInt\<close> reads back.\<close>

lemma parse_int64_itoa [simp]: "in_i64 i \<Longrightarrow> parse_int64 (itoa i) = Inr i"
proof (cases "i < 0")
  case True
  then show "in_i64 i \<Longrightarrow> ?thesis" by (simp add: itoa_def parse_int64_def Let_def)
next
  case False
  obtain d cs where s: "nat_str (nat i) = digit_char d # cs" "d < 10"
    using nat_str_Cons by blast
  then have "parse_nat (digit_char d # cs) = Some (nat i)"
    by (metis parse_nat_nat_str)
  with False s digit_char_not_sign [of d] show "in_i64 i \<Longrightarrow> ?thesis"
    by (simp add: itoa_def parse_int64_def Let_def)
qed

lemma parse_int64_empty [simp]: "parse_int64 [] = Inl (ParseError [])"
  by (simp add: parse_int64_def parse_nat_def)

lemma parse_int64_in_i64: "parse_int64 s = Inr i \<Longrightarrow> in_i64 i"
  by (auto simp: parse_int64_def Let_def split: prod.splits option.splits if_splits)

lemma nat_str_inj: "nat_str m = nat_str n \<Longrightarrow> m = n"
  by (metis option.inject parse_nat_nat_str)

section \<open>time\<close>

text \<open>An \<open>int64\<close> result wraps around.\<close>

definition wrap_i64 :: "int \<Rightarrow> int" where
  "wrap_i64 i = (i + 2 ^ 63) mod 2 ^ 64 - 2 ^ 63"

lemma wrap_i64_id [simp]: "in_i64 i \<Longrightarrow> wrap_i64 i = i"
  by (simp add: wrap_i64_def in_i64_def)

lemma wrap_i64_in: "in_i64 (wrap_i64 i)"
  using pos_mod_bound [of "2 ^ 64" "i + 2 ^ 63"] pos_mod_sign [of "2 ^ 64" "i + 2 ^ 63"]
  by (simp add: wrap_i64_def in_i64_def)

text \<open>\<open>t.Sub(u)\<close> saturates to the smallest or largest \<open>Duration\<close>.\<close>

definition time_sub :: "int \<Rightarrow> int \<Rightarrow> int" where
  "time_sub t u = max (- (2 ^ 63)) (min (2 ^ 63 - 1) (t - u))"

lemma time_sub_exact: "in_i64 (t - u) \<Longrightarrow> time_sub t u = t - u"
  by (auto simp: time_sub_def in_i64_def)

lemma time_sub_mono: "t \<le> t' \<Longrightarrow> time_sub t u \<le> time_sub t' u"
  by (auto simp: time_sub_def)

definition nanosecond :: int where "nanosecond = 1"
definition millisecond :: int where "millisecond = 1000000"
definition second :: int where "second = 1000000000"
definition minute :: int where "minute = 60 * second"
definition hour :: int where "hour = 60 * minute"

lemmas time_units = nanosecond_def millisecond_def second_def minute_def hour_def

text \<open>\<open>time.Unix(s, 0)\<close> and \<open>t.Unix()\<close> (whole seconds since the epoch).\<close>

definition from_unix :: "int \<Rightarrow> int" where "from_unix s = s * second"
definition to_unix :: "int \<Rightarrow> int" where "to_unix t = t div second"

lemma to_unix_from_unix [simp]: "to_unix (from_unix s) = s"
  by (simp add: to_unix_def from_unix_def second_def)

section \<open>Go maps that are iterated over\<close>

text \<open>
  An association list with distinct keys stands for a Go map whose entries the code
  ranges over; the order of the list is the (unspecified) iteration order.
\<close>

definition map_ok :: "('k \<times> 'v) list \<Rightarrow> bool" where
  "map_ok m \<longleftrightarrow> distinct (map fst m)"

lemma map_ok_Nil [simp, intro]: "map_ok []"
  by (simp add: map_ok_def)

lemma map_ok_update [simp, intro]: "map_ok m \<Longrightarrow> map_ok (AList.update k v m)"
  by (simp add: map_ok_def distinct_update)

lemma map_ok_delete [simp, intro]: "map_ok m \<Longrightarrow> map_ok (AList.delete k m)"
  by (simp add: map_ok_def distinct_delete)

lemma map_ok_filter [simp, intro]: "map_ok m \<Longrightarrow> map_ok (filter p m)"
  by (simp add: map_ok_def distinct_map_filter)

lemma map_ok_map_of: "map_ok m \<Longrightarrow> (k, v) \<in> set m \<longleftrightarrow> map_of m k = Some v"
  by (simp add: map_ok_def)

lemma map_of_delete_conv [simp]: "map_of (AList.delete k m) = (map_of m)(k := None)"
  by (simp add: delete_conv')

lemma map_of_update_conv [simp]: "map_of (AList.update k v m) = (map_of m)(k \<mapsto> v)"
  by (simp add: update_conv')

lemma map_of_filter_conv:
  "map_ok m \<Longrightarrow> map_of (filter (\<lambda>(k, v). p k v) m) k =
     (case map_of m k of None \<Rightarrow> None | Some v \<Rightarrow> if p k v then Some v else None)"
  by (induction m)
    (auto simp: map_ok_def split: option.splits dest: map_of_SomeD intro: rev_image_eqI)

end
