(* ===== verification/GoFloat.thy ===== *)
theory GoFloat
  imports Complex_Main GoLib
begin

text \<open>
  Go's \<open>float64\<close>: IEEE 754 binary64 with rounding to nearest, ties to even. A value is
  a rational number, an infinity or NaN; the two zeros are one value, which no
  operation used by the sources tells apart (nothing divides by a zero of unknown
  sign). Every operation computes exactly on rationals and rounds once.
\<close>

datatype f64 = Fin rat | PInf | NInf | NaN

section \<open>Rounding\<close>

text \<open>The exponent of the leading binary digit of a positive rational.\<close>

fun nat_bits :: "nat \<Rightarrow> int" where
  "nat_bits n = (if n = 0 then 0 else 1 + nat_bits (n div 2))"

declare nat_bits.simps [simp del]

definition ilog2 :: "rat \<Rightarrow> int" where
  "ilog2 x = (let (p, q) = quotient_of x; e = nat_bits (nat p) - nat_bits (nat q)
              in if 2 powi e \<le> x then e else e - 1)"

text \<open>Round a rational to an integer, ties to even.\<close>

definition round_even :: "rat \<Rightarrow> int" where
  "round_even x =
     (let f = \<lfloor>x\<rfloor>; d = x - of_int f
      in if d < 1 / 2 then f else if 1 / 2 < d then f + 1 else if even f then f else f + 1)"

text \<open>The unit in the last place at the magnitude of \<open>x\<close> (subnormals included).\<close>

definition ulp :: "rat \<Rightarrow> rat" where
  "ulp x = 2 powi (max (ilog2 \<bar>x\<bar>) (- 1022) - 52)"

definition round_val :: "rat \<Rightarrow> rat" where
  "round_val x = (if x = 0 then 0 else of_int (round_even (x / ulp x)) * ulp x)"

definition rnd :: "rat \<Rightarrow> f64" where
  "rnd x = (let y = round_val x
            in if 2 powi 1024 \<le> y then PInf else if y \<le> - (2 powi 1024) then NInf else Fin y)"

section \<open>Operations\<close>

fun f_neg :: "f64 \<Rightarrow> f64" where
  "f_neg (Fin a) = Fin (- a)"
| "f_neg PInf = NInf"
| "f_neg NInf = PInf"
| "f_neg NaN = NaN"

fun f_add :: "f64 \<Rightarrow> f64 \<Rightarrow> f64" where
  "f_add NaN _ = NaN"
| "f_add _ NaN = NaN"
| "f_add (Fin a) (Fin b) = rnd (a + b)"
| "f_add (Fin _) y = y"
| "f_add x (Fin _) = x"
| "f_add x y = (if x = y then x else NaN)"

definition f_sub :: "f64 \<Rightarrow> f64 \<Rightarrow> f64" where
  "f_sub x y = f_add x (f_neg y)"

fun f_pos :: "f64 \<Rightarrow> bool" where
  "f_pos (Fin a) = (0 < a)" | "f_pos PInf = True" | "f_pos _ = False"

fun f_zero :: "f64 \<Rightarrow> bool" where
  "f_zero (Fin a) = (a = 0)" | "f_zero _ = False"

fun f_mul :: "f64 \<Rightarrow> f64 \<Rightarrow> f64" where
  "f_mul NaN _ = NaN"
| "f_mul _ NaN = NaN"
| "f_mul (Fin a) (Fin b) = rnd (a * b)"
| "f_mul x y = (if f_zero x \<or> f_zero y then NaN else if f_pos x = f_pos y then PInf else NInf)"

fun f_div :: "f64 \<Rightarrow> f64 \<Rightarrow> f64" where
  "f_div NaN _ = NaN"
| "f_div _ NaN = NaN"
| "f_div (Fin a) (Fin b) =
     (if b = 0 then if a = 0 then NaN else if 0 < a then PInf else NInf else rnd (a / b))"
| "f_div (Fin _) y = Fin 0"
| "f_div x (Fin b) = (if (x = PInf) = (0 \<le> b) then PInf else NInf)"
| "f_div x y = NaN"

fun f_le :: "f64 \<Rightarrow> f64 \<Rightarrow> bool" where
  "f_le NaN _ = False"
| "f_le _ NaN = False"
| "f_le NInf _ = True"
| "f_le _ PInf = True"
| "f_le (Fin a) (Fin b) = (a \<le> b)"
| "f_le _ _ = False"

definition f_lt :: "f64 \<Rightarrow> f64 \<Rightarrow> bool" where
  "f_lt x y \<longleftrightarrow> f_le x y \<and> \<not> f_le y x"

definition f_eq :: "f64 \<Rightarrow> f64 \<Rightarrow> bool" where
  "f_eq x y \<longleftrightarrow> f_le x y \<and> f_le y x"

text \<open>\<open>float64(n)\<close> for an integer \<open>n\<close>.\<close>

definition f_of_int :: "int \<Rightarrow> f64" where
  "f_of_int n = rnd (of_int n)"

text \<open>
  \<open>int64(x)\<close> truncates towards zero; a value the type cannot hold gives an
  implementation-dependent result, which is the parameter \<open>oor\<close>.
\<close>

definition trunc_rat :: "rat \<Rightarrow> int" where
  "trunc_rat x = (if 0 \<le> x then \<lfloor>x\<rfloor> else \<lceil>x\<rceil>)"

fun f_to_i64 :: "(f64 \<Rightarrow> int) \<Rightarrow> f64 \<Rightarrow> int" where
  "f_to_i64 oor (Fin x) = (if in_i64 (trunc_rat x) then trunc_rat x else oor (Fin x))"
| "f_to_i64 oor x = oor x"

section \<open>The order\<close>

lemma f_le_refl_iff [simp]: "f_le x x \<longleftrightarrow> x \<noteq> NaN"
  by (cases x) auto

lemma f_le_trans [trans]: "f_le x y \<Longrightarrow> f_le y z \<Longrightarrow> f_le x z"
  by (cases x; cases y; cases z) auto

lemma f_le_antisym: "f_le x y \<Longrightarrow> f_le y x \<Longrightarrow> x = y"
  by (cases x; cases y) auto

lemma f_le_total: "x \<noteq> NaN \<Longrightarrow> y \<noteq> NaN \<Longrightarrow> f_le x y \<or> f_le y x"
  by (cases x; cases y) auto

lemma f_le_not_NaN: "f_le x y \<Longrightarrow> x \<noteq> NaN \<and> y \<noteq> NaN"
  by (cases x; cases y) auto

lemma f_lt_iff: "x \<noteq> NaN \<Longrightarrow> y \<noteq> NaN \<Longrightarrow> f_lt x y \<longleftrightarrow> \<not> f_le y x"
  using f_le_total by (auto simp: f_lt_def)

lemma f_eq_iff: "f_eq x y \<longleftrightarrow> x = y \<and> x \<noteq> NaN"
  by (auto simp: f_eq_def dest: f_le_antisym f_le_not_NaN)

lemma f_le_PInf [simp]: "f_le x PInf \<longleftrightarrow> x \<noteq> NaN"
  by (cases x) auto

lemma f_le_NaN [simp]: "\<not> f_le x NaN" "\<not> f_le NaN x"
  by (cases x; simp)+

lemma f_lt_NaN [simp]: "\<not> f_lt x NaN" "\<not> f_lt NaN x"
  by (simp_all add: f_lt_def)

lemma f_lt_le_trans: "f_lt x y \<Longrightarrow> f_le y z \<Longrightarrow> f_lt x z"
  by (cases x; cases y; cases z) (auto simp: f_lt_def)

lemma f_le_lt_trans: "f_le x y \<Longrightarrow> f_lt y z \<Longrightarrow> f_lt x z"
  by (cases x; cases y; cases z) (auto simp: f_lt_def)

lemma f_lt_imp_le: "f_lt x y \<Longrightarrow> f_le x y"
  by (simp add: f_lt_def)

lemma f_lt_irrefl [simp]: "\<not> f_lt x x"
  by (simp add: f_lt_def)

lemma f_lt_trans: "f_lt x y \<Longrightarrow> f_lt y z \<Longrightarrow> f_lt x z"
  by (blast intro: f_lt_le_trans f_lt_imp_le)

section \<open>Rounding is monotone\<close>

lemma nat_bits_nonneg: "0 \<le> nat_bits n"
  by (induction n rule: nat_bits.induct) (subst nat_bits.simps, auto)

lemma nat_bits_bounds: "0 < n \<Longrightarrow> 2 powi (nat_bits n - 1) \<le> (of_nat n :: rat) \<and> of_nat n < (2::rat) powi (nat_bits n)"
proof (induction n rule: nat_bits.induct)
  case (1 n)
  show ?case
  proof (cases "n = 1")
    case True
    then show ?thesis by (subst (1 2) nat_bits.simps) (simp add: nat_bits.simps)
  next
    case False
    let ?m = "n div 2"
    have m: "0 < ?m" "n = 2 * ?m \<or> n = 2 * ?m + 1" using 1(2) False by auto
    have IH: "2 powi (nat_bits ?m - 1) \<le> (of_nat ?m :: rat)" "of_nat ?m < (2::rat) powi (nat_bits ?m)"
      using 1 m(1) by auto
    define b where "b = nat (nat_bits ?m)"
    have b: "nat_bits ?m = int b" "nat_bits n = int (Suc b)"
      using nat_bits_nonneg [of ?m] 1(2) by (auto simp: b_def nat_bits.simps [of n])
    have lt: "?m < 2 ^ b" using IH(2) unfolding b(1) power_int_of_nat
      by (metis of_nat_less_iff of_nat_numeral of_nat_power)
    have "0 < b" using lt m(1) by (cases b) auto
    then obtain c where c: "b = Suc c" by (cases b) auto
    have "(2::rat) ^ c \<le> of_nat ?m" using IH(1) unfolding b(1) c by simp
    then have ge: "2 ^ c \<le> ?m" by (metis of_nat_le_iff of_nat_numeral of_nat_power)
    have "2 ^ b \<le> n" "n < 2 ^ Suc b" using m(2) lt ge c by auto
    then have "(2::rat) ^ b \<le> of_nat n" "of_nat n < (2::rat) ^ Suc b"
      by (metis of_nat_le_iff of_nat_less_iff of_nat_numeral of_nat_power)+
    moreover have "nat_bits n - 1 = int b" using b(2) by simp
    ultimately show ?thesis unfolding b(2) power_int_of_nat by simp
  qed
qed

lemma ilog2_bounds:
  assumes "0 < x"
  shows "2 powi (ilog2 x) \<le> x" "x < 2 powi (ilog2 x + 1)"
proof -
  obtain p q where pq: "quotient_of x = (p, q)" by (cases "quotient_of x")
  have q: "0 < q" using quotient_of_denom_pos [OF pq] .
  have x: "x = of_int p / of_int q" using quotient_of_div [OF pq] .
  have p: "0 < p" using assms q by (simp add: x zero_less_divide_iff)
  define a b where "a = nat_bits (nat p)" and "b = nat_bits (nat q)"
  have A: "2 powi (a - 1) \<le> (of_int p :: rat)" "(of_int p :: rat) < 2 powi a"
    using nat_bits_bounds [of "nat p"] p by (auto simp: a_def)
  have B: "2 powi (b - 1) \<le> (of_int q :: rat)" "(of_int q :: rat) < 2 powi b"
    using nat_bits_bounds [of "nat q"] q by (auto simp: b_def)
  have "x < 2 powi a / 2 powi (b - 1)"
    unfolding x using A B p q by (intro frac_less) auto
  then have up: "x < 2 powi (a - b + 1)" by (simp add: power_int_diff power_int_add)
  have "2 powi (a - 1) / 2 powi b < x"
    unfolding x using A B p q by (intro frac_less2) auto
  then have low: "2 powi (a - b - 1) < x" by (simp add: power_int_diff)
  show "2 powi (ilog2 x) \<le> x" "x < 2 powi (ilog2 x + 1)"
    using up low by (auto simp: ilog2_def pq a_def b_def Let_def not_le)
qed

lemma powi2_le_imp: "(2::rat) powi m \<le> 2 powi n \<Longrightarrow> m \<le> n"
  using power_int_strict_increasing [of n m "2::rat"] by (meson not_le one_less_numeral_iff semiring_norm(76))

lemma powi2_less_imp: "(2::rat) powi m < 2 powi n \<Longrightarrow> m < n"
  using power_int_increasing [of n m "2::rat"] by (meson not_le one_le_numeral zero_neq_numeral)

lemma ilog2_mono: "0 < x \<Longrightarrow> x \<le> y \<Longrightarrow> ilog2 x \<le> ilog2 y"
proof (rule ccontr)
  assume h: "0 < x" "x \<le> y" "\<not> ilog2 x \<le> ilog2 y"
  then have "y < 2 powi (ilog2 y + 1)" "2 powi (ilog2 x) \<le> x" using ilog2_bounds by auto
  moreover have "(2::rat) powi (ilog2 y + 1) \<le> 2 powi (ilog2 x)"
    using h by (intro power_int_increasing) auto
  ultimately show False using h by linarith
qed

lemma round_even_of_int [simp]: "round_even (of_int n) = n"
  by (simp add: round_even_def Let_def)

lemma round_even_mono: "x \<le> y \<Longrightarrow> round_even x \<le> round_even y"
proof -
  assume xy: "x \<le> y"
  then have f: "\<lfloor>x\<rfloor> \<le> \<lfloor>y\<rfloor>" by (rule floor_mono)
  show ?thesis
  proof (cases "\<lfloor>x\<rfloor> = \<lfloor>y\<rfloor>")
    case True
    with xy show ?thesis by (auto simp: round_even_def Let_def)
  next
    case False
    have "round_even x \<le> \<lfloor>x\<rfloor> + 1" "\<lfloor>y\<rfloor> \<le> round_even y" by (auto simp: round_even_def Let_def)
    with f False show ?thesis by linarith
  qed
qed

lemma round_even_neg: "round_even (- x) = - round_even x"
proof (cases "x \<in> \<int>")
  case True
  then obtain n where "x = of_int n" by (auto elim: Ints_cases)
  then show ?thesis by (metis of_int_minus round_even_of_int)
next
  case False
  have "\<lceil>x\<rceil> = \<lfloor>x\<rfloor> + 1"
    using False by (metis ceiling_altdef Ints_of_int)
  then have "\<lfloor>- x\<rfloor> = - \<lfloor>x\<rfloor> - 1" by (simp add: floor_minus)
  then show ?thesis by (auto simp: round_even_def Let_def)
qed

lemma ulp_pos [simp]: "0 < ulp x"
  by (simp add: ulp_def)

lemma ulp_neg [simp]: "ulp (- x) = ulp x"
  by (simp add: ulp_def)

lemma round_val_neg: "round_val (- x) = - round_val x"
  by (simp add: round_val_def round_even_neg)

lemma round_val_0 [simp]: "round_val 0 = 0"
  by (simp add: round_val_def)

lemma round_val_nonneg: "0 \<le> x \<Longrightarrow> 0 \<le> round_val x"
  using round_even_mono [of 0 "x / ulp x"] round_even_of_int [of 0]
  by (cases "x = 0") (auto simp: round_val_def zero_le_mult_iff less_imp_le)

text \<open>A multiple of the unit at hand bounds the rounded value on the same side.\<close>

lemma round_val_le:
  assumes "0 < x" "x \<le> of_int k * ulp x" shows "round_val x \<le> of_int k * ulp x"
proof -
  have "x / ulp x \<le> of_int k" using assms(2) by (simp add: pos_divide_le_eq)
  from round_even_mono [OF this] have "round_even (x / ulp x) \<le> k" by simp
  then show ?thesis using assms(1) by (simp add: round_val_def)
qed

lemma round_val_ge:
  assumes "0 < x" "of_int k * ulp x \<le> x" shows "of_int k * ulp x \<le> round_val x"
proof -
  have "of_int k \<le> x / ulp x" using assms(2) by (simp add: pos_le_divide_eq)
  from round_even_mono [OF this] have "k \<le> round_even (x / ulp x)" by simp
  then show ?thesis using assms(1) by (simp add: round_val_def)
qed

lemma powi_ulp:
  assumes "max (ilog2 \<bar>x\<bar>) (- 1022) - 52 \<le> e"
  shows "(2::rat) powi e = of_int (2 ^ nat (e - (max (ilog2 \<bar>x\<bar>) (- 1022) - 52))) * ulp x"
proof -
  let ?m = "max (ilog2 \<bar>x\<bar>) (- 1022) - 52"
  have "(2::rat) powi e = 2 powi (e - ?m) * 2 powi ?m"
    by (simp flip: power_int_add)
  moreover have "(2::rat) powi (e - ?m) = 2 ^ nat (e - ?m)"
    using assms power_int_of_nat [of "2::rat" "nat (e - ?m)"] by simp
  ultimately show ?thesis by (simp add: ulp_def)
qed

lemma round_val_le_powi:
  assumes "0 < x" "x \<le> 2 powi e" "- 1074 \<le> e" shows "round_val x \<le> 2 powi e"
proof -
  have "(2::rat) powi ilog2 x \<le> 2 powi e" using ilog2_bounds(1) [OF assms(1)] assms(2) by linarith
  then have "ilog2 x \<le> e" by (rule powi2_le_imp)
  then have "max (ilog2 \<bar>x\<bar>) (- 1022) - 52 \<le> e" using assms by auto
  from powi_ulp [OF this] assms(1,2) round_val_le [of x] show ?thesis by metis
qed

lemma round_val_ge_powi:
  assumes "0 < x" "2 powi e \<le> x" "- 1022 \<le> e" shows "2 powi e \<le> round_val x"
proof -
  let ?l = "ilog2 x"
  have "(2::rat) powi e < 2 powi (?l + 1)" using assms ilog2_bounds(2) [OF assms(1)] by linarith
  then have e: "e \<le> ?l" using powi2_less_imp by fastforce
  then have "max (ilog2 \<bar>x\<bar>) (- 1022) - 52 \<le> ?l" using assms by auto
  from powi_ulp [OF this] assms(1) round_val_ge [of x] ilog2_bounds(1) [OF assms(1)]
  have "2 powi ?l \<le> round_val x" by metis
  moreover have "(2::rat) powi e \<le> 2 powi ?l" using e by (intro power_int_increasing) auto
  ultimately show ?thesis by linarith
qed

lemma round_val_mono_pos:
  assumes "0 < x" "x \<le> y" shows "round_val x \<le> round_val y"
proof (cases "ulp x = ulp y")
  case True
  have "x / ulp x \<le> y / ulp x" using assms by (intro divide_right_mono) (auto simp: less_imp_le)
  from round_even_mono [OF this] show ?thesis
    using True assms by (simp add: round_val_def)
next
  case False
  let ?ex = "max (ilog2 x) (- 1022)" and ?ey = "max (ilog2 y) (- 1022)"
  have "?ex \<noteq> ?ey" using False assms by (auto simp: ulp_def)
  moreover have "ilog2 x \<le> ilog2 y" using assms by (intro ilog2_mono)
  ultimately have lt: "ilog2 x < ilog2 y" "- 1022 < ilog2 y" "?ex + 1 \<le> ilog2 y" by auto
  have "x < 2 powi (ilog2 x + 1)" using assms ilog2_bounds by auto
  also have "(2::rat) powi (ilog2 x + 1) \<le> 2 powi (ilog2 y)"
    using lt by (intro power_int_increasing) auto
  finally have "round_val x \<le> 2 powi (ilog2 y)" using assms lt by (intro round_val_le_powi) auto
  also have "\<dots> \<le> round_val y"
    using assms lt ilog2_bounds(1) [of y] by (intro round_val_ge_powi) auto
  finally show ?thesis .
qed

lemma round_val_mono: "x \<le> y \<Longrightarrow> round_val x \<le> round_val y"
proof -
  assume xy: "x \<le> y"
  consider "0 < x" | "x \<le> 0" "0 \<le> y" | "y < 0" by linarith
  then show ?thesis
  proof cases
    case 1 then show ?thesis using xy by (rule round_val_mono_pos)
  next
    case 2
    then have "0 \<le> round_val (- x)" "0 \<le> round_val y" by (simp_all add: round_val_nonneg)
    then show ?thesis by (simp add: round_val_neg)
  next
    case 3
    then have "round_val (- y) \<le> round_val (- x)" using xy by (intro round_val_mono_pos) auto
    then show ?thesis by (simp add: round_val_neg)
  qed
qed

lemma rnd_not_NaN [simp]: "rnd x \<noteq> NaN"
  by (simp add: rnd_def Let_def)

theorem rnd_mono: "x \<le> y \<Longrightarrow> f_le (rnd x) (rnd y)"
  using round_val_mono [of x y] by (auto simp: rnd_def Let_def)

text \<open>Integers and dyadic rationals of up to 53 bits are represented exactly.\<close>

lemma round_val_exact: "x = of_int k * ulp x \<Longrightarrow> round_val x = x"
proof -
  assume x: "x = of_int k * ulp x"
  then have "x / ulp x = of_int k" by (metis less_irrefl nonzero_mult_div_cancel_right ulp_pos)
  with x show ?thesis by (simp add: round_val_def)
qed

lemma rnd_0 [simp]: "rnd 0 = Fin 0"
  by (simp add: rnd_def)

lemma rnd_nonneg: "0 \<le> x \<Longrightarrow> f_le (Fin 0) (rnd x)"
  using rnd_mono [of 0 x] by simp

lemma f_of_int_mono: "m \<le> n \<Longrightarrow> f_le (f_of_int m) (f_of_int n)"
  by (simp add: f_of_int_def rnd_mono)

section \<open>Exact values\<close>

text \<open>Every dyadic rational of up to 53 bits and a moderate exponent is a \<open>float64\<close>.\<close>

lemma round_val_dyadic:
  assumes "\<bar>k\<bar> < 2 ^ 53" "0 \<le> j" "j \<le> 1074" "x = of_int k * 2 powi (- j)"
  shows "round_val x = x"
proof (cases "k = 0")
  case False
  have ax: "\<bar>x\<bar> = of_int \<bar>k\<bar> * 2 powi (- j)" by (simp add: assms(4) abs_mult)
  then have pos: "0 < \<bar>x\<bar>" using False by simp
  have "(of_int \<bar>k\<bar> :: rat) < 2 ^ 53" using assms(1) by (metis of_int_less_iff of_int_numeral of_int_power)
  then have "\<bar>x\<bar> < 2 ^ 53 * 2 powi (- j)" by (simp add: ax)
  also have "(2::rat) ^ 53 * 2 powi (- j) = 2 powi (53 - j)"
    by (simp add: power_int_diff power_int_minus field_simps)
  finally have "(2::rat) powi ilog2 \<bar>x\<bar> < 2 powi (53 - j)"
    using ilog2_bounds(1) [OF pos] by linarith
  then have "ilog2 \<bar>x\<bar> < 53 - j" by (rule powi2_less_imp)
  then have "max (ilog2 \<bar>x\<bar>) (- 1022) - 52 \<le> - j" using assms by auto
  from powi_ulp [OF this] obtain m where "(2::rat) powi (- j) = of_int m * ulp x" by blast
  then have "x = of_int (k * m) * ulp x" by (simp add: assms(4))
  then show ?thesis by (rule round_val_exact)
qed (simp add: assms(4))

lemma rnd_dyadic:
  assumes "\<bar>k\<bar> < 2 ^ 53" "0 \<le> j" "j \<le> 1074" "x = of_int k * 2 powi (- j)"
  shows "rnd x = Fin x"
proof -
  have "\<bar>x\<bar> \<le> of_int \<bar>k\<bar>"
    using assms(2) power_int_increasing [of "- j" 0 "2::rat"]
    by (simp add: assms(4) abs_mult mult_left_le)
  also have "(of_int \<bar>k\<bar> :: rat) < 2 ^ 53" using assms(1) by (metis of_int_less_iff of_int_numeral of_int_power)
  also have "(2::rat) ^ 53 \<le> 2 powi 1024"
    using power_int_increasing [of 53 1024 "2::rat"] by simp
  finally have "\<bar>x\<bar> < 2 powi 1024" .
  then show ?thesis using round_val_dyadic [OF assms] by (auto simp: rnd_def Let_def)
qed

lemma rnd_int: "\<bar>k\<bar> < 2 ^ 53 \<Longrightarrow> rnd (of_int k) = Fin (of_int k)"
  by (rule rnd_dyadic [of k 0]) auto

lemma rnd_numeral [simp]: "(numeral n :: int) < 2 ^ 53 \<Longrightarrow> rnd (numeral n) = Fin (numeral n)"
  using rnd_int [of "numeral n"] by simp

lemma rnd_one [simp]: "rnd 1 = Fin 1"
  using rnd_int [of 1] by simp

lemma f_of_int_exact: "\<bar>k\<bar> < 2 ^ 53 \<Longrightarrow> f_of_int k = Fin (of_int k)"
  by (simp add: f_of_int_def rnd_int)

lemma f_of_int_pos:
  assumes "0 < n" "in_i64 n"
  obtains y where "f_of_int n = Fin y" "1 \<le> y"
proof -
  have "(1::rat) \<le> round_val (of_int n)"
    using round_val_ge_powi [of "of_int n" 0] assms(1) by simp
  moreover have "(of_int n :: rat) \<le> 2 powi 63"
  proof -
    have "n \<le> 2 ^ 63" using assms(2) by (simp add: in_i64_def)
    then have "(of_int n :: rat) \<le> of_int (2 ^ 63)" by (simp only: of_int_le_iff)
    then show ?thesis by simp
  qed
  then have "round_val (of_int n) \<le> 2 powi 63" using assms(1) by (intro round_val_le_powi) auto
  moreover have "(2::rat) powi 63 < 2 powi 1024" by (rule power_int_strict_increasing) auto
  ultimately have "f_of_int n = Fin (round_val (of_int n))"
    by (auto simp: f_of_int_def rnd_def Let_def)
  with \<open>1 \<le> round_val (of_int n)\<close> that show thesis by blast
qed

lemma f_of_int_0 [simp]: "f_of_int 0 = Fin 0"
  by (simp add: f_of_int_def)

text \<open>Quotients of counts are monotone in the numerator, antitone in the denominator.\<close>

lemma f_of_int_nonneg:
  assumes "0 \<le> n" "in_i64 n"
  obtains y where "f_of_int n = Fin y" "0 \<le> y"
proof (cases "n = 0")
  case True
  then show thesis using that [of 0] by simp
next
  case False
  then obtain y where "f_of_int n = Fin y" "1 \<le> y" using assms f_of_int_pos [of n] by auto
  then show thesis using that [of y] by simp
qed

lemma f_div_mono:
  assumes "0 \<le> m" "m \<le> m'" "0 < b'" "b' \<le> b" "in_i64 m'" "in_i64 b"
  shows "f_le (f_div (f_of_int m) (f_of_int b)) (f_div (f_of_int m') (f_of_int b'))"
proof -
  have i: "in_i64 m" "in_i64 b'" using assms by (auto simp: in_i64_def)
  obtain x where x: "f_of_int m = Fin x" "0 \<le> x" using assms i by (blast elim: f_of_int_nonneg)
  obtain x' where x': "f_of_int m' = Fin x'" "0 \<le> x'" using assms by (metis f_of_int_nonneg order_trans)
  obtain y where y: "f_of_int b = Fin y" "1 \<le> y" using assms by (metis f_of_int_pos less_le_trans)
  obtain y' where y': "f_of_int b' = Fin y'" "1 \<le> y'" using assms i by (blast elim: f_of_int_pos)
  have "x \<le> x'" "y' \<le> y"
    using f_of_int_mono [OF assms(2)] f_of_int_mono [OF assms(4)] by (simp_all add: x x' y y')
  then have "x / y \<le> x' / y'" using x x' y y' by (intro frac_le) auto
  then have "f_le (rnd (x / y)) (rnd (x' / y'))" by (rule rnd_mono)
  moreover have "y \<noteq> 0" "y' \<noteq> 0" using y(2) y'(2) by auto
  ultimately show ?thesis by (simp add: x(1) x'(1) y(1) y'(1))
qed

text \<open>Numbers of moderate size do not overflow.\<close>

lemma rnd_bounded:
  assumes "\<bar>x\<bar> \<le> 2 powi k" "0 \<le> k" "k < 1024"
  obtains y where "rnd x = Fin y" "\<bar>y\<bar> \<le> 2 powi k"
proof -
  have le: "round_val z \<le> 2 powi k" if "z \<le> 2 powi k" for z :: rat
  proof (cases "0 < z")
    case True
    then show ?thesis using that assms by (intro round_val_le_powi) auto
  next
    case False
    then have "0 \<le> round_val (- z)" by (intro round_val_nonneg) simp
    then have "round_val z \<le> 0" by (simp add: round_val_neg)
    also have "(0::rat) \<le> 2 powi k" by simp
    finally show ?thesis .
  qed
  have b: "\<bar>round_val x\<bar> \<le> 2 powi k" using le [of x] le [of "- x"] assms(1) by (simp add: round_val_neg abs_le_iff)
  have "(2::rat) powi k < 2 powi 1024" using assms(3) by (intro power_int_strict_increasing) auto
  then have "rnd x = Fin (round_val x)" using b by (auto simp: rnd_def Let_def abs_le_iff)
  then show thesis using that b by blast
qed

lemma abs_of_int_powi: "\<bar>n\<bar> \<le> 2 ^ 63 \<Longrightarrow> \<bar>of_int n :: rat\<bar> \<le> 2 powi 63"
proof -
  assume "\<bar>n\<bar> \<le> 2 ^ 63"
  then have "(of_int \<bar>n\<bar> :: rat) \<le> of_int (2 ^ 63)" by (simp only: of_int_le_iff)
  then show ?thesis by simp
qed

end
