(* ===== verification/Metrics.thy ===== *)
theory Metrics
  imports Prelude
begin

text \<open>
  \<open>internal/metrics\<close>: the package-level collectors of a process. A counter is its value, a
  histogram the list of what it observed (the client library sorts them into buckets). The
  collectors of \<open>cmd/disco\<close>'s dispatches are modelled; the latency and the ring expansion are not.
\<close>

record metrics =
  MatchesTotal :: nat
  UnfulfilledTotal :: nat
  OffersPerMatch :: "int list"

definition no_metrics :: metrics where
  "no_metrics = \<lparr>MatchesTotal = 0, UnfulfilledTotal = 0, OffersPerMatch = []\<rparr>"

text \<open>\<open>recordOutcome\<close> of \<open>internal/offers/dispatcher.go\<close>.\<close>

definition count_outcome :: "bool \<Rightarrow> int \<Rightarrow> metrics \<Rightarrow> metrics" where
  "count_outcome matched roundsAttempted s =
     (let s = s\<lparr>OffersPerMatch := OffersPerMatch s @ [roundsAttempted]\<rparr> in
      if matched then s\<lparr>MatchesTotal := MatchesTotal s + 1\<rparr>
      else s\<lparr>UnfulfilledTotal := UnfulfilledTotal s + 1\<rparr>)"

text \<open>Every outcome counts once, in one of the counters and in the histogram.\<close>

definition metrics_agree :: "metrics \<Rightarrow> bool" where
  "metrics_agree s \<longleftrightarrow> length (OffersPerMatch s) = MatchesTotal s + UnfulfilledTotal s"

lemma metrics_agree_simps [simp]:
  "metrics_agree no_metrics" "metrics_agree (count_outcome matched k s) = metrics_agree s"
  by (simp_all add: metrics_agree_def no_metrics_def count_outcome_def Let_def)

lemma count_outcome_simps [simp]:
  "MatchesTotal (count_outcome matched k s) = MatchesTotal s + (if matched then 1 else 0)"
  "UnfulfilledTotal (count_outcome matched k s) = UnfulfilledTotal s + (if matched then 0 else 1)"
  "OffersPerMatch (count_outcome matched k s) = OffersPerMatch s @ [k]"
  by (simp_all add: count_outcome_def Let_def)

end
