(* ===== verification/StateMachine.thy ===== *)
theory StateMachine
  imports GoLib
begin

text \<open>
  \<open>internal/statemachine\<close>: the driver, trip and offer lifecycles. A Go state type is a
  named string type, and the stores convert whatever string Redis holds into it, so a
  state is a string here and a table may be asked about a string that names no state.
  The three machines share one contract, the locale \<open>transition_machine\<close>.
\<close>

type_synonym driver_state = string
type_synonym trip_state = string
type_synonym offer_state = string

text \<open>A \<open>map[S]map[S]bool\<close> literal; a missing inner key reads as \<open>false\<close>.\<close>

type_synonym transition_table = "string \<rightharpoonup> (string \<rightharpoonup> bool)"

definition allowed_in :: "transition_table \<Rightarrow> string \<Rightarrow> string \<Rightarrow> bool" where
  "allowed_in table from to =
     (case table from of Some allowed \<Rightarrow> (case allowed to of Some b \<Rightarrow> b | None \<Rightarrow> False)
      | None \<Rightarrow> False)"

section \<open>Drivers\<close>

definition DriverOffline :: driver_state where "DriverOffline = ''OFFLINE''"
definition DriverAvailable :: driver_state where "DriverAvailable = ''AVAILABLE''"
definition DriverOffered :: driver_state where "DriverOffered = ''OFFERED''"
definition DriverEnRoute :: driver_state where "DriverEnRoute = ''EN_ROUTE''"
definition DriverOnTrip :: driver_state where "DriverOnTrip = ''ON_TRIP''"

definition driverTransitions :: transition_table where
  "driverTransitions =
     [DriverOffline \<mapsto> [DriverAvailable \<mapsto> True],
      DriverAvailable \<mapsto> [DriverOffered \<mapsto> True, DriverOffline \<mapsto> True],
      DriverOffered \<mapsto> [DriverEnRoute \<mapsto> True, DriverAvailable \<mapsto> True],
      DriverEnRoute \<mapsto> [DriverOnTrip \<mapsto> True, DriverAvailable \<mapsto> True],
      DriverOnTrip \<mapsto> [DriverAvailable \<mapsto> True]]"

definition ValidateDriverTransition :: "driver_state \<Rightarrow> driver_state \<Rightarrow> unit result" where
  "ValidateDriverTransition from to =
     (if allowed_in driverTransitions from to then Inr ()
      else Inl (ErrIllegalDriverTransition from to))"

section \<open>Trips\<close>

definition TripRequested :: trip_state where "TripRequested = ''REQUESTED''"
definition TripOffered :: trip_state where "TripOffered = ''OFFERED''"
definition TripMatched :: trip_state where "TripMatched = ''MATCHED''"
definition TripUnfulfilled :: trip_state where "TripUnfulfilled = ''UNFULFILLED''"

definition tripTransitions :: transition_table where
  "tripTransitions =
     [TripRequested \<mapsto> [TripOffered \<mapsto> True, TripUnfulfilled \<mapsto> True],
      TripOffered \<mapsto> [TripMatched \<mapsto> True, TripUnfulfilled \<mapsto> True]]"

definition ValidateTripTransition :: "trip_state \<Rightarrow> trip_state \<Rightarrow> unit result" where
  "ValidateTripTransition from to =
     (if allowed_in tripTransitions from to then Inr ()
      else Inl (ErrIllegalTripTransition from to))"

section \<open>Offers\<close>

definition OfferPending :: offer_state where "OfferPending = ''PENDING''"
definition OfferAccepted :: offer_state where "OfferAccepted = ''ACCEPTED''"
definition OfferDeclined :: offer_state where "OfferDeclined = ''DECLINED''"
definition OfferTimedOut :: offer_state where "OfferTimedOut = ''TIMED_OUT''"

definition offerTransitions :: transition_table where
  "offerTransitions =
     [OfferPending \<mapsto> [OfferAccepted \<mapsto> True, OfferDeclined \<mapsto> True, OfferTimedOut \<mapsto> True]]"

definition ValidateOfferTransition :: "offer_state \<Rightarrow> offer_state \<Rightarrow> unit result" where
  "ValidateOfferTransition from to =
     (if allowed_in offerTransitions from to then Inr ()
      else Inl (ErrIllegalOfferTransition from to))"

lemmas driver_states = DriverOffline_def DriverAvailable_def DriverOffered_def
  DriverEnRoute_def DriverOnTrip_def
lemmas trip_states = TripRequested_def TripOffered_def TripMatched_def TripUnfulfilled_def
lemmas offer_states = OfferPending_def OfferAccepted_def OfferDeclined_def OfferTimedOut_def

declare driver_states [const_simps] trip_states [const_simps] offer_states [const_simps]

section \<open>The contract of a transition table\<close>

text \<open>
  What the stores rely on: validation accepts exactly the table's edges, reports the
  refused pair, and a state has no edge to itself. \<open>runs_to\<close> is reachability along
  accepted transitions; a state the table maps nowhere is terminal.
\<close>

locale transition_machine =
  fixes step_ok :: "string \<Rightarrow> string \<Rightarrow> bool"
    and validate :: "string \<Rightarrow> string \<Rightarrow> unit result"
    and illegal :: "string \<Rightarrow> string \<Rightarrow> go_error"
    and states :: "string set"
  assumes validate_ok: "validate a b = Inr () \<longleftrightarrow> step_ok a b"
    and validate_err: "validate a b \<noteq> Inr () \<Longrightarrow> validate a b = Inl (illegal a b)"
    and no_self_loop: "\<not> step_ok a a"
    and closed: "step_ok a b \<Longrightarrow> a \<in> states \<and> b \<in> states"
begin

lemma validate_cases:
  "validate a b = (if step_ok a b then Inr () else Inl (illegal a b))"
  using validate_ok validate_err by auto

lemma unknown_refused: "a \<notin> states \<or> b \<notin> states \<Longrightarrow> validate a b = Inl (illegal a b)"
  using closed validate_cases by auto

lemma runs_stay_in_states: "step_ok\<^sup>*\<^sup>* a b \<Longrightarrow> a \<in> states \<Longrightarrow> b \<in> states"
  by (induction rule: rtranclp_induct) (auto dest: closed)

lemma terminal_stays: "step_ok\<^sup>*\<^sup>* a b \<Longrightarrow> (\<And>c. \<not> step_ok a c) \<Longrightarrow> b = a"
  by (metis converse_rtranclpE)

end

definition driver_edge :: "string \<Rightarrow> string \<Rightarrow> bool" where
  "driver_edge a b \<longleftrightarrow> allowed_in driverTransitions a b"
definition trip_edge :: "string \<Rightarrow> string \<Rightarrow> bool" where
  "trip_edge a b \<longleftrightarrow> allowed_in tripTransitions a b"
definition offer_edge :: "string \<Rightarrow> string \<Rightarrow> bool" where
  "offer_edge a b \<longleftrightarrow> allowed_in offerTransitions a b"

lemma driver_edge_iff:
  "driver_edge a b \<longleftrightarrow>
     (a, b) \<in> {(DriverOffline, DriverAvailable),
               (DriverAvailable, DriverOffered), (DriverAvailable, DriverOffline),
               (DriverOffered, DriverEnRoute), (DriverOffered, DriverAvailable),
               (DriverEnRoute, DriverOnTrip), (DriverEnRoute, DriverAvailable),
               (DriverOnTrip, DriverAvailable)}"
  by (auto simp: driver_edge_def allowed_in_def driverTransitions_def driver_states)

lemma trip_edge_iff:
  "trip_edge a b \<longleftrightarrow>
     (a, b) \<in> {(TripRequested, TripOffered), (TripRequested, TripUnfulfilled),
               (TripOffered, TripMatched), (TripOffered, TripUnfulfilled)}"
  by (auto simp: trip_edge_def allowed_in_def tripTransitions_def trip_states)

lemma offer_edge_iff:
  "offer_edge a b \<longleftrightarrow> a = OfferPending \<and> b \<in> {OfferAccepted, OfferDeclined, OfferTimedOut}"
  by (auto simp: offer_edge_def allowed_in_def offerTransitions_def offer_states)

interpretation driver_machine: transition_machine driver_edge ValidateDriverTransition
  ErrIllegalDriverTransition
  "{DriverOffline, DriverAvailable, DriverOffered, DriverEnRoute, DriverOnTrip}"
  by unfold_locales
    (auto simp: driver_edge_iff driver_states ValidateDriverTransition_def
      simp flip: driver_edge_def split: if_splits)

interpretation trip_machine: transition_machine trip_edge ValidateTripTransition
  ErrIllegalTripTransition "{TripRequested, TripOffered, TripMatched, TripUnfulfilled}"
  by unfold_locales
    (auto simp: trip_edge_iff trip_states ValidateTripTransition_def
      simp flip: trip_edge_def split: if_splits)

interpretation offer_machine: transition_machine offer_edge ValidateOfferTransition
  ErrIllegalOfferTransition "{OfferPending, OfferAccepted, OfferDeclined, OfferTimedOut}"
  by unfold_locales
    (auto simp: offer_edge_iff offer_states ValidateOfferTransition_def
      simp flip: offer_edge_def split: if_splits)

lemmas validate_driver = driver_machine.validate_cases
lemmas validate_trip = trip_machine.validate_cases
lemmas validate_offer = offer_machine.validate_cases

text \<open>
  Driver transitions: validation accepts exactly the eight edges of the documented
  lifecycle and refuses every other pair, also pairs with a string that names no state,
  with an error carrying both.
\<close>

theorem driver_transition_table:
  "ValidateDriverTransition a b =
     (if (a, b) \<in> {(''OFFLINE'', ''AVAILABLE''), (''AVAILABLE'', ''OFFERED''),
                   (''AVAILABLE'', ''OFFLINE''), (''OFFERED'', ''EN_ROUTE''),
                   (''OFFERED'', ''AVAILABLE''), (''EN_ROUTE'', ''ON_TRIP''),
                   (''EN_ROUTE'', ''AVAILABLE''), (''ON_TRIP'', ''AVAILABLE'')}
      then Inr () else Inl (ErrIllegalDriverTransition a b))"
  unfolding validate_driver driver_edge_iff driver_states by simp

text \<open>Trip outcomes are terminal, and no path leads from one outcome to the other.\<close>

lemma trip_terminal:
  "trip_edge\<^sup>*\<^sup>* s t \<Longrightarrow> s = TripMatched \<or> s = TripUnfulfilled \<Longrightarrow> t = s"
  by (rule trip_machine.terminal_stays) (auto simp: trip_edge_iff trip_states)

text \<open>A trip reaches \<open>MATCHED\<close> only through \<open>OFFERED\<close>.\<close>

lemma trip_matched_from_offered: "trip_edge s TripMatched \<Longrightarrow> s = TripOffered"
  by (auto simp: trip_edge_iff trip_states)

lemma offer_once: "offer_edge a b \<Longrightarrow> \<not> offer_edge b c"
  by (auto simp: offer_edge_iff offer_states)

end
