(* ===== verification/HashRing.thy ===== *)
theory HashRing
  imports GoLib
begin

text \<open>
  \<open>internal/hashring/ring.go\<close>: consistent hashing with virtual nodes. \<open>xxhash.Sum64String\<close>
  is third-party code and the parameter \<open>sum64\<close>; nothing is assumed of it here, so
  every theorem covers colliding positions too. The \<open>owners\<close> map is an association
  list because \<open>Nodes\<close> iterates over it.
\<close>

type_synonym u64 = "64 word"

record ring =
  virtualNodes :: int
  hashes :: "u64 list"
  owners :: "(u64 \<times> string) list"

definition DefaultVirtualNodes :: int where "DefaultVirtualNodes = 150"

definition ring_New :: "int \<Rightarrow> ring" where
  "ring_New vn =
     \<lparr>virtualNodes = (if vn \<le> 0 then DefaultVirtualNodes else vn), hashes = [], owners = []\<rparr>"

definition hashKey :: "(string \<Rightarrow> u64) \<Rightarrow> string \<Rightarrow> u64" where
  "hashKey sum64 key = sum64 key"

definition hashReplica :: "(string \<Rightarrow> u64) \<Rightarrow> string \<Rightarrow> int \<Rightarrow> u64" where
  "hashReplica sum64 nodeID replica = sum64 (nodeID @ ''#'' @ itoa replica)"

definition insertSorted :: "u64 list \<Rightarrow> u64 \<Rightarrow> u64 list" where
  "insertSorted hs h =
     (let i = sort_search (length hs) (\<lambda>i. h \<le> hs ! i);
          hs = hs @ [0];
          hs = slice_copy_within hs (i + 1) i
      in hs[i := h])"

definition removeSorted :: "u64 list \<Rightarrow> u64 \<Rightarrow> u64 list" where
  "removeSorted hs h =
     (let i = sort_search (length hs) (\<lambda>i. h \<le> hs ! i)
      in if i < length hs \<and> hs ! i = h then take i hs @ drop (i + 1) hs else hs)"

text \<open>One iteration of each loop; Go reads a missing map entry as the empty string.\<close>

definition add_replica :: "(string \<Rightarrow> u64) \<Rightarrow> string \<Rightarrow> int \<Rightarrow> ring \<Rightarrow> ring" where
  "add_replica sum64 nodeID i r =
     (let h = hashReplica sum64 nodeID i
      in if map_of (owners r) h \<noteq> None then r
         else r\<lparr>owners := AList.update h nodeID (owners r), hashes := insertSorted (hashes r) h\<rparr>)"

definition remove_replica :: "(string \<Rightarrow> u64) \<Rightarrow> string \<Rightarrow> int \<Rightarrow> ring \<Rightarrow> ring" where
  "remove_replica sum64 nodeID i r =
     (let h = hashReplica sum64 nodeID i
      in if (case map_of (owners r) h of None \<Rightarrow> '''' | Some n \<Rightarrow> n) \<noteq> nodeID then r
         else r\<lparr>owners := AList.delete h (owners r), hashes := removeSorted (hashes r) h\<rparr>)"

definition AddNode :: "(string \<Rightarrow> u64) \<Rightarrow> string \<Rightarrow> ring \<Rightarrow> ring" where
  "AddNode sum64 nodeID r = fold (add_replica sum64 nodeID) [0 .. virtualNodes r - 1] r"

definition RemoveNode :: "(string \<Rightarrow> u64) \<Rightarrow> string \<Rightarrow> ring \<Rightarrow> ring" where
  "RemoveNode sum64 nodeID r = fold (remove_replica sum64 nodeID) [0 .. virtualNodes r - 1] r"

definition Lookup :: "(string \<Rightarrow> u64) \<Rightarrow> ring \<Rightarrow> string \<Rightarrow> string \<times> bool" where
  "Lookup sum64 r key =
     (if hashes r = [] then ('''', False)
      else let h = hashKey sum64 key;
               i = sort_search (length (hashes r)) (\<lambda>i. h \<le> hashes r ! i);
               i = (if i = length (hashes r) then 0 else i)
           in (case map_of (owners r) (hashes r ! i) of None \<Rightarrow> '''' | Some n \<Rightarrow> n, True))"

definition Nodes :: "ring \<Rightarrow> string list" where
  "Nodes r = rev (fold (\<lambda>(h, id) nodes. if id \<in> set nodes then nodes else id # nodes) (owners r) [])"

section \<open>The sorted slice of positions\<close>

lemma sorted_search:
  fixes hs :: "u64 list" and h :: u64
  assumes "sorted hs"
  defines "i \<equiv> sort_search (length hs) (\<lambda>i. h \<le> hs ! i)"
  shows "i \<le> length hs" and "\<forall>x \<in> set (take i hs). x < h" and "\<forall>x \<in> set (drop i hs). h \<le> x"
proof -
  have m: "\<forall>a b. a \<le> b \<longrightarrow> b < length hs \<longrightarrow> h \<le> hs ! a \<longrightarrow> h \<le> hs ! b"
    using assms(1) by (meson order_trans sorted_nth_mono)
  note c = sort_search_correct [OF m, folded i_def]
  show "i \<le> length hs" by (simp add: i_def sort_search_le)
  show "\<forall>x \<in> set (take i hs). x < h"
  proof
    fix x assume "x \<in> set (take i hs)"
    then obtain a where "a < i" "x = hs ! a" by (auto simp: in_set_conv_nth)
    with c(1) show "x < h" by (simp add: not_le)
  qed
  show "\<forall>x \<in> set (drop i hs). h \<le> x"
  proof
    fix x assume "x \<in> set (drop i hs)"
    then obtain a where "a < length hs - i" "x = hs ! (i + a)" by (auto simp: in_set_conv_nth)
    with c(2) show "h \<le> x" by simp
  qed
qed

lemma insertSorted_split:
  "insertSorted hs h =
     (let i = sort_search (length hs) (\<lambda>i. h \<le> hs ! i) in take i hs @ h # drop i hs)"
proof -
  define i where "i = sort_search (length hs) (\<lambda>i. h \<le> hs ! i)"
  have i: "i \<le> length hs" by (simp add: i_def sort_search_le)
  let ?hs = "hs @ [0]"
  have copy: "slice_copy_within ?hs (i + 1) i = take (i + 1) ?hs @ drop i hs"
    using i by (simp add: slice_copy_within_def Let_def min_def) arith
  have "length (take (i + 1) ?hs) = i + 1" using i by simp
  then have "(take (i + 1) ?hs @ drop i hs)[i := h] = (take (i + 1) ?hs)[i := h] @ drop i hs"
    by (simp add: list_update_append)
  also have "(take (i + 1) ?hs)[i := h] = take i hs @ [h]"
    using i by (subst upd_conv_take_nth_drop) (auto simp: min_def)
  finally show ?thesis using copy by (simp add: insertSorted_def Let_def i_def)
qed

lemma insertSorted_sorted:
  assumes "sorted hs" shows "sorted (insertSorted hs h)"
proof -
  define i where "i = sort_search (length hs) (\<lambda>i. h \<le> hs ! i)"
  have "\<forall>x \<in> set (take i hs). x < h" "\<forall>x \<in> set (drop i hs). h \<le> x"
    unfolding i_def by (rule sorted_search(2) [OF assms], rule sorted_search(3) [OF assms])
  moreover have "sorted (take i hs)" "sorted (drop i hs)"
    using assms by (simp_all add: sorted_wrt_take sorted_wrt_drop)
  ultimately have "sorted (take i hs @ h # drop i hs)"
    by (fastforce simp: sorted_append)
  then show ?thesis by (simp add: insertSorted_split Let_def i_def)
qed

lemma insertSorted_set: "set (insertSorted hs h) = insert h (set hs)"
  unfolding insertSorted_split Let_def
  by (metis Un_insert_right append_take_drop_id list.simps(15) set_append)

lemma insertSorted_distinct: "h \<notin> set hs \<Longrightarrow> distinct hs \<Longrightarrow> distinct (insertSorted hs h)"
  unfolding insertSorted_split Let_def
  by (auto simp: set_take_disj_set_drop_if_distinct dest: in_set_takeD in_set_dropD)

text \<open>On a sorted slice without duplicates, removal removes exactly the position.\<close>

lemma removeSorted_eq:
  assumes "sorted hs" "distinct hs"
  shows "removeSorted hs h = filter (\<lambda>x. x \<noteq> h) hs"
proof -
  let ?i = "sort_search (length hs) (\<lambda>i. h \<le> hs ! i)"
  have lo: "filter (\<lambda>x. x \<noteq> h) (take ?i hs) = take ?i hs"
    using sorted_search(2) [OF assms(1), of h] by (auto simp: filter_id_conv)
  show ?thesis
  proof (cases "?i < length hs \<and> hs ! ?i = h")
    case True
    have s: "hs = take ?i hs @ h # drop (Suc ?i) hs" using True id_take_nth_drop by metis
    then have "h \<notin> set (drop (Suc ?i) hs)" using assms(2) by (metis distinct.simps(2) distinct_append)
    then have "filter (\<lambda>x. x \<noteq> h) (drop (Suc ?i) hs) = drop (Suc ?i) hs"
      by (auto simp: filter_id_conv)
    moreover have "filter (\<lambda>x. x \<noteq> h) hs =
        filter (\<lambda>x. x \<noteq> h) (take ?i hs) @ filter (\<lambda>x. x \<noteq> h) (drop (Suc ?i) hs)"
      by (subst s) simp
    ultimately show ?thesis using True lo by (simp add: removeSorted_def Let_def)
  next
    case False
    have "h \<notin> set hs"
    proof
      assume h: "h \<in> set hs"
      have "h \<notin> set (take ?i hs)" using sorted_search(2) [OF assms(1), of h] by auto
      with h have d: "h \<in> set (drop ?i hs)" by (metis Un_iff append_take_drop_id set_append)
      then obtain y ys where ys: "drop ?i hs = y # ys" by (cases "drop ?i hs") auto
      have "h \<le> y" using sorted_search(3) [OF assms(1), of h] ys by simp
      moreover have "y \<le> h" using d assms(1) ys by (metis set_ConsD order_refl sorted_simps(2) sorted_wrt_drop)
      ultimately have "y = h" by simp
      moreover have "?i < length hs" "hs ! ?i = y"
        using ys nth_via_drop [OF ys] by (auto intro: ccontr)
      ultimately show False using False by simp
    qed
    then have "filter (\<lambda>x. x \<noteq> h) hs = hs" by (auto simp: filter_id_conv)
    with False show ?thesis by (auto simp: removeSorted_def Let_def)
  qed
qed

section \<open>The ring invariant\<close>

text \<open>Positions are sorted and unique, and are exactly the keys of the owner map.\<close>

definition ring_ok :: "ring \<Rightarrow> bool" where
  "ring_ok r \<longleftrightarrow> sorted (hashes r) \<and> distinct (hashes r) \<and> map_ok (owners r) \<and>
     set (hashes r) = dom (map_of (owners r)) \<and> 0 < virtualNodes r"

lemma ring_ok_New: "ring_ok (ring_New vn)"
  by (simp add: ring_ok_def ring_New_def DefaultVirtualNodes_def)

lemma ring_ok_add_replica: "ring_ok r \<Longrightarrow> ring_ok (add_replica s n i r)"
  by (auto simp: ring_ok_def add_replica_def Let_def insertSorted_sorted insertSorted_set
      insertSorted_distinct domIff)

lemma ring_ok_remove_replica: "ring_ok r \<Longrightarrow> ring_ok (remove_replica s n i r)"
  by (auto simp: ring_ok_def remove_replica_def Let_def removeSorted_eq sorted_filter [of id, simplified]
      domIff)

lemma fold_inv: "(\<And>x s. x \<in> set xs \<Longrightarrow> P s \<Longrightarrow> P (f x s)) \<Longrightarrow> P s \<Longrightarrow> P (fold f xs s)"
  by (induction xs arbitrary: s) auto

lemma vnodes_add_replica [simp]: "virtualNodes (add_replica s n i r) = virtualNodes r"
  by (simp add: add_replica_def Let_def)

lemma vnodes_remove_replica [simp]: "virtualNodes (remove_replica s n i r) = virtualNodes r"
  by (simp add: remove_replica_def Let_def)

lemma vnodes_AddNode [simp]: "virtualNodes (AddNode s n r) = virtualNodes r"
  unfolding AddNode_def by (rule fold_inv) auto

lemma vnodes_RemoveNode [simp]: "virtualNodes (RemoveNode s n r) = virtualNodes r"
  unfolding RemoveNode_def by (rule fold_inv) auto

lemma ring_ok_AddNode: "ring_ok r \<Longrightarrow> ring_ok (AddNode s n r)"
  unfolding AddNode_def by (rule fold_inv) (auto intro: ring_ok_add_replica)

lemma ring_ok_RemoveNode: "ring_ok r \<Longrightarrow> ring_ok (RemoveNode s n r)"
  unfolding RemoveNode_def by (rule fold_inv) (auto intro: ring_ok_remove_replica)

section \<open>What AddNode and RemoveNode do to the owner map\<close>

definition replicas :: "(string \<Rightarrow> u64) \<Rightarrow> string \<Rightarrow> int \<Rightarrow> u64 set" where
  "replicas s n vn = hashReplica s n ` {0 .. vn - 1}"

lemma owners_fold_add:
  "map_of (owners (fold (add_replica s n) is r)) h =
     (case map_of (owners r) h of Some m \<Rightarrow> Some m
      | None \<Rightarrow> if h \<in> hashReplica s n ` set is then Some n else None)"
proof (induction "is" arbitrary: r)
  case (Cons i "is")
  show ?case unfolding fold.simps comp_def Cons.IH
    by (auto simp: add_replica_def Let_def split: option.splits)
qed (simp split: option.splits)

lemma owners_AddNode:
  "map_of (owners (AddNode s n r)) h =
     (case map_of (owners r) h of Some m \<Rightarrow> Some m
      | None \<Rightarrow> if h \<in> replicas s n (virtualNodes r) then Some n else None)"
  unfolding AddNode_def owners_fold_add by (simp add: replicas_def)

lemma owners_fold_remove:
  "map_of (owners (fold (remove_replica s n) is r)) h =
     (if map_of (owners r) h = Some n \<and> h \<in> hashReplica s n ` set is then None
      else map_of (owners r) h)"
proof (induction "is" arbitrary: r)
  case (Cons i "is")
  show ?case unfolding fold.simps comp_def Cons.IH
    by (auto simp: remove_replica_def Let_def split: option.splits)
qed simp

lemma owners_RemoveNode:
  "map_of (owners (RemoveNode s n r)) h =
     (if map_of (owners r) h = Some n \<and> h \<in> replicas s n (virtualNodes r) then None
      else map_of (owners r) h)"
  unfolding RemoveNode_def owners_fold_remove by (simp add: replicas_def)

section \<open>Lookup is the clockwise successor\<close>

text \<open>The abstract ring: the first position at or after the key, or the first of all.\<close>

definition clockwise :: "u64 set \<Rightarrow> u64 \<Rightarrow> u64" where
  "clockwise S h = (if \<exists>p \<in> S. h \<le> p then Min {p \<in> S. h \<le> p} else Min S)"

lemma clockwise_in: "S \<noteq> {} \<Longrightarrow> clockwise S h \<in> S"
  using Min_in [of "{p \<in> S. h \<le> p}"] Min_in [of S] finite [of S] by (auto simp: clockwise_def)

text \<open>Growing the set of positions moves a key only onto a new position.\<close>

lemma clockwise_subset:
  assumes "S \<subseteq> T" "clockwise T h \<in> S"
  shows "clockwise S h = clockwise T h"
proof (cases "\<exists>p \<in> T. h \<le> p")
  case True
  then have ne: "{p \<in> T. h \<le> p} \<noteq> {}" and eq: "clockwise T h = Min {p \<in> T. h \<le> p}"
    by (auto simp: clockwise_def)
  have "h \<le> clockwise T h" "\<And>p. p \<in> T \<Longrightarrow> h \<le> p \<Longrightarrow> clockwise T h \<le> p"
    using Min_in [OF _ ne] unfolding eq by auto
  with assms show ?thesis by (auto simp: clockwise_def [of S] intro!: Min_eqI)
next
  case False
  then have "\<And>p. p \<in> T \<Longrightarrow> clockwise T h \<le> p" by (auto simp: clockwise_def)
  with assms False show ?thesis by (auto simp: clockwise_def [of S] intro!: Min_eqI)
qed

lemma sorted_search_clockwise:
  assumes "sorted hs" "hs \<noteq> []"
  shows "hs ! (let i = sort_search (length hs) (\<lambda>i. h \<le> hs ! i) in if i = length hs then 0 else i) =
    clockwise (set hs) h"
proof -
  define i where "i = sort_search (length hs) (\<lambda>i. h \<le> hs ! i)"
  have le: "i \<le> length hs" and lo: "\<forall>x \<in> set (take i hs). x < h" and hi: "\<forall>x \<in> set (drop i hs). h \<le> x"
    unfolding i_def by (rule sorted_search(1) [OF assms(1)], rule sorted_search(2) [OF assms(1)],
        rule sorted_search(3) [OF assms(1)])
  have split: "set hs = set (take i hs) \<union> set (drop i hs)" by (metis append_take_drop_id set_append)
  show ?thesis
  proof (cases "i = length hs")
    case True
    with lo have "\<not> (\<exists>p \<in> set hs. h \<le> p)" by (auto simp: not_le)
    moreover have "Min (set hs) = hs ! 0"
      using assms by (intro Min_eqI) (auto simp: in_set_conv_nth sorted_iff_nth_mono)
    ultimately show ?thesis using True by (simp add: clockwise_def i_def [symmetric])
  next
    case False
    then have i: "i < length hs" using le by simp
    then have d: "hs ! i \<in> set (drop i hs)" by (metis Cons_nth_drop_Suc list.set_intros(1))
    have "hs ! i \<le> p" if "p \<in> set hs" "h \<le> p" for p
    proof -
      have "p \<in> set (drop i hs)" using that lo split by auto
      then show ?thesis using assms(1) i
        by (metis Cons_nth_drop_Suc order_refl set_ConsD sorted_simps(2) sorted_wrt_drop)
    qed
    moreover have "hs ! i \<in> set hs" "h \<le> hs ! i" using i d hi by auto
    ultimately have "Min {p \<in> set hs. h \<le> p} = hs ! i" by (intro Min_eqI) auto
    with \<open>hs ! i \<in> set hs\<close> \<open>h \<le> hs ! i\<close> False show ?thesis
      by (auto simp: clockwise_def i_def [symmetric])
  qed
qed

lemma Lookup_eq:
  assumes "ring_ok r"
  shows "Lookup s r key =
     (if dom (map_of (owners r)) = {} then ('''', False)
      else (the (map_of (owners r) (clockwise (dom (map_of (owners r))) (hashKey s key))), True))"
proof -
  have dom: "dom (map_of (owners r)) = set (hashes r)" and so: "sorted (hashes r)"
    using assms by (auto simp: ring_ok_def)
  show ?thesis
  proof (cases "hashes r = []")
    case True
    with dom show ?thesis by (simp add: Lookup_def)
  next
    case False
    then have "clockwise (set (hashes r)) (hashKey s key) \<in> dom (map_of (owners r))"
      using dom clockwise_in by simp
    then obtain n where "map_of (owners r) (clockwise (set (hashes r)) (hashKey s key)) = Some n"
      by blast
    with False dom show ?thesis
      using sorted_search_clockwise [OF so False, of "hashKey s key"]
      by (auto simp: Lookup_def Let_def)
  qed
qed

section \<open>Relocation\<close>

text \<open>
  C25. Adding a node relocates keys only to it: after \<open>AddNode\<close>, every key is owned by
  the node that owned it before or by the new node, whatever the hash function does
  (collisions included). No other pair of nodes exchanges a key.
\<close>

theorem AddNode_relocates_only_to_new_node:
  assumes "ring_ok r" and "hashes r \<noteq> []"
  shows "Lookup s (AddNode s n r) key = Lookup s r key \<or> Lookup s (AddNode s n r) key = (n, True)"
proof -
  let ?r = "AddNode s n r" and ?h = "hashKey s key"
  let ?S = "dom (map_of (owners r))" and ?T = "dom (map_of (owners (AddNode s n r)))"
  have ne: "?S \<noteq> {}" using assms by (auto simp: ring_ok_def)
  have sub: "?S \<subseteq> ?T" by (auto simp: owners_AddNode)
  let ?p = "clockwise ?T ?h"
  have "?p \<in> ?T" by (rule clockwise_in) (use ne sub in auto)
  show ?thesis
  proof (cases "?p \<in> ?S")
    case True
    then have "clockwise ?S ?h = ?p" using sub clockwise_subset by blast
    moreover have "map_of (owners ?r) ?p = map_of (owners r) ?p" using True by (auto simp: owners_AddNode)
    ultimately show ?thesis
      using ne sub by (auto simp: Lookup_eq assms(1) ring_ok_AddNode)
  next
    case False
    then have "map_of (owners ?r) ?p = Some n"
      using \<open>?p \<in> ?T\<close> by (auto simp: owners_AddNode domIff split: option.splits if_splits)
    then show ?thesis
      using ne sub by (auto simp: Lookup_eq ring_ok_AddNode [OF assms(1)])
  qed
qed

text \<open>
  Removing a node leaves every other node's keys alone: a key that the removed node
  did not own keeps its owner.
\<close>

theorem RemoveNode_keeps_other_owners:
  assumes "ring_ok r" and "fst (Lookup s r key) \<noteq> n"
  shows "Lookup s (RemoveNode s n r) key = Lookup s r key"
proof -
  let ?r = "RemoveNode s n r" and ?h = "hashKey s key"
  let ?S = "dom (map_of (owners (RemoveNode s n r)))" and ?T = "dom (map_of (owners r))"
  have sub: "?S \<subseteq> ?T" by (auto simp: owners_RemoveNode split: if_splits)
  show ?thesis
  proof (cases "?T = {}")
    case True
    with sub have "?S = {}" by blast
    with True show ?thesis by (simp add: Lookup_eq assms(1) ring_ok_RemoveNode)
  next
    case False
    let ?p = "clockwise ?T ?h"
    obtain m where m: "map_of (owners r) ?p = Some m" using clockwise_in [OF False] by blast
    then have "m \<noteq> n" using assms False by (simp add: Lookup_eq)
    then have m': "map_of (owners ?r) ?p = Some m" using m by (simp add: owners_RemoveNode)
    then have "clockwise ?S ?h = ?p" using sub clockwise_subset by (meson domI)
    with m m' False show ?thesis by (auto simp: Lookup_eq assms(1) ring_ok_RemoveNode)
  qed
qed

section \<open>Only the membership matters\<close>

text \<open>
  When no two virtual positions collide, the owner map after any sequence of joins is the
  set of (replica, node) pairs of the joined nodes, so the order of the joins is
  forgotten.
\<close>

definition collision_free :: "(string \<Rightarrow> u64) \<Rightarrow> int \<Rightarrow> string set \<Rightarrow> bool" where
  "collision_free s vn N \<longleftrightarrow>
     (\<forall>n \<in> N. \<forall>m \<in> N. n \<noteq> m \<longrightarrow> replicas s n vn \<inter> replicas s m vn = {})"

definition ring_of :: "(string \<Rightarrow> u64) \<Rightarrow> int \<Rightarrow> string list \<Rightarrow> ring" where
  "ring_of s vn ns = fold (AddNode s) ns (ring_New vn)"

lemma ring_of_ok: "ring_ok (ring_of s vn ns)"
  unfolding ring_of_def by (rule fold_inv) (auto intro: ring_ok_AddNode ring_ok_New)

lemma vnodes_ring_of: "virtualNodes (ring_of s vn ns) = (if vn \<le> 0 then 150 else vn)"
  unfolding ring_of_def by (rule fold_inv) (auto simp: ring_New_def DefaultVirtualNodes_def)

lemma owners_ring_of:
  assumes "collision_free s v (set ns)" "v = (if vn \<le> 0 then 150 else vn)"
  shows "map_of (owners (ring_of s vn ns)) h = Some n \<longleftrightarrow> n \<in> set ns \<and> h \<in> replicas s n v"
  using assms
proof (induction ns arbitrary: n rule: rev_induct)
  case Nil
  show ?case by (simp add: ring_of_def ring_New_def)
next
  case (snoc m ns)
  have cf: "collision_free s v (set ns)" using snoc.prems(1) unfolding collision_free_def by simp
  note IH = snoc.IH [OF cf snoc.prems(2)]
  have step: "ring_of s vn (ns @ [m]) = AddNode s m (ring_of s vn ns)" by (simp add: ring_of_def)
  have uniq: "\<And>k. k \<in> set ns \<Longrightarrow> h \<in> replicas s k v \<Longrightarrow> h \<in> replicas s m v \<Longrightarrow> k = m"
    using snoc.prems(1) unfolding collision_free_def by auto
  have vn: "virtualNodes (ring_of s vn ns) = v" by (simp add: vnodes_ring_of snoc.prems(2))
  show ?case
  proof (cases "map_of (owners (ring_of s vn ns)) h")
    case None
    then have "\<not> (n \<in> set ns \<and> h \<in> replicas s n v)" for n using IH [of n] by simp
    with None show ?thesis by (auto simp: step owners_AddNode vn)
  next
    case (Some k)
    then have k: "k \<in> set ns" "h \<in> replicas s k v" using IH [of k] by simp_all
    have "map_of (owners (ring_of s vn (ns @ [m]))) h = Some k" using Some by (simp add: step owners_AddNode)
    moreover have "k = n \<longleftrightarrow> n \<in> set ns \<and> h \<in> replicas s n v" using IH [of n] Some by simp
    ultimately show ?thesis using k uniq by auto
  qed
qed

lemma Lookup_cong:
  assumes "ring_ok r" "ring_ok r'" "map_of (owners r) = map_of (owners r')"
  shows "Lookup s r key = Lookup s r' key"
  by (simp add: Lookup_eq assms)

text \<open>
  Nodes that have seen the same members join, in whatever order and however often,
  agree on the owner of every key, provided no two virtual positions collide.
\<close>

theorem owner_independent_of_join_order:
  assumes "set ns = set ms" and "collision_free s (if vn \<le> 0 then 150 else vn) (set ns)"
  shows "Lookup s (ring_of s vn ns) key = Lookup s (ring_of s vn ms) key"
proof (rule Lookup_cong [OF ring_of_ok ring_of_ok], rule ext)
  fix h
  have "map_of (owners (ring_of s vn ns)) h = Some n \<longleftrightarrow> map_of (owners (ring_of s vn ms)) h = Some n" for n
    by (simp only: owners_ring_of [OF assms(2) refl]
        owners_ring_of [OF assms(2) [unfolded assms(1)] refl] assms(1))
  then show "map_of (owners (ring_of s vn ns)) h = map_of (owners (ring_of s vn ms)) h"
    by (rule option_eqI)
qed

section \<open>Joining and leaving cancel\<close>

lemma update_new_key: "map_of al k = None \<Longrightarrow> AList.update k v al = al @ [(k, v)]"
  by (induction al) (auto split: if_splits)

lemma filter_owners_fold_add:
  "filter (\<lambda>(h, m). m \<noteq> n) (owners (fold (add_replica s n) is r)) = filter (\<lambda>(h, m). m \<noteq> n) (owners r)"
  by (induction "is" arbitrary: r) (auto simp: add_replica_def Let_def update_new_key)

lemma remove_replica_owners:
  assumes "map_ok (owners r)"
  shows "owners (remove_replica s n i r) = filter (\<lambda>(h, m). \<not> (m = n \<and> h = hashReplica s n i)) (owners r)"
proof -
  let ?h = "hashReplica s n i"
  have del: "AList.delete ?h (owners r) = filter (\<lambda>(h, m). \<not> (m = n \<and> h = ?h)) (owners r)"
    if "map_of (owners r) ?h = Some n \<or> map_of (owners r) ?h = None"
  proof -
    have "(\<not> (m = n \<and> h = ?h)) = (h \<noteq> ?h)" if "(h, m) \<in> set (owners r)" for h m
      using that \<open>map_of (owners r) ?h = Some n \<or> _\<close> assms by (auto simp: map_ok_map_of)
    then show ?thesis unfolding AList.delete_eq by (intro filter_cong) auto
  qed
  have keep: "owners r = filter (\<lambda>(h, m). \<not> (m = n \<and> h = ?h)) (owners r)"
    if "map_of (owners r) ?h \<noteq> Some n"
  proof (rule filter_True [symmetric], clarify)
    assume "(?h, n) \<in> set (owners r)"
    with that assms show False by (simp add: map_ok_map_of)
  qed
  show ?thesis
    using del keep by (auto simp: remove_replica_def Let_def split: option.splits)
qed

lemma map_ok_remove_replica: "map_ok (owners r) \<Longrightarrow> map_ok (owners (remove_replica s n i r))"
  by (auto simp: remove_replica_owners)

lemma owners_fold_remove_filter:
  "map_ok (owners r) \<Longrightarrow> owners (fold (remove_replica s n) is r) =
     filter (\<lambda>(h, m). \<not> (m = n \<and> h \<in> hashReplica s n ` set is)) (owners r)"
proof (induction "is" arbitrary: r)
  case (Cons i "is")
  then show ?case
    by (auto simp: Cons.IH map_ok_remove_replica remove_replica_owners intro!: filter_cong)
qed (simp add: case_prod_unfold)

lemma ring_eqI:
  assumes "ring_ok r" "ring_ok r'" "owners r = owners r'" "virtualNodes r = virtualNodes r'"
  shows "r = r'"
proof -
  have "hashes r = hashes r'"
    using assms by (auto simp: ring_ok_def intro: sorted_distinct_set_unique)
  with assms show ?thesis by (cases r; cases r') simp
qed

text \<open>
  C26. Joining and leaving cancel: when a node that owns no position joins and then
  leaves, the ring is exactly what it was, also when some of the node's positions
  collided with positions taken before.
\<close>

theorem RemoveNode_AddNode:
  assumes "ring_ok r" and "n \<notin> ran (map_of (owners r))"
  shows "RemoveNode s n (AddNode s n r) = r"
proof (rule ring_eqI)
  let ?a = "AddNode s n r"
  have ok: "map_ok (owners ?a)" using ring_ok_AddNode [OF assms(1)] by (simp add: ring_ok_def)
  have "owners (RemoveNode s n ?a) =
      filter (\<lambda>(h, m). \<not> (m = n \<and> h \<in> replicas s n (virtualNodes r))) (owners ?a)"
    unfolding RemoveNode_def owners_fold_remove_filter [OF ok] by (simp add: replicas_def)
  also have "\<dots> = filter (\<lambda>(h, m). m \<noteq> n) (owners ?a)"
  proof (rule filter_cong [OF refl], clarify)
    fix h m assume "(h, m) \<in> set (owners ?a)"
    then have "map_of (owners ?a) h = Some m" using ok by (simp add: map_ok_map_of)
    moreover have "map_of (owners r) h \<noteq> Some n" using assms(2) by (auto simp: ran_def)
    ultimately show "(\<not> (m = n \<and> h \<in> replicas s n (virtualNodes r))) = (m \<noteq> n)"
      by (auto simp: owners_AddNode split: option.splits if_splits)
  qed
  also have "\<dots> = filter (\<lambda>(h, m). m \<noteq> n) (owners r)"
    unfolding AddNode_def by (rule filter_owners_fold_add)
  also have "\<dots> = owners r"
  proof (rule filter_True, clarify)
    fix h assume "(h, n) \<in> set (owners r)"
    then have "map_of (owners r) h = Some n" using assms(1) by (simp add: ring_ok_def map_ok_map_of)
    with assms(2) show False by (auto simp: ran_def)
  qed
  finally show "owners (RemoveNode s n ?a) = owners r" .
qed (simp_all add: assms(1) ring_ok_AddNode ring_ok_RemoveNode)

section \<open>The remaining contract of the ring\<close>

text \<open>
  The ring invariant: whatever nodes join and leave, in whatever order and with
  whatever hash function, the positions stay sorted and free of duplicates, every
  position has exactly one owner, and every owner entry has its position.
\<close>

theorem ring_invariant:
  "ring_ok (fold (\<lambda>ev. case ev of (True, n) \<Rightarrow> AddNode s n | (False, n) \<Rightarrow> RemoveNode s n) evs (ring_New vn))"
  by (rule fold_inv) (auto intro: ring_ok_AddNode ring_ok_RemoveNode ring_ok_New split: bool.splits)

text \<open>
  C30. Lookup: the answer is the owner of the first position at or after the key's hash,
  or of the first position of all when none is; \<open>ok\<close> is false only on an empty ring.
\<close>

theorem Lookup_correct:
  assumes "ring_ok r"
  shows "(snd (Lookup s r key) \<longleftrightarrow> hashes r \<noteq> []) \<and>
    (hashes r \<noteq> [] \<longrightarrow>
      (\<exists>p \<in> set (hashes r). map_of (owners r) p = Some (fst (Lookup s r key)) \<and>
        (if \<exists>q \<in> set (hashes r). hashKey s key \<le> q
         then hashKey s key \<le> p \<and> (\<forall>q \<in> set (hashes r). hashKey s key \<le> q \<longrightarrow> p \<le> q)
         else \<forall>q \<in> set (hashes r). p \<le> q)))"
proof (rule conjI)
  let ?h = "hashKey s key" and ?S = "set (hashes r)"
  have dom: "dom (map_of (owners r)) = ?S" using assms by (simp add: ring_ok_def)
  show "snd (Lookup s r key) \<longleftrightarrow> hashes r \<noteq> []" by (simp add: Lookup_def Let_def)
  show "hashes r \<noteq> [] \<longrightarrow>
      (\<exists>p \<in> ?S. map_of (owners r) p = Some (fst (Lookup s r key)) \<and>
        (if \<exists>q \<in> ?S. ?h \<le> q then ?h \<le> p \<and> (\<forall>q \<in> ?S. ?h \<le> q \<longrightarrow> p \<le> q) else \<forall>q \<in> ?S. p \<le> q))"
  proof
    assume ne: "hashes r \<noteq> []"
    let ?p = "clockwise ?S ?h"
    have p: "?p \<in> ?S" using ne clockwise_in by simp
    then obtain m where m: "map_of (owners r) ?p = Some m" using dom by blast
    then have "fst (Lookup s r key) = m" using ne dom by (simp add: Lookup_eq [OF assms])
    moreover have "if \<exists>q \<in> ?S. ?h \<le> q then ?h \<le> ?p \<and> (\<forall>q \<in> ?S. ?h \<le> q \<longrightarrow> ?p \<le> q) else \<forall>q \<in> ?S. ?p \<le> q"
    proof (cases "\<exists>q \<in> ?S. ?h \<le> q")
      case True
      then have ne: "{q \<in> ?S. ?h \<le> q} \<noteq> {}" and eq: "?p = Min {q \<in> ?S. ?h \<le> q}"
        by (auto simp: clockwise_def)
      with True Min_in [OF _ ne] show ?thesis by auto
    next
      case False
      then show ?thesis by (auto simp: clockwise_def)
    qed
    ultimately show "\<exists>p \<in> ?S. map_of (owners r) p = Some (fst (Lookup s r key)) \<and>
        (if \<exists>q \<in> ?S. ?h \<le> q then ?h \<le> p \<and> (\<forall>q \<in> ?S. ?h \<le> q \<longrightarrow> p \<le> q) else \<forall>q \<in> ?S. p \<le> q)"
      using p m by blast
  qed
qed

lemma Nodes_fold:
  "set (fold (\<lambda>(h, id) nodes. if id \<in> set nodes then nodes else id # nodes) xs acc) = set acc \<union> snd ` set xs
   \<and> (distinct acc \<longrightarrow> distinct (fold (\<lambda>(h, id) nodes. if id \<in> set nodes then nodes else id # nodes) xs acc))"
  by (induction xs arbitrary: acc) (auto split: prod.splits)

text \<open>\<open>Nodes\<close> lists every owning node once.\<close>

lemma Nodes_correct: "ring_ok r \<Longrightarrow> distinct (Nodes r) \<and> set (Nodes r) = ran (map_of (owners r))"
  using Nodes_fold [of "owners r" "[]"] by (simp add: Nodes_def ring_ok_def map_ok_def ran_distinct)

lemma Lookup_in_Nodes:
  assumes "ring_ok r" "snd (Lookup s r key)"
  shows "fst (Lookup s r key) \<in> set (Nodes r)"
proof -
  have "hashes r \<noteq> []" using assms(2) by (auto simp: Lookup_def)
  then have ne: "dom (map_of (owners r)) \<noteq> {}" using assms(1) by (auto simp: ring_ok_def)
  then obtain m where "map_of (owners r) (clockwise (dom (map_of (owners r))) (hashKey s key)) = Some m"
    using clockwise_in [OF ne] by blast
  with ne show ?thesis using Nodes_correct [OF assms(1)] by (auto simp: Lookup_eq [OF assms(1)] ran_def)
qed

section \<open>Concrete rings\<close>

text \<open>A small hash table as the hash function, to evaluate rings on.\<close>

definition table_hash :: "string \<Rightarrow> u64" where
  "table_hash s =
     (if s = ''n1#0'' then 10 else if s = ''n1#1'' then 30 else if s = ''n2#0'' then 20
      else if s = ''n2#1'' then 40 else if s = ''cell'' then 15 else 35)"

lemma table_hash_replicas [simp]:
  "hashReplica table_hash ''n1'' 0 = 10" "hashReplica table_hash ''n1'' 1 = 30"
  "hashReplica table_hash ''n2'' 0 = 20" "hashReplica table_hash ''n2'' 1 = 40"
  by (simp_all add: hashReplica_def table_hash_def itoa_def nat_str.simps)

lemma hashKey_table [simp]: "hashKey table_hash ''cell'' = 15"
  by (simp add: hashKey_def table_hash_def)

lemmas ring_eval = ring_of_def ring_New_def AddNode_def add_replica_def Let_def insertSorted_def
  sort_search_def search_from.simps slice_copy_within_def RemoveNode_def remove_replica_def
  removeSorted_def upto.simps

lemma ring_n1: "ring_of table_hash 2 [''n1''] =
    \<lparr>virtualNodes = 2, hashes = [10, 30], owners = [(10, ''n1''), (30, ''n1'')]\<rparr>"
  by (simp add: ring_eval)

lemma insertSorted_table:
  "insertSorted [10, 30] 20 = [10, 20, 30]" "insertSorted [10, 20, 30] 40 = [10, 20, 30, 40]"
  unfolding insertSorted_split by (simp_all add: sort_search_def search_from.simps)

lemma ring_n1_n2: "ring_of table_hash 2 [''n1'', ''n2''] =
    \<lparr>virtualNodes = 2, hashes = [10, 20, 30, 40],
     owners = [(10, ''n1''), (30, ''n1''), (20, ''n2''), (40, ''n2'')]\<rparr>"
proof -
  have "ring_of table_hash 2 [''n1'', ''n2''] = AddNode table_hash ''n2'' (ring_of table_hash 2 [''n1''])"
    by (simp add: ring_of_def)
  then show ?thesis
    by (simp add: ring_n1 AddNode_def add_replica_def upto.simps insertSorted_table)
qed

theorem AddNode_relocates_only_to_new_node_witness:
  "hashes (ring_of table_hash 2 [''n1'']) \<noteq> [] \<and>
   (Lookup table_hash (AddNode table_hash ''n2'' (ring_of table_hash 2 [''n1''])) ''cell''
      = Lookup table_hash (ring_of table_hash 2 [''n1'']) ''cell'' \<or>
    Lookup table_hash (AddNode table_hash ''n2'' (ring_of table_hash 2 [''n1''])) ''cell'' = (''n2'', True))"
proof -
  have "hashes (ring_of table_hash 2 [''n1'']) \<noteq> []" by (simp add: ring_n1)
  with AddNode_relocates_only_to_new_node [OF ring_of_ok this] show ?thesis by blast
qed

theorem RemoveNode_keeps_other_owners_witness:
  "Lookup table_hash (RemoveNode table_hash ''n1'' (ring_of table_hash 2 [''n1'', ''n2''])) ''cell''
     = Lookup table_hash (ring_of table_hash 2 [''n1'', ''n2'']) ''cell''"
proof -
  have "fst (Lookup table_hash (ring_of table_hash 2 [''n1'', ''n2'']) ''cell'') \<noteq> ''n1''"
    unfolding ring_n1_n2 by (simp add: Lookup_def sort_search_def search_from.simps Let_def)
  with RemoveNode_keeps_other_owners [OF ring_of_ok this] show ?thesis by blast
qed

lemma table_hash_collision_free: "collision_free table_hash 2 {''n1'', ''n2''}"
proof -
  have "{0 .. 2 - 1 :: int} = {0, 1}" by auto
  then show ?thesis by (auto simp: collision_free_def replicas_def)
qed

theorem owner_independent_of_join_order_witness:
  "Lookup table_hash (ring_of table_hash 2 [''n1'', ''n2'']) ''cell''
     = Lookup table_hash (ring_of table_hash 2 [''n2'', ''n1'', ''n2'']) ''cell''"
proof -
  have c: "collision_free table_hash (if (2::int) \<le> 0 then 150 else 2) (set [''n1'', ''n2''])"
    using table_hash_collision_free by simp
  have e: "set [''n1'', ''n2''] = set [''n2'', ''n1'', ''n2'']" by auto
  from owner_independent_of_join_order [OF e c] show ?thesis .
qed

theorem RemoveNode_AddNode_witness:
  "''n2'' \<notin> ran (map_of (owners (ring_of table_hash 2 [''n1'']))) \<and>
   RemoveNode table_hash ''n2'' (AddNode table_hash ''n2'' (ring_of table_hash 2 [''n1'']))
     = ring_of table_hash 2 [''n1'']"
proof -
  have "''n2'' \<notin> ran (map_of (owners (ring_of table_hash 2 [''n1''])))"
    by (auto simp: ring_n1 ran_def split: if_splits)
  with RemoveNode_AddNode [OF ring_of_ok this] show ?thesis by blast
qed

theorem Lookup_correct_witness:
  "snd (Lookup table_hash (ring_of table_hash 2 [''n1'', ''n2'']) ''cell'')"
  using Lookup_correct [OF ring_of_ok, of table_hash table_hash 2 "[''n1'', ''n2'']" "''cell''"]
  by (simp add: ring_n1_n2)

end
