(* ===== verification/Surge.thy ===== *)
theory Surge
  imports GoFloat
begin

text \<open>
  \<open>internal/surge\<close>: the sliding-window supply/demand ratio per H3 cell
  (\<open>aggregator.go\<close>) and the step function from ratios to multipliers
  (\<open>multiplier.go\<close>). The mutex makes every operation atomic, so an operation is a
  function on the aggregator.
\<close>

section \<open>The multiplier\<close>

record step =
  step_Ratio :: f64
  step_Multiplier :: f64

record multiplier_config =
  cfg_Steps :: "step list"
  cfg_Min :: f64
  cfg_Max :: f64

text \<open>A literal denotes the nearest \<open>float64\<close>.\<close>

definition mk_step :: "rat \<Rightarrow> rat \<Rightarrow> step" where
  "mk_step r m = \<lparr>step_Ratio = rnd r, step_Multiplier = rnd m\<rparr>"

definition DefaultMultiplierConfig :: multiplier_config where
  "DefaultMultiplierConfig =
     \<lparr>cfg_Steps = [mk_step 0 1, mk_step (3 / 2) (6 / 5), mk_step 3 (7 / 4), mk_step 5 (5 / 2), mk_step 8 3],
      cfg_Min = rnd 1, cfg_Max = rnd 3\<rparr>"

definition config_Multiplier :: "multiplier_config \<Rightarrow> f64 \<Rightarrow> f64" where
  "config_Multiplier c ratio =
     (let m = fold (\<lambda>s m. if f_le (step_Ratio s) ratio then step_Multiplier s else m) (cfg_Steps c) (cfg_Min c);
          m = (if f_lt m (cfg_Min c) then cfg_Min c else m);
          m = (if f_lt (cfg_Max c) m then cfg_Max c else m)
      in m)"

section \<open>The aggregator\<close>

definition DefaultWindow :: int where "DefaultWindow = 5 * minute"

record cell_state =
  openTrips :: "(string \<times> int) list"
  availableDrivers :: "(string \<times> int) list"

record aggregator =
  window :: int
  cells :: "(cell \<times> cell_state) list"

definition NewAggregator :: "int \<Rightarrow> aggregator" where
  "NewAggregator w = \<lparr>window = (if w \<le> 0 then DefaultWindow else w), cells = []\<rparr>"

definition cellFor :: "cell \<Rightarrow> aggregator \<Rightarrow> cell_state \<times> aggregator" where
  "cellFor cell a =
     (case map_of (cells a) cell of
        Some c \<Rightarrow> (c, a)
      | None \<Rightarrow> let c = \<lparr>openTrips = [], availableDrivers = []\<rparr>
                in (c, a\<lparr>cells := AList.update cell c (cells a)\<rparr>))"

definition RecordTrip :: "cell \<Rightarrow> string \<Rightarrow> string \<Rightarrow> int \<Rightarrow> aggregator \<Rightarrow> aggregator" where
  "RecordTrip cell tripID state ts0 a =
     (let (c, a) = cellFor cell a;
          c = (if state = ''REQUESTED'' \<or> state = ''OFFERED''
               then c\<lparr>openTrips := AList.update tripID ts0 (openTrips c)\<rparr>
               else if state = ''MATCHED'' \<or> state = ''UNFULFILLED''
               then c\<lparr>openTrips := AList.delete tripID (openTrips c)\<rparr>
               else c)
      in a\<lparr>cells := AList.update cell c (cells a)\<rparr>)"

definition RecordDriver :: "cell \<Rightarrow> string \<Rightarrow> string \<Rightarrow> int \<Rightarrow> aggregator \<Rightarrow> aggregator" where
  "RecordDriver cell driverID state ts0 a =
     (let (c, a) = cellFor cell a;
          c = (if state = ''AVAILABLE''
               then c\<lparr>availableDrivers := AList.update driverID ts0 (availableDrivers c)\<rparr>
               else c\<lparr>availableDrivers := AList.delete driverID (availableDrivers c)\<rparr>)
      in a\<lparr>cells := AList.update cell c (cells a)\<rparr>)"

definition countWithinWindow :: "(string \<times> int) list \<Rightarrow> int \<Rightarrow> int \<Rightarrow> int" where
  "countWithinWindow m now win =
     fold (\<lambda>(id, ts) n. if time_sub now ts \<le> win then n + 1 else n) m 0"

definition pruneMap :: "(string \<times> int) list \<Rightarrow> int \<Rightarrow> int \<Rightarrow> (string \<times> int) list" where
  "pruneMap m now win =
     fold (\<lambda>(id, ts) m. if win < time_sub now ts then AList.delete id m else m) m m"

definition Ratio :: "cell \<Rightarrow> int \<Rightarrow> aggregator \<Rightarrow> f64" where
  "Ratio cell now a =
     (case map_of (cells a) cell of
        None \<Rightarrow> Fin 0
      | Some c \<Rightarrow>
          let op = countWithinWindow (openTrips c) now (window a);
              av = countWithinWindow (availableDrivers c) now (window a)
          in if op = 0 then Fin 0
             else if av = 0 then PInf
             else f_div (f_of_int op) (f_of_int av))"

definition agg_Multiplier :: "cell \<Rightarrow> int \<Rightarrow> multiplier_config \<Rightarrow> aggregator \<Rightarrow> f64" where
  "agg_Multiplier cell now cfg a = config_Multiplier cfg (Ratio cell now a)"

definition Cells :: "aggregator \<Rightarrow> cell list" where
  "Cells a = map fst (cells a)"

definition prune_cell :: "int \<Rightarrow> int \<Rightarrow> cell_state \<Rightarrow> cell_state" where
  "prune_cell now win c =
     c\<lparr>openTrips := pruneMap (openTrips c) now win, availableDrivers := pruneMap (availableDrivers c) now win\<rparr>"

definition Prune :: "int \<Rightarrow> aggregator \<Rightarrow> aggregator" where
  "Prune now a =
     a\<lparr>cells := fold (\<lambda>(cell, c) cs.
          let c = prune_cell now (window a) c
          in if openTrips c = [] \<and> availableDrivers c = [] then AList.delete cell cs
             else AList.update cell c cs) (cells a) (cells a)\<rparr>"

section \<open>Counting and pruning\<close>

definition in_window :: "int \<Rightarrow> int \<Rightarrow> int \<Rightarrow> bool" where
  "in_window now win ts \<longleftrightarrow> time_sub now ts \<le> win"

lemma countWithinWindow_eq:
  "countWithinWindow m now win = int (length (filter (\<lambda>(id, ts). in_window now win ts) m))"
proof -
  have "fold (\<lambda>(id, ts) n. if time_sub now ts \<le> win then n + 1 else n) m k =
      k + int (length (filter (\<lambda>(id, ts). in_window now win ts) m))" for k
    by (induction m arbitrary: k) (auto simp: in_window_def)
  then show ?thesis by (simp add: countWithinWindow_def)
qed

lemma countWithinWindow_nonneg [simp]: "0 \<le> countWithinWindow m now win"
  by (simp add: countWithinWindow_eq)

lemma countWithinWindow_le: "countWithinWindow m now win \<le> int (length m)"
  by (simp add: countWithinWindow_eq)

text \<open>Deleting the entries that fail a test while ranging over a map keeps the others.\<close>

lemma fold_delete_filter:
  fixes xs m :: "('k \<times> 'v) list"
  assumes "distinct (map fst xs)" "map_ok m"
  shows "fold (\<lambda>(k, v) m. if p v then AList.delete k m else m) xs m =
    filter (\<lambda>(k, v). \<not> (\<exists>v'. (k, v') \<in> set xs \<and> p v')) m"
  using assms
proof (induction xs arbitrary: m)
  case (Cons x xs)
  obtain k v where x: "x = (k, v)" by (cases x)
  have IH: "fold (\<lambda>(k, v) m. if p v then AList.delete k m else m) xs m' =
      filter (\<lambda>(k, v). \<not> (\<exists>v'. (k, v') \<in> set xs \<and> p v')) m'" if "map_ok m'" for m' :: "('k \<times> 'v) list"
    using Cons.prems(1) that by (intro Cons.IH) (auto simp: x)
  have "\<And>v'. (k, v') \<notin> set xs" using Cons.prems(1) x by force
  then show ?case
    using Cons.prems(2) IH [of m] IH [of "AList.delete k m"]
    by (auto simp: x AList.delete_eq intro!: filter_cong)
qed simp

lemma pruneMap_eq:
  assumes "map_ok m" shows "pruneMap m now win = filter (\<lambda>(id, ts). in_window now win ts) m"
proof -
  have "pruneMap m now win =
      filter (\<lambda>(k, v). \<not> (\<exists>v'. (k, v') \<in> set m \<and> win < time_sub now v')) m"
    unfolding pruneMap_def using assms by (intro fold_delete_filter) (auto simp: map_ok_def)
  also have "\<dots> = filter (\<lambda>(id, ts). in_window now win ts) m"
    using assms by (intro filter_cong) (auto simp: in_window_def map_ok_map_of)
  finally show ?thesis .
qed

section \<open>Well-formed aggregators\<close>

definition cell_ok :: "cell_state \<Rightarrow> bool" where
  "cell_ok c \<longleftrightarrow> map_ok (openTrips c) \<and> map_ok (availableDrivers c)"

definition agg_ok :: "aggregator \<Rightarrow> bool" where
  "agg_ok a \<longleftrightarrow> 0 < window a \<and> map_ok (cells a) \<and> (\<forall>k c. map_of (cells a) k = Some c \<longrightarrow> cell_ok c)"

lemma agg_ok_New: "agg_ok (NewAggregator w)"
  by (simp add: agg_ok_def NewAggregator_def DefaultWindow_def time_units)

lemma cell_ok_empty [simp]: "cell_ok \<lparr>openTrips = [], availableDrivers = []\<rparr>"
  by (simp add: cell_ok_def)

definition cell_of :: "aggregator \<Rightarrow> cell \<Rightarrow> cell_state" where
  "cell_of a k = (case map_of (cells a) k of Some c \<Rightarrow> c | None \<Rightarrow> \<lparr>openTrips = [], availableDrivers = []\<rparr>)"

lemma cell_of_ok: "agg_ok a \<Longrightarrow> cell_ok (cell_of a k)"
  by (auto simp: agg_ok_def cell_of_def split: option.splits)

lemma cells_cellFor: "map_of (cells (snd (cellFor k a))) = (map_of (cells a))(k \<mapsto> cell_of a k)"
  by (auto simp: cellFor_def cell_of_def Let_def split: option.splits)

lemma fst_cellFor: "fst (cellFor k a) = cell_of a k"
  by (auto simp: cellFor_def cell_of_def Let_def split: option.splits)

lemma cellFor_frame: "window (snd (cellFor k a)) = window a" "map_ok (cells a) \<Longrightarrow> map_ok (cells (snd (cellFor k a)))"
  by (auto simp: cellFor_def Let_def split: option.splits)

text \<open>Both recorders replace one cell by an updated one.\<close>

definition trip_update :: "string \<Rightarrow> string \<Rightarrow> int \<Rightarrow> cell_state \<Rightarrow> cell_state" where
  "trip_update tripID state ts0 c =
     (if state = ''REQUESTED'' \<or> state = ''OFFERED''
      then c\<lparr>openTrips := AList.update tripID ts0 (openTrips c)\<rparr>
      else if state = ''MATCHED'' \<or> state = ''UNFULFILLED''
      then c\<lparr>openTrips := AList.delete tripID (openTrips c)\<rparr>
      else c)"

definition driver_update :: "string \<Rightarrow> string \<Rightarrow> int \<Rightarrow> cell_state \<Rightarrow> cell_state" where
  "driver_update driverID state ts0 c =
     (if state = ''AVAILABLE''
      then c\<lparr>availableDrivers := AList.update driverID ts0 (availableDrivers c)\<rparr>
      else c\<lparr>availableDrivers := AList.delete driverID (availableDrivers c)\<rparr>)"

lemma RecordTrip_alt:
  "RecordTrip k t st ts0 a =
     (snd (cellFor k a))\<lparr>cells := AList.update k (trip_update t st ts0 (cell_of a k)) (cells (snd (cellFor k a)))\<rparr>"
  unfolding RecordTrip_def trip_update_def fst_cellFor [symmetric] by (simp add: Let_def split_beta)

lemma RecordDriver_alt:
  "RecordDriver k d st ts0 a =
     (snd (cellFor k a))\<lparr>cells := AList.update k (driver_update d st ts0 (cell_of a k)) (cells (snd (cellFor k a)))\<rparr>"
  unfolding RecordDriver_def driver_update_def fst_cellFor [symmetric] by (simp add: Let_def split_beta)

lemma cells_RecordTrip: "map_of (cells (RecordTrip k t st ts0 a)) = (map_of (cells a))(k \<mapsto> trip_update t st ts0 (cell_of a k))"
  by (simp add: RecordTrip_alt cells_cellFor)

lemma cells_RecordDriver: "map_of (cells (RecordDriver k d st ts0 a)) = (map_of (cells a))(k \<mapsto> driver_update d st ts0 (cell_of a k))"
  by (simp add: RecordDriver_alt cells_cellFor)

lemma cell_ok_trip_update: "cell_ok c \<Longrightarrow> cell_ok (trip_update t st ts0 c)"
  by (auto simp: cell_ok_def trip_update_def)

lemma cell_ok_driver_update: "cell_ok c \<Longrightarrow> cell_ok (driver_update d st ts0 c)"
  by (auto simp: cell_ok_def driver_update_def)

lemma window_Record [simp]:
  "window (RecordTrip k t st ts0 a) = window a" "window (RecordDriver k d st ts0 a) = window a"
  by (simp_all add: RecordTrip_alt RecordDriver_alt cellFor_frame)

lemma map_ok_Record:
  assumes "map_ok (cells a)"
  shows "map_ok (cells (RecordTrip k t st ts0 a))" "map_ok (cells (RecordDriver k d st ts0 a))"
  by (simp_all add: RecordTrip_alt RecordDriver_alt cellFor_frame assms)

lemma agg_ok_upd:
  assumes "agg_ok a" "window b = window a" "map_ok (cells b)" "cell_ok c"
    "map_of (cells b) = (map_of (cells a))(k \<mapsto> c)"
  shows "agg_ok b"
  using assms by (simp add: agg_ok_def)

lemma agg_ok_cells: "agg_ok a \<Longrightarrow> map_ok (cells a)"
  by (simp add: agg_ok_def)

lemma agg_ok_RecordTrip: "agg_ok a \<Longrightarrow> agg_ok (RecordTrip k t st ts0 a)"
  by (rule agg_ok_upd [OF _ _ _ _ cells_RecordTrip])
    (auto intro: map_ok_Record cell_ok_trip_update cell_of_ok agg_ok_cells)

lemma agg_ok_RecordDriver: "agg_ok a \<Longrightarrow> agg_ok (RecordDriver k d st ts0 a)"
  by (rule agg_ok_upd [OF _ _ _ _ cells_RecordDriver])
    (auto intro: map_ok_Record cell_ok_driver_update cell_of_ok agg_ok_cells)

section \<open>Pruning\<close>

lemma cell_ok_prune: "cell_ok c \<Longrightarrow> cell_ok (prune_cell now win c)"
  by (auto simp: cell_ok_def prune_cell_def pruneMap_eq)

definition prune_result :: "int \<Rightarrow> int \<Rightarrow> cell_state \<Rightarrow> cell_state option" where
  "prune_result now win c =
     (let c = prune_cell now win c in if openTrips c = [] \<and> availableDrivers c = [] then None else Some c)"

lemma fold_prune:
  assumes "distinct (map fst xs)"
  shows "map_of (fold (\<lambda>(cell, c) cs.
          let c = prune_cell now win c
          in if openTrips c = [] \<and> availableDrivers c = [] then AList.delete cell cs
             else AList.update cell c cs) xs m) k =
    (case map_of xs k of Some c \<Rightarrow> prune_result now win c | None \<Rightarrow> map_of m k)"
  using assms
  by (induction xs arbitrary: m)
    (auto simp: prune_result_def Let_def split: option.splits dest: map_of_SomeD intro: rev_image_eqI)

lemma cells_Prune:
  assumes "agg_ok a"
  shows "map_of (cells (Prune now a)) k =
    (case map_of (cells a) k of Some c \<Rightarrow> prune_result now (window a) c | None \<Rightarrow> None)"
  using assms fold_prune [of "cells a" now "window a" "cells a" k]
  by (simp add: Prune_def agg_ok_def map_ok_def split: option.splits)

lemma map_ok_fold_prune:
  "map_ok m \<Longrightarrow> map_ok (fold (\<lambda>(cell, c) cs.
          let c = prune_cell now win c
          in if openTrips c = [] \<and> availableDrivers c = [] then AList.delete cell cs
             else AList.update cell c cs) xs m)"
  by (induction xs arbitrary: m) (auto simp: Let_def)

lemma agg_ok_Prune: "agg_ok a \<Longrightarrow> agg_ok (Prune now a)"
proof -
  assume a: "agg_ok a"
  have "map_ok (cells (Prune now a))" using a by (auto simp: Prune_def agg_ok_def intro: map_ok_fold_prune)
  moreover have "cell_ok c" if "map_of (cells (Prune now a)) k = Some c" for k c
    using that a cell_ok_prune
    by (auto simp: cells_Prune [OF a] prune_result_def Let_def agg_ok_def split: option.splits if_splits)
  moreover have "window (Prune now a) = window a" by (simp add: Prune_def)
  ultimately show ?thesis using a by (simp add: agg_ok_def)
qed

lemma in_window_antimono: "now \<le> now' \<Longrightarrow> in_window now' win t0 \<Longrightarrow> in_window now win t0"
  unfolding in_window_def using time_sub_mono order_trans by blast

lemma count_pruneMap:
  assumes "map_ok m" "now \<le> now'"
  shows "countWithinWindow (pruneMap m now win) now' win = countWithinWindow m now' win"
  unfolding countWithinWindow_eq pruneMap_eq [OF assms(1)] filter_filter
  using in_window_antimono [OF assms(2)]
  by (auto intro!: arg_cong [where f = length] filter_cong)

text \<open>
  Pruning only forgets what no longer counts: at the time of the sweep or later,
  every cell has the ratio it would have had without the sweep.
\<close>

theorem Prune_keeps_ratios:
  assumes "agg_ok a" and "now \<le> now'"
  shows "Ratio k now' (Prune now a) = Ratio k now' a"
proof (cases "map_of (cells a) k")
  case None
  then show ?thesis by (simp add: Ratio_def cells_Prune [OF assms(1)])
next
  case (Some c)
  let ?c = "prune_cell now (window a) c"
  have ok: "map_ok (openTrips c)" "map_ok (availableDrivers c)"
    using assms(1) Some by (auto simp: agg_ok_def cell_ok_def)
  have cnt: "countWithinWindow (openTrips ?c) now' (window a) = countWithinWindow (openTrips c) now' (window a)"
    "countWithinWindow (availableDrivers ?c) now' (window a) = countWithinWindow (availableDrivers c) now' (window a)"
    using ok assms(2) by (simp_all add: prune_cell_def count_pruneMap)
  have w: "window (Prune now a) = window a" by (simp add: Prune_def)
  show ?thesis
  proof (cases "prune_result now (window a) c")
    case None
    then have "openTrips ?c = []" by (simp add: prune_result_def Let_def split: if_splits)
    then have "countWithinWindow (openTrips c) now' (window a) = 0"
      using cnt(1) by (simp add: countWithinWindow_eq)
    with Some None show ?thesis by (simp add: Ratio_def cells_Prune [OF assms(1)])
  next
    case (Some c')
    then have "c' = ?c" by (simp add: prune_result_def Let_def split: if_splits)
    with Some \<open>map_of (cells a) k = Some c\<close> cnt w show ?thesis
      by (simp add: Ratio_def cells_Prune [OF assms(1)])
  qed
qed

text \<open>After a sweep nothing outside the window is left.\<close>

lemma Prune_evicts:
  assumes "agg_ok a" "map_of (cells (Prune now a)) k = Some c" "(i, t0) \<in> set (openTrips c) \<union> set (availableDrivers c)"
  shows "in_window now (window a) t0"
proof -
  obtain c0 where c0: "map_of (cells a) k = Some c0" "c = prune_cell now (window a) c0"
    using assms(2) by (auto simp: cells_Prune [OF assms(1)] prune_result_def Let_def split: option.splits if_splits)
  then have "map_ok (openTrips c0)" "map_ok (availableDrivers c0)"
    using assms(1) by (auto simp: agg_ok_def cell_ok_def)
  with assms(3) c0(2) show ?thesis by (auto simp: prune_cell_def pruneMap_eq)
qed

section \<open>Ratios follow supply and demand\<close>

lemma count_update_ge:
  assumes "in_window now win t0"
  shows "countWithinWindow m now win \<le> countWithinWindow (AList.update i t0 m) now win"
  using assms unfolding countWithinWindow_eq by (induction m) auto

lemma count_update_pos:
  assumes "in_window now win t0"
  shows "0 < countWithinWindow (AList.update i t0 m) now win"
  using assms unfolding countWithinWindow_eq by (induction m) auto

definition ratio_val :: "int \<Rightarrow> int \<Rightarrow> f64" where
  "ratio_val op av = (if op = 0 then Fin 0 else if av = 0 then PInf else f_div (f_of_int op) (f_of_int av))"

lemma Ratio_counts:
  "Ratio k now a = ratio_val (countWithinWindow (openTrips (cell_of a k)) now (window a))
     (countWithinWindow (availableDrivers (cell_of a k)) now (window a))"
  by (auto simp: Ratio_def ratio_val_def cell_of_def Let_def countWithinWindow_eq split: option.splits)

text \<open>Counts are Go ints; the maps of a process stay far below that bound.\<close>

definition cell_sized :: "cell_state \<Rightarrow> bool" where
  "cell_sized c \<longleftrightarrow> in_i64 (int (length (openTrips c))) \<and> in_i64 (int (length (availableDrivers c)))"

lemma count_in_i64: "in_i64 (int (length m)) \<Longrightarrow> in_i64 (countWithinWindow m now win)"
  using countWithinWindow_le [of m now win] countWithinWindow_nonneg [of m now win]
  unfolding in_i64_def by linarith

lemma ratio_val_div:
  assumes "0 < op" "0 < av" "in_i64 op" "in_i64 av"
  obtains x where "f_div (f_of_int op) (f_of_int av) = rnd x" "0 \<le> x"
proof -
  obtain x where x: "f_of_int op = Fin x" "1 \<le> x" using assms f_of_int_pos by blast
  obtain y where y: "f_of_int av = Fin y" "1 \<le> y" using assms f_of_int_pos by blast
  have "f_div (f_of_int op) (f_of_int av) = rnd (x / y)" using x y by auto
  moreover have "0 \<le> x / y" using x y by simp
  ultimately show thesis using that by blast
qed

lemma ratio_mono:
  assumes "0 \<le> op" "op \<le> op'" "0 \<le> av'" "av' \<le> av" "in_i64 op'" "in_i64 av"
  shows "f_le (ratio_val op av) (ratio_val op' av')"
proof -
  have i: "in_i64 op" "in_i64 av'" using assms by (auto simp: in_i64_def)
  consider "op' = 0" "op = 0" | "av' = 0" "0 < op'" "op = 0 \<or> av = 0" | "av' = 0" "0 < op" "0 < av"
    | "0 < op'" "op = 0" "0 < av'" | "0 < op" "0 < av'"
    using assms by linarith
  then show ?thesis
  proof cases
    case 3
    then obtain x where "f_div (f_of_int op) (f_of_int av) = rnd x"
      using ratio_val_div [of op av] i assms by blast
    with 3 assms show ?thesis by (simp add: ratio_val_def)
  next
    case 4
    then obtain x where "f_div (f_of_int op') (f_of_int av') = rnd x" "0 \<le> x"
      using ratio_val_div [of op' av'] i assms by blast
    with 4 show ?thesis by (simp add: ratio_val_def rnd_nonneg)
  next
    case 5
    then show ?thesis using assms f_div_mono [of op op' av' av] by (simp add: ratio_val_def)
  qed (auto simp: ratio_val_def)
qed

text \<open>
  Pressure rises with demand and falls with supply: an open-trip event inside the
  window never lowers the cell's ratio, and an \<open>AVAILABLE\<close> ping inside the window
  never raises it. Other cells are untouched by either.
\<close>

theorem Ratio_follows_events:
  assumes "cell_sized (cell_of (RecordTrip k t ''OFFERED'' ts0 a) k)"
    and "cell_sized (cell_of (RecordDriver k d ''AVAILABLE'' ts0 a) k)"
    and "in_window now (window a) ts0"
  shows "f_le (Ratio k now a) (Ratio k now (RecordTrip k t ''OFFERED'' ts0 a)) \<and>
    f_le (Ratio k now (RecordDriver k d ''AVAILABLE'' ts0 a)) (Ratio k now a) \<and>
    (\<forall>k'. k' \<noteq> k \<longrightarrow> Ratio k' now (RecordTrip k t st ts0 a) = Ratio k' now a \<and>
       Ratio k' now (RecordDriver k d st' ts0 a) = Ratio k' now a)"
proof -
  let ?c = "cell_of a k" and ?T = "AList.update t ts0 (openTrips (cell_of a k))"
    and ?D = "AList.update d ts0 (availableDrivers (cell_of a k))"
  have T: "cell_of (RecordTrip k t ''OFFERED'' ts0 a) k = ?c\<lparr>openTrips := ?T\<rparr>"
    by (simp add: cell_of_def [of "RecordTrip _ _ _ _ _"] cells_RecordTrip trip_update_def)
  have D: "cell_of (RecordDriver k d ''AVAILABLE'' ts0 a) k = ?c\<lparr>availableDrivers := ?D\<rparr>"
    by (simp add: cell_of_def [of "RecordDriver _ _ _ _ _"] cells_RecordDriver driver_update_def)
  have sz: "in_i64 (int (length ?T))" "in_i64 (int (length (availableDrivers ?c)))"
    "in_i64 (int (length (openTrips ?c)))" "in_i64 (int (length ?D))"
    using assms(1,2) by (simp_all add: cell_sized_def T D)
  have "f_le (Ratio k now a) (Ratio k now (RecordTrip k t ''OFFERED'' ts0 a))"
    unfolding Ratio_counts T using assms(3) sz
    by (simp add: ratio_mono count_update_ge count_in_i64)
  moreover have "f_le (Ratio k now (RecordDriver k d ''AVAILABLE'' ts0 a)) (Ratio k now a)"
    unfolding Ratio_counts D using assms(3) sz
    by (simp add: ratio_mono count_update_ge count_in_i64)
  moreover have "Ratio k' now (RecordTrip k t st ts0 a) = Ratio k' now a \<and>
      Ratio k' now (RecordDriver k d st' ts0 a) = Ratio k' now a" if "k' \<noteq> k" for k'
    using that by (simp add: Ratio_counts cell_of_def cells_RecordTrip cells_RecordDriver)
  ultimately show ?thesis by blast
qed

section \<open>The step function\<close>

definition steps_ok :: "multiplier_config \<Rightarrow> bool" where
  "steps_ok c \<longleftrightarrow>
     sorted_wrt (\<lambda>s t. f_le (step_Ratio s) (step_Ratio t) \<and> f_le (step_Multiplier s) (step_Multiplier t)) (cfg_Steps c) \<and>
     (\<forall>s \<in> set (cfg_Steps c). f_le (cfg_Min c) (step_Multiplier s)) \<and> f_le (cfg_Min c) (cfg_Max c)"

definition step_fun :: "f64 \<Rightarrow> step list \<Rightarrow> f64 \<Rightarrow> f64" where
  "step_fun m0 ss r = fold (\<lambda>s m. if f_le (step_Ratio s) r then step_Multiplier s else m) ss m0"

lemma step_fun_snoc [simp]:
  "step_fun m0 (ss @ [s]) r = (if f_le (step_Ratio s) r then step_Multiplier s else step_fun m0 ss r)"
  by (simp add: step_fun_def)

lemma step_fun_Nil [simp]: "step_fun m0 [] r = m0"
  by (simp add: step_fun_def)

lemma step_fun_in: "step_fun m0 ss r \<in> insert m0 (step_Multiplier ` set ss)"
  by (induction ss rule: rev_induct) auto

lemma step_fun_mono:
  assumes "sorted_wrt (\<lambda>s t. f_le (step_Ratio s) (step_Ratio t) \<and> f_le (step_Multiplier s) (step_Multiplier t)) ss"
    "\<forall>s \<in> set ss. f_le m0 (step_Multiplier s)" "m0 \<noteq> NaN" "f_le r r'"
  shows "f_le (step_fun m0 ss r) (step_fun m0 ss r')"
  using assms(1,2)
proof (induction ss rule: rev_induct)
  case Nil
  then show ?case using assms(3) by simp
next
  case (snoc s ss)
  have IH: "f_le (step_fun m0 ss r) (step_fun m0 ss r')" using snoc by (simp add: sorted_wrt_append)
  have top: "f_le (step_fun m0 ss r) (step_Multiplier s)"
    using snoc.prems step_fun_in [of m0 ss r] by (auto simp: sorted_wrt_append)
  have nn: "step_Multiplier s \<noteq> NaN" using snoc.prems(2) f_le_not_NaN by fastforce
  show ?case
  proof (cases "f_le (step_Ratio s) r")
    case True
    then have "f_le (step_Ratio s) r'" using assms(4) by (rule f_le_trans)
    with True nn show ?thesis by simp
  next
    case False
    then show ?thesis using IH top by simp
  qed
qed

lemma clamp_mono:
  assumes "f_le lo hi" "f_le lo m" "f_le m m'"
  shows "f_le (if f_lt hi m then hi else m) (if f_lt hi m' then hi else m')"
  using assms f_le_not_NaN [OF assms(1)] f_le_not_NaN [OF assms(2)] f_le_not_NaN [OF assms(3)]
  by (auto simp: f_lt_def intro: f_le_trans dest: f_le_total)

lemma config_Multiplier_step_fun:
  assumes "steps_ok c"
  shows "config_Multiplier c r =
    (let m = step_fun (cfg_Min c) (cfg_Steps c) r in if f_lt (cfg_Max c) m then cfg_Max c else m)"
    and "f_le (cfg_Min c) (step_fun (cfg_Min c) (cfg_Steps c) r)"
proof -
  have "cfg_Min c \<noteq> NaN" using assms f_le_not_NaN by (auto simp: steps_ok_def)
  then show ge: "f_le (cfg_Min c) (step_fun (cfg_Min c) (cfg_Steps c) r)"
    using assms step_fun_in [of "cfg_Min c" "cfg_Steps c" r] by (auto simp: steps_ok_def)
  then have "\<not> f_lt (step_fun (cfg_Min c) (cfg_Steps c) r) (cfg_Min c)" by (simp add: f_lt_def)
  then show "config_Multiplier c r =
    (let m = step_fun (cfg_Min c) (cfg_Steps c) r in if f_lt (cfg_Max c) m then cfg_Max c else m)"
    by (simp add: config_Multiplier_def step_fun_def Let_def)
qed

text \<open>
  The multiplier curve: with ascending steps, the multiplier always lies between the
  configured bounds and never falls when the ratio rises. A NaN ratio gives the minimum.
\<close>

theorem Multiplier_bounded_monotone:
  assumes "steps_ok c"
  shows "f_le (cfg_Min c) (config_Multiplier c r) \<and> f_le (config_Multiplier c r) (cfg_Max c) \<and>
    (f_le r r' \<longrightarrow> f_le (config_Multiplier c r) (config_Multiplier c r')) \<and>
    config_Multiplier c NaN = cfg_Min c"
proof -
  note eq = config_Multiplier_step_fun(1) [OF assms] and ge = config_Multiplier_step_fun(2) [OF assms]
  have mm: "f_le (cfg_Min c) (cfg_Max c)" using assms by (simp add: steps_ok_def)
  note nn = f_le_not_NaN [OF mm] f_le_not_NaN [OF ge]
  have b: "f_le (cfg_Min c) (config_Multiplier c r)" "f_le (config_Multiplier c r) (cfg_Max c)"
    using mm ge nn f_le_total by (auto simp: eq Let_def f_lt_def)
  have m: "f_le (config_Multiplier c r) (config_Multiplier c r')" if "f_le r r'"
  proof -
    have "f_le (step_fun (cfg_Min c) (cfg_Steps c) r) (step_fun (cfg_Min c) (cfg_Steps c) r')"
      using assms that nn by (intro step_fun_mono) (auto simp: steps_ok_def)
    from clamp_mono [OF mm ge this] show ?thesis by (simp add: eq Let_def)
  qed
  have "step_fun (cfg_Min c) ss NaN = cfg_Min c" for ss
    by (induction ss rule: rev_induct) auto
  then have "config_Multiplier c NaN = cfg_Min c" using mm by (simp add: eq Let_def f_lt_def)
  with b m show ?thesis by blast
qed

lemma rnd_steps [simp]:
  "rnd (3 / 2) = Fin (3 / 2)" "rnd (7 / 4) = Fin (7 / 4)" "rnd (5 / 2) = Fin (5 / 2)"
  using rnd_dyadic [of 3 1 "3 / 2"] rnd_dyadic [of 7 2 "7 / 4"] rnd_dyadic [of 5 1 "5 / 2"]
  by (simp_all add: power_int_minus)

lemma rnd_6_5: obtains x where "rnd (6 / 5) = Fin x" "1 \<le> x" "x \<le> 7 / 4"
proof -
  have "f_le (rnd 1) (rnd (6 / 5))" "f_le (rnd (6 / 5)) (rnd (7 / 4))" by (rule rnd_mono; simp)+
  then show thesis using that by (cases "rnd (6 / 5)") auto
qed

lemma default_steps_ok: "steps_ok DefaultMultiplierConfig"
proof -
  obtain x where "rnd (6 / 5) = Fin x" "1 \<le> x" "x \<le> 7 / 4" by (rule rnd_6_5)
  then show ?thesis by (simp add: steps_ok_def DefaultMultiplierConfig_def mk_step_def)
qed

text \<open>A threshold of halves decides a rounded quotient of counts as it decides the exact one.\<close>

lemma threshold_exact:
  assumes "0 < b" "b \<le> 2 ^ 40" "0 \<le> a" "a < 2 ^ 53" "0 < p" "p \<le> 16"
  shows "f_le (Fin (of_int p / 2)) (f_div (f_of_int a) (f_of_int b)) \<longleftrightarrow> p * b \<le> 2 * a"
proof -
  let ?t = "of_int p / 2 :: rat" and ?x = "of_int a / of_int b :: rat"
  have d: "f_div (f_of_int a) (f_of_int b) = rnd ?x"
    using assms by (simp add: f_of_int_exact)
  have t: "rnd ?t = Fin ?t" using assms rnd_dyadic [of p 1 ?t] by (simp add: power_int_minus)
  show ?thesis
  proof (cases "p * b \<le> 2 * a")
    case True
    then have "(of_int (p * b) :: rat) \<le> of_int (2 * a)" by (simp only: of_int_le_iff)
    then have "?t \<le> ?x" using assms by (simp add: field_simps)
    from rnd_mono [OF this] True show ?thesis by (simp add: d t)
  next
    case False
    let ?k = "p * 2 ^ 40 - 1" and ?c = "?t - 1 / 2 ^ 41 :: rat"
    have c: "?c = of_int ?k * 2 powi (- 41)" by (simp add: power_int_minus field_simps)
    have rc: "rnd ?c = Fin ?c" using assms c by (intro rnd_dyadic [of ?k 41]) auto
    have "2 * a + 1 \<le> p * b" using False by simp
    then have "(of_int (2 * a + 1) :: rat) \<le> of_int (p * b)" by (simp only: of_int_le_iff)
    then have "?x \<le> ?t - 1 / (2 * of_int b)" using assms by (simp add: field_simps)
    moreover have "(of_int b :: rat) \<le> of_int (2 ^ 40)" using assms(2) by (simp only: of_int_le_iff)
    then have "1 / 2 ^ 41 \<le> 1 / (2 * of_int b :: rat)" using assms(1) by (intro divide_left_mono) auto
    ultimately have "?x \<le> ?c" by linarith
    from rnd_mono [OF this] have "f_le (rnd ?x) (Fin ?c)" unfolding rc .
    then have "\<not> f_le (Fin ?t) (rnd ?x)" by (cases "rnd ?x") auto
    with False show ?thesis by (simp add: d)
  qed
qed

text \<open>
  The default curve, on the counts themselves: with open requests and available
  drivers in a cell, the multiplier is 3.0 from eight requests per driver, 2.5 from five,
  1.75 from three, 1.2 from one and a half and 1.0 below; no open request gives 1.0 and
  open requests without a driver give the ceiling 3.0. Floating-point division decides
  every threshold exactly.
\<close>

theorem default_surge_curve:
  assumes "map_of (cells a) k = Some c"
    and "op = countWithinWindow (openTrips c) now (window a)" "op < 2 ^ 53"
    and "av = countWithinWindow (availableDrivers c) now (window a)" "av \<le> 2 ^ 40"
  shows "agg_Multiplier k now DefaultMultiplierConfig a =
    (if op = 0 then Fin 1
     else if 8 * av \<le> op then Fin 3
     else if 5 * av \<le> op then Fin (5 / 2)
     else if 3 * av \<le> op then Fin (7 / 4)
     else if 3 * av \<le> 2 * op then rnd (6 / 5)
     else Fin 1)"
proof -
  obtain x where x: "rnd (6 / 5) = Fin x" "1 \<le> x" "x \<le> 7 / 4" by (rule rnd_6_5)
  have nn: "0 \<le> op" "0 \<le> av" using assms by simp_all
  let ?r = "Ratio k now a"
  have cm: "config_Multiplier DefaultMultiplierConfig r =
      (if f_le (Fin 8) r then Fin 3 else if f_le (Fin 5) r then Fin (5 / 2)
       else if f_le (Fin 3) r then Fin (7 / 4) else if f_le (Fin (3 / 2)) r then Fin x else Fin 1)" for r
    using x by (simp add: config_Multiplier_def DefaultMultiplierConfig_def mk_step_def Let_def f_lt_def)
  consider "op = 0" | "op \<noteq> 0" "av = 0" | "0 < op" "0 < av" using nn by linarith
  then show ?thesis
  proof cases
    case 1
    then have "?r = Fin 0" using assms by (simp add: Ratio_def Let_def)
    with 1 show ?thesis by (simp add: agg_Multiplier_def cm)
  next
    case 2
    then have "?r = PInf" using assms by (simp add: Ratio_def Let_def)
    with 2 nn show ?thesis by (simp add: agg_Multiplier_def cm)
  next
    case 3
    then have r: "?r = f_div (f_of_int op) (f_of_int av)" using assms by (simp add: Ratio_def Let_def)
    have th: "f_le (Fin (of_int p / 2)) ?r \<longleftrightarrow> p * av \<le> 2 * op" if "0 < p" "p \<le> 16" for p
      unfolding r using threshold_exact [of av op p] 3 assms(3,5) that by simp
    show ?thesis
      using th [of 16] th [of 10] th [of 6] th [of 3] 3 x(1)
      by (auto simp: agg_Multiplier_def cm)
  qed
qed

section \<open>Concrete cells\<close>

text \<open>A cell with three open requests, the oldest out of the window, and one driver.\<close>

definition demo_agg :: aggregator where
  "demo_agg = RecordDriver 7 ''d1'' ''AVAILABLE'' (400 * second)
     (RecordTrip 7 ''t3'' ''OFFERED'' (390 * second)
       (RecordTrip 7 ''t2'' ''OFFERED'' (380 * second)
         (RecordTrip 7 ''t1'' ''OFFERED'' 0 (NewAggregator 0))))"

lemma demo_agg_ok: "agg_ok demo_agg"
  by (simp add: demo_agg_def agg_ok_RecordTrip agg_ok_RecordDriver agg_ok_New)

lemma demo_agg_eq: "demo_agg = \<lparr>window = 300000000000,
    cells = [(7, \<lparr>openTrips = [(''t1'', 0), (''t2'', 380000000000), (''t3'', 390000000000)],
                  availableDrivers = [(''d1'', 400000000000)]\<rparr>)]\<rparr>"
  by (simp add: demo_agg_def RecordTrip_def RecordDriver_def cellFor_def NewAggregator_def
      DefaultWindow_def time_units Let_def)

lemmas demo_eval = demo_agg_eq countWithinWindow_def time_sub_def cell_of_def cell_sized_def
  in_i64_def in_window_def time_units

theorem Prune_keeps_ratios_witness:
  "Ratio 7 (450 * second) (Prune (410 * second) demo_agg) = Ratio 7 (450 * second) demo_agg \<and>
   Prune (410 * second) demo_agg \<noteq> demo_agg"
proof -
  have "(410 * second) \<le> 450 * second" by (simp add: time_units)
  from Prune_keeps_ratios [OF demo_agg_ok this, of 7]
  show ?thesis by (simp add: demo_agg_eq Prune_def prune_cell_def pruneMap_def time_sub_def time_units Let_def)
qed

theorem Ratio_follows_events_witness:
  "f_le (Ratio 7 (410 * second) demo_agg)
        (Ratio 7 (410 * second) (RecordTrip 7 ''t4'' ''OFFERED'' (405 * second) demo_agg))"
proof -
  have 1: "cell_sized (cell_of (RecordTrip 7 ''t4'' ''OFFERED'' (405 * second) demo_agg) 7)"
    by (simp add: demo_eval RecordTrip_def cellFor_def Let_def)
  have 2: "cell_sized (cell_of (RecordDriver 7 ''d2'' ''AVAILABLE'' (405 * second) demo_agg) 7)"
    by (simp add: demo_eval RecordDriver_def cellFor_def Let_def)
  have 3: "in_window (410 * second) (window demo_agg) (405 * second)"
    by (simp add: demo_eval)
  from Ratio_follows_events [OF 1 2 3] show ?thesis by blast
qed

theorem Multiplier_bounded_monotone_witness:
  "f_le (Fin 1) (config_Multiplier DefaultMultiplierConfig (Fin 4)) \<and>
   f_le (config_Multiplier DefaultMultiplierConfig (Fin 4)) (Fin 3)"
  using Multiplier_bounded_monotone [OF default_steps_ok, of "Fin 4" PInf]
  by (simp add: DefaultMultiplierConfig_def)

theorem default_surge_curve_witness:
  "agg_Multiplier 7 (410 * second) DefaultMultiplierConfig demo_agg = rnd (6 / 5)"
  using default_surge_curve [of demo_agg 7, OF _ refl _ refl, of _ "410 * second"]
  by (simp add: demo_eval)

end
