(* ===== verification/External.thy ===== *)
theory External
  imports GoFloat
begin

text \<open>
  The code the repository calls but does not contain, as parameters: the Redis server and
  its client, the H3 library, float formatting, UUIDs and the clock. They are the
  fields of one record over a type \<open>'w\<close> of worlds (the network, the server, every other
  process); the models take the record as an argument. What the code relies on is the
  locale \<open>redis_server\<close>: every command answers and acts as Redis documents it, on the
  keyspace seen through the observer \<open>db\<close>, and \<^emph>\<open>before\<close> every request the rest of
  the world takes a step, related by \<open>env\<close>, and may lose the request or its reply.
  The locale \<open>quiet_redis\<close> is the special case of no interference and no fault.
\<close>

section \<open>The Redis keyspace as its clients see it\<close>

datatype rval = RStr string | RHash "string \<rightharpoonup> string" | RSet "string set"

text \<open>Live entries with their expiry time, and the server's clock (nanoseconds).\<close>

record rdb =
  rnow :: int
  live :: "string \<rightharpoonup> rval \<times> int option"

datatype cmd =
    GET string
  | SET string string "int option"
  | DEL string
  | EXISTS string
  | EXPIRE string int
  | HGET string string
  | HGETALL string
  | HSET string "(string \<times> string) list"
  | HSETNX string string string
  | SADD string string
  | SREM string "string list"
  | SMEMBERS string

datatype reply = RNil | RBulk string | RInt int | RArr "string list" | RMap "string \<rightharpoonup> string" | RErr string

definition put_fields :: "(string \<times> string) list \<Rightarrow> (string \<rightharpoonup> string) \<Rightarrow> (string \<rightharpoonup> string)" where
  "put_fields fvs m = fold (\<lambda>(f, v) m. m(f \<mapsto> v)) fvs m"

lemma put_fields_simps [simp]:
  "put_fields [] m = m" "put_fields ((f, v) # fvs) m = put_fields fvs (m(f \<mapsto> v))"
  by (simp_all add: put_fields_def)

text \<open>The key of a command, and its documented effect on the entry under that key.\<close>

fun cmd_key :: "cmd \<Rightarrow> string" where
  "cmd_key (GET k) = k"
| "cmd_key (SET k v ttl) = k"
| "cmd_key (DEL k) = k"
| "cmd_key (EXISTS k) = k"
| "cmd_key (EXPIRE k ttl) = k"
| "cmd_key (HGET k f) = k"
| "cmd_key (HGETALL k) = k"
| "cmd_key (HSET k fvs) = k"
| "cmd_key (HSETNX k f v) = k"
| "cmd_key (SADD k x) = k"
| "cmd_key (SREM k xs) = k"
| "cmd_key (SMEMBERS k) = k"

type_synonym entry = "(rval \<times> int option) option"

fun cmd_value :: "cmd \<Rightarrow> int \<Rightarrow> entry \<Rightarrow> entry" where
  "cmd_value (SET k v ttl) now e = Some (RStr v, map_option ((+) now) ttl)"
| "cmd_value (DEL k) now e = None"
| "cmd_value (EXPIRE k ttl) now e =
     (case e of None \<Rightarrow> None | Some (v, _) \<Rightarrow> if 0 < ttl then Some (v, Some (now + ttl)) else None)"
| "cmd_value (HSET k fvs) now e =
     (case e of
        None \<Rightarrow> Some (RHash (put_fields fvs Map.empty), None)
      | Some (RHash m, t) \<Rightarrow> Some (RHash (put_fields fvs m), t)
      | _ \<Rightarrow> e)"
| "cmd_value (HSETNX k f v) now e =
     (case e of
        None \<Rightarrow> Some (RHash [f \<mapsto> v], None)
      | Some (RHash m, t) \<Rightarrow> if m f = None then Some (RHash (m(f \<mapsto> v)), t) else e
      | _ \<Rightarrow> e)"
| "cmd_value (SADD k x) now e =
     (case e of
        None \<Rightarrow> Some (RSet {x}, None)
      | Some (RSet S, t) \<Rightarrow> Some (RSet (insert x S), t)
      | _ \<Rightarrow> e)"
| "cmd_value (SREM k xs) now e =
     (case e of
        Some (RSet S, t) \<Rightarrow> if S \<subseteq> set xs then None else Some (RSet (S - set xs), t)
      | _ \<Rightarrow> e)"
| "cmd_value _ now e = e"

definition redis_effect :: "cmd \<Rightarrow> rdb \<Rightarrow> rdb" where
  "redis_effect c d =
     d\<lparr>live := (live d)(cmd_key c := cmd_value c (rnow d) (live d (cmd_key c)))\<rparr>"

lemma live_effect: "live (redis_effect c d) = (live d)(cmd_key c := cmd_value c (rnow d) (live d (cmd_key c)))"
  by (simp add: redis_effect_def)

lemma effect_frame: "k \<noteq> cmd_key c \<Longrightarrow> live (redis_effect c d) k = live d k"
  by (simp add: live_effect)

lemma rnow_effect [simp]: "rnow (redis_effect c d) = rnow d"
  by (simp add: redis_effect_def)

lemma effect_reads [simp]:
  "redis_effect (GET k) d = d" "redis_effect (EXISTS k) d = d" "redis_effect (HGET k f) d = d"
  "redis_effect (HGETALL k) d = d" "redis_effect (SMEMBERS k) d = d"
  by (simp_all add: redis_effect_def)

text \<open>Entries of the type the code expects under a key, and what keeps them so.\<close>

definition str_entry :: "entry \<Rightarrow> bool" where
  "str_entry e \<longleftrightarrow> (case e of None \<Rightarrow> True | Some (RStr s, t) \<Rightarrow> True | _ \<Rightarrow> False)"

definition hash_entry :: "entry \<Rightarrow> bool" where
  "hash_entry e \<longleftrightarrow> (case e of None \<Rightarrow> True | Some (RHash m, t) \<Rightarrow> True | _ \<Rightarrow> False)"

definition set_entry :: "entry \<Rightarrow> bool" where
  "set_entry e \<longleftrightarrow> (case e of None \<Rightarrow> True | Some (RSet S, None) \<Rightarrow> finite S | _ \<Rightarrow> False)"

lemma str_entry_cases: "str_entry e \<longleftrightarrow> e = None \<or> (\<exists>s t. e = Some (RStr s, t))"
  by (auto simp: str_entry_def split: option.splits rval.splits)

lemma hash_entry_cases: "hash_entry e \<longleftrightarrow> e = None \<or> (\<exists>m t. e = Some (RHash m, t))"
  by (auto simp: hash_entry_def split: option.splits rval.splits)

lemma set_entry_cases: "set_entry e \<longleftrightarrow> e = None \<or> (\<exists>S. e = Some (RSet S, None) \<and> finite S)"
  by (auto simp: set_entry_def split: option.splits rval.splits)

lemma entry_None [simp]: "str_entry None" "hash_entry None" "set_entry None"
  by (simp_all add: str_entry_def hash_entry_def set_entry_def)

lemma entry_cmd [simp]:
  "str_entry (cmd_value (SET k v ttl) now e)"
  "hash_entry e \<Longrightarrow> hash_entry (cmd_value (HSET k fvs) now e)"
  "hash_entry e \<Longrightarrow> hash_entry (cmd_value (HSETNX k f v) now e)"
  "str_entry e \<Longrightarrow> str_entry (cmd_value (EXPIRE k n) now e)"
  "hash_entry e \<Longrightarrow> hash_entry (cmd_value (EXPIRE k n) now e)"
  "str_entry (cmd_value (DEL k) now e)" "hash_entry (cmd_value (DEL k) now e)"
  "set_entry e \<Longrightarrow> set_entry (cmd_value (SADD k x) now e)"
  "set_entry e \<Longrightarrow> set_entry (cmd_value (SREM k xs) now e)"
  by (auto simp: str_entry_def hash_entry_def set_entry_def split: option.splits rval.splits)

text \<open>What the entry under a key holds, read at the type the code expects.\<close>

definition hash_field :: "rdb \<Rightarrow> string \<Rightarrow> string \<Rightarrow> string option" where
  "hash_field d k f = (case live d k of Some (RHash m, _) \<Rightarrow> m f | _ \<Rightarrow> None)"

definition set_at :: "rdb \<Rightarrow> string \<Rightarrow> string set" where
  "set_at d k = (case live d k of Some (RSet S, _) \<Rightarrow> S | _ \<Rightarrow> {})"

definition str_at :: "rdb \<Rightarrow> string \<Rightarrow> string option" where
  "str_at d k = (case live d k of Some (RStr v, _) \<Rightarrow> Some v | _ \<Rightarrow> None)"

lemma hash_field_frame: "k \<noteq> cmd_key c \<Longrightarrow> hash_field (redis_effect c d) k = hash_field d k"
  by (intro ext) (simp add: hash_field_def effect_frame)

lemma set_at_frame: "k \<noteq> cmd_key c \<Longrightarrow> set_at (redis_effect c d) k = set_at d k"
  by (simp add: set_at_def effect_frame)

lemma str_at_frame: "k \<noteq> cmd_key c \<Longrightarrow> str_at (redis_effect c d) k = str_at d k"
  by (simp add: str_at_def effect_frame)

lemma hash_field_hset_at:
  "hash_entry (live d k) \<Longrightarrow> hash_field (redis_effect (HSET k fvs) d) k = put_fields fvs (hash_field d k)"
proof -
  assume "hash_entry (live d k)"
  then consider "live d k = None" | m t where "live d k = Some (RHash m, t)"
    by (auto simp: hash_entry_cases)
  then show ?thesis
  proof cases
    case 1
    then have "hash_field d k = Map.empty" by (intro ext) (simp add: hash_field_def)
    then show ?thesis using 1 by (intro ext) (simp add: hash_field_def live_effect)
  next
    case 2
    then have "hash_field d k = m" by (intro ext) (simp add: hash_field_def)
    then show ?thesis using 2 by (intro ext) (simp add: hash_field_def live_effect)
  qed
qed

lemma set_at_writes:
  assumes "set_entry (live d k)"
  shows "set_at (redis_effect (SADD k x) d) k = insert x (set_at d k)"
    "set_at (redis_effect (SREM k xs) d) k = set_at d k - set xs"
  using assms by (auto simp: set_entry_cases set_at_def live_effect split: if_splits)

lemma str_at_set [simp]: "str_at (redis_effect (SET k v ttl) d) k = Some v"
  by (simp add: str_at_def live_effect)

text \<open>The documented replies; a command on a key of another type is an error.\<close>

fun reply_ok :: "cmd \<Rightarrow> rdb \<Rightarrow> reply \<Rightarrow> bool" where
  "reply_ok (GET k) d r =
     (case live d k of None \<Rightarrow> r = RNil | Some (RStr v, _) \<Rightarrow> r = RBulk v | _ \<Rightarrow> (\<exists>e. r = RErr e))"
| "reply_ok (SET k v ttl) d r = (r = RBulk ''OK'')"
| "reply_ok (DEL k) d r = (r = RInt (if live d k = None then 0 else 1))"
| "reply_ok (EXISTS k) d r = (r = RInt (if live d k = None then 0 else 1))"
| "reply_ok (EXPIRE k ttl) d r = (r = RInt (if live d k = None then 0 else 1))"
| "reply_ok (HGET k f) d r =
     (case live d k of None \<Rightarrow> r = RNil
      | Some (RHash m, _) \<Rightarrow> r = (case m f of None \<Rightarrow> RNil | Some v \<Rightarrow> RBulk v)
      | _ \<Rightarrow> (\<exists>e. r = RErr e))"
| "reply_ok (HGETALL k) d r =
     (case live d k of None \<Rightarrow> r = RMap Map.empty | Some (RHash m, _) \<Rightarrow> r = RMap m | _ \<Rightarrow> (\<exists>e. r = RErr e))"
| "reply_ok (HSET k fvs) d r =
     (case live d k of None \<Rightarrow> (\<exists>n. r = RInt n) | Some (RHash m, _) \<Rightarrow> (\<exists>n. r = RInt n) | _ \<Rightarrow> (\<exists>e. r = RErr e))"
| "reply_ok (HSETNX k f v) d r =
     (case live d k of None \<Rightarrow> (\<exists>n. r = RInt n) | Some (RHash m, _) \<Rightarrow> (\<exists>n. r = RInt n) | _ \<Rightarrow> (\<exists>e. r = RErr e))"
| "reply_ok (SADD k x) d r =
     (case live d k of None \<Rightarrow> (\<exists>n. r = RInt n) | Some (RSet S, _) \<Rightarrow> (\<exists>n. r = RInt n) | _ \<Rightarrow> (\<exists>e. r = RErr e))"
| "reply_ok (SREM k xs) d r =
     (case live d k of None \<Rightarrow> (\<exists>n. r = RInt n) | Some (RSet S, _) \<Rightarrow> (\<exists>n. r = RInt n) | _ \<Rightarrow> (\<exists>e. r = RErr e))"
| "reply_ok (SMEMBERS k) d r =
     (case live d k of None \<Rightarrow> r = RArr []
      | Some (RSet S, _) \<Rightarrow> (\<exists>xs. r = RArr xs \<and> distinct xs \<and> (finite S \<longrightarrow> set xs = S))
      | _ \<Rightarrow> (\<exists>e. r = RErr e))"

section \<open>The parameters\<close>

text \<open>What can happen to a request: it never reaches the server, or its reply is lost.\<close>

datatype netfault = NotSent string | ReplyLost string

record 'w ext =
  exec :: "cmd \<Rightarrow> 'w \<Rightarrow> reply \<times> 'w"
  link :: "'w \<Rightarrow> netfault option \<times> 'w"
  db :: "'w \<Rightarrow> rdb"
  wall :: "'w \<Rightarrow> int"
  uuid :: "'w \<Rightarrow> string \<times> 'w"
  fmt_f64 :: "f64 \<Rightarrow> string"
  ParseFloat :: "string \<Rightarrow> f64 result"
  f64_oor :: "f64 \<Rightarrow> int"
  LatLngToCell :: "f64 \<Rightarrow> f64 \<Rightarrow> int \<Rightarrow> cell result"
  GridDisk :: "cell \<Rightarrow> int \<Rightarrow> cell list result"
  CellString :: "cell \<Rightarrow> string"
  CellFromString :: "string \<Rightarrow> cell"
  CellIsValid :: "cell \<Rightarrow> bool"
  GreatCircleDistanceKm :: "f64 \<times> f64 \<Rightarrow> f64 \<times> f64 \<Rightarrow> f64"
  ExpireTTL :: "int \<Rightarrow> int"
  SetTTL :: "int \<Rightarrow> int option"

section \<open>Issuing commands\<close>

text \<open>\<open>redis.call\<close> inside a script: an error reply aborts the script.\<close>

definition server_call :: "'w ext \<Rightarrow> cmd \<Rightarrow> ('w, reply) io" where
  "server_call X c = (\<lambda>w. case exec X c w of
     (r, w') \<Rightarrow> (case r of RErr e \<Rightarrow> Inl (RedisError e) | _ \<Rightarrow> Inr r, w'))"

text \<open>One request: the server runs \<open>m\<close> (a command, a transaction or a script) atomically.\<close>

definition request :: "'w ext \<Rightarrow> ('w, 'a) io \<Rightarrow> ('w, 'a) io" where
  "request X m = (\<lambda>w. case link X w of
     (None, w') \<Rightarrow> m w'
   | (Some (NotSent e), w') \<Rightarrow> (Inl (RedisError e), w')
   | (Some (ReplyLost e), w') \<Rightarrow> (Inl (RedisError e), snd (m w')))"

definition call :: "'w ext \<Rightarrow> cmd \<Rightarrow> ('w, reply) io" where
  "call X c = request X (server_call X c)"

text \<open>\<open>TxPipeline\<close>: the commands of one MULTI/EXEC block.\<close>

fun server_calls :: "'w ext \<Rightarrow> cmd list \<Rightarrow> ('w, unit) io" where
  "server_calls X [] = io_return ()"
| "server_calls X (c # cs) = io_bind (server_call X c) (\<lambda>_. server_calls X cs)"

definition tx_pipeline :: "'w ext \<Rightarrow> cmd list \<Rightarrow> ('w, unit) io" where
  "tx_pipeline X cs = request X (server_calls X cs)"

text \<open>
  \<open>Pipeline\<close> over read commands: each runs on its own, so others may run in between; the
  first error is the result.
\<close>

fun pipeline :: "'w ext \<Rightarrow> cmd list \<Rightarrow> ('w, reply list) io" where
  "pipeline X [] = io_return []"
| "pipeline X (c # cs) =
     io_bind (call X c) (\<lambda>r. io_bind (pipeline X cs) (\<lambda>rs. io_return (r # rs)))"

text \<open>Typed replies, as go-redis decodes them; \<open>redis.Nil\<close> is \<open>None\<close>.\<close>

definition as_string :: "reply \<Rightarrow> string option result" where
  "as_string r = (case r of RNil \<Rightarrow> Inr None | RBulk s \<Rightarrow> Inr (Some s) | _ \<Rightarrow> Inl (RedisError ''unexpected reply''))"

definition as_fields :: "reply \<Rightarrow> (string \<rightharpoonup> string) result" where
  "as_fields r = (case r of RMap m \<Rightarrow> Inr m | _ \<Rightarrow> Inl (RedisError ''unexpected reply''))"

definition as_strings :: "reply \<Rightarrow> string list result" where
  "as_strings r = (case r of RArr xs \<Rightarrow> Inr xs | _ \<Rightarrow> Inl (RedisError ''unexpected reply''))"

definition as_int :: "reply \<Rightarrow> int result" where
  "as_int r = (case r of RInt n \<Rightarrow> Inr n | _ \<Rightarrow> Inl (RedisError ''unexpected reply''))"

definition call_string :: "'w ext \<Rightarrow> cmd \<Rightarrow> ('w, string option) io" where
  "call_string X c = io_bind (call X c) (\<lambda>r. io_lift (as_string r))"

definition call_fields :: "'w ext \<Rightarrow> cmd \<Rightarrow> ('w, string \<rightharpoonup> string) io" where
  "call_fields X c = io_bind (call X c) (\<lambda>r. io_lift (as_fields r))"

definition call_strings :: "'w ext \<Rightarrow> cmd \<Rightarrow> ('w, string list) io" where
  "call_strings X c = io_bind (call X c) (\<lambda>r. io_lift (as_strings r))"

definition call_unit :: "'w ext \<Rightarrow> cmd \<Rightarrow> ('w, unit) io" where
  "call_unit X c = io_bind (call X c) (\<lambda>_. io_return ())"

text \<open>\<open>fields["f"]\<close> on a Go map reads a missing key as the empty string.\<close>

definition field :: "(string \<rightharpoonup> string) \<Rightarrow> string \<Rightarrow> string" where
  "field m f = (case m f of None \<Rightarrow> '''' | Some v \<Rightarrow> v)"

lemma field_upd [simp]: "field (m(f \<mapsto> v)) g = (if g = f then v else field m g)"
  by (simp add: field_def)

text \<open>A command whose string reply a script reads.\<close>

definition server_string :: "'w ext \<Rightarrow> cmd \<Rightarrow> ('w, string option) io" where
  "server_string X c = io_bind (server_call X c) (\<lambda>r. io_lift (as_string r))"

section \<open>What the code relies on\<close>

text \<open>
  Of go-redis it relies on what \<open>Expire\<close> and \<open>Set\<close> send for a duration: \<open>Expire\<close> sends whole
  seconds, rounded down but at least one; \<open>Set\<close> sends whole seconds as they are and any other
  duration in whole milliseconds, rounded down but at least one. What they send for a
  duration that is not positive is left open; no caller has one.
\<close>

locale redis_server =
  fixes X :: "'w ext" and env :: "rdb \<Rightarrow> rdb \<Rightarrow> bool"
  assumes exec_reply: "reply_ok c (db X w) (fst (exec X c w))"
    and exec_db: "db X (snd (exec X c w)) = redis_effect c (db X w)"
    and link_env: "env (db X w) (db X (snd (link X w)))"
    and uuid_db: "db X (snd (uuid X w)) = db X w"
    and expire_seconds: "0 < ttl \<Longrightarrow> ExpireTTL X ttl = max 1 (ttl div second) * second"
    and set_precise: "0 < ttl \<Longrightarrow> SetTTL X ttl =
          Some (if second dvd ttl then ttl else max 1 (ttl div millisecond) * millisecond)"
begin

text \<open>A positive duration is sent as a positive one, and whole seconds are sent as they are.\<close>

lemma ttl_pos: "0 < ttl \<Longrightarrow> 0 < ExpireTTL X ttl"
  by (simp add: expire_seconds second_def)

lemma ttl_whole: "0 < ttl \<Longrightarrow> second dvd ttl \<Longrightarrow> ExpireTTL X ttl = ttl \<and> SetTTL X ttl = Some ttl"
proof -
  assume "0 < ttl" "second dvd ttl"
  then obtain q where "ttl = second * q" "0 < q" by (auto simp: second_def elim!: dvdE)
  then show ?thesis using expire_seconds [OF \<open>0 < ttl\<close>] set_precise [OF \<open>0 < ttl\<close>] by (simp add: second_def)
qed

lemma server_call_fst:
  "fst (server_call X c w) = (case fst (exec X c w) of RErr e \<Rightarrow> Inl (RedisError e) | r \<Rightarrow> Inr r)"
  by (simp add: server_call_def split_beta split: reply.splits)

lemma server_call_db [simp]: "db X (snd (server_call X c w)) = redis_effect c (db X w)"
  by (simp add: server_call_def exec_db split_beta)

lemma server_string_db [simp]: "db X (snd (server_string X c w)) = redis_effect c (db X w)"
  by (simp add: server_string_def)

text \<open>What a command answers inside a script, on a key of the expected type.\<close>

lemma server_hget:
  assumes "hash_entry (live (db X w) k)"
  shows "fst (server_string X (HGET k f) w) = Inr (hash_field (db X w) k f)"
proof -
  have "fst (exec X (HGET k f) w) = (case hash_field (db X w) k f of None \<Rightarrow> RNil | Some v \<Rightarrow> RBulk v)"
    using exec_reply [of "HGET k f" w] assms by (auto simp: hash_entry_cases hash_field_def)
  then have "fst (server_call X (HGET k f) w) = Inr (case hash_field (db X w) k f of None \<Rightarrow> RNil | Some v \<Rightarrow> RBulk v)"
    by (simp add: server_call_fst split: option.splits)
  then show ?thesis by (simp add: server_string_def io_known as_string_def split: option.splits)
qed

lemma server_write:
  shows "hash_entry (live (db X w) k) \<Longrightarrow> \<exists>r. fst (server_call X (HSET k fvs) w) = Inr r"
    and "hash_entry (live (db X w) k) \<Longrightarrow> \<exists>r. fst (server_call X (HSETNX k f v) w) = Inr r"
    and "set_entry (live (db X w) k) \<Longrightarrow> \<exists>r. fst (server_call X (SADD k x) w) = Inr r"
    and "set_entry (live (db X w) k) \<Longrightarrow> \<exists>r. fst (server_call X (SREM k xs) w) = Inr r"
    and "\<exists>r. fst (server_call X (EXPIRE k n) w) = Inr r"
    and "\<exists>r. fst (server_call X (SET k v ttl) w) = Inr r"
    and "\<exists>r. fst (server_call X (DEL k) w) = Inr r"
    and "fst (server_call X (EXISTS k) w) = Inr (RInt (if live (db X w) k = None then 0 else 1))"
  using exec_reply [of "HSET k fvs" w] exec_reply [of "HSETNX k f v" w] exec_reply [of "SADD k x" w]
    exec_reply [of "SREM k xs" w] exec_reply [of "EXPIRE k n" w] exec_reply [of "SET k v ttl" w]
    exec_reply [of "DEL k" w] exec_reply [of "EXISTS k" w]
  by (auto simp: hash_entry_cases set_entry_cases server_call_fst)

text \<open>A property of the keyspace that \<open>env\<close> and a command keep, a request keeps.\<close>

definition env_keeps :: "(rdb \<Rightarrow> bool) \<Rightarrow> bool" where
  "env_keeps I \<longleftrightarrow> (\<forall>d d'. env d d' \<longrightarrow> I d \<longrightarrow> I d')"

lemma request_inv:
  assumes "env_keeps I" "I (db X w)" "\<And>w. I (db X w) \<Longrightarrow> I (db X (snd (m w)))"
  shows "I (db X (snd (request X m w)))"
proof -
  have "I (db X (snd (link X w)))" using assms(1,2) link_env unfolding env_keeps_def by blast
  with assms(3) show ?thesis
    by (auto simp: request_def split: prod.splits option.splits netfault.splits)
qed

lemma call_inv:
  assumes "env_keeps I" "\<And>d. I d \<Longrightarrow> I (redis_effect c d)" "I (db X w)"
  shows "I (db X (snd (call X c w)))"
  unfolding call_def
proof (rule request_inv [OF assms(1,3)])
  show "I (db X (snd (server_call X c w)))" if "I (db X w)" for w
    using that unfolding server_call_db by (rule assms(2))
qed

lemma call_typed_inv:
  assumes "env_keeps I" "\<And>d. I d \<Longrightarrow> I (redis_effect c d)" "I (db X w)"
  shows "I (db X (snd (call_string X c w)))" "I (db X (snd (call_fields X c w)))"
    "I (db X (snd (call_strings X c w)))" "I (db X (snd (call_unit X c w)))"
  unfolding call_string_def call_fields_def call_strings_def call_unit_def
  by (simp_all only: io_bind_lift_snd io_bind_return_snd call_inv [OF assms])

text \<open>A read under interference: the value every interfering step keeps, or an error.\<close>

lemma request_cases:
  obtains e where "fst (request X m w) = Inl e"
  | w1 where "w1 = snd (link X w)" "request X m w = m w1"
proof (cases "link X w")
  case (Pair f w1)
  show thesis
  proof (cases f)
    case None
    then show thesis using that(2) [of w1] Pair by (simp add: request_def)
  next
    case (Some x)
    then show thesis using that(1) Pair by (cases x) (simp_all add: request_def)
  qed
qed

lemma call_hget_kept:
  assumes "env_keeps I" "I (db X w)"
    and v: "\<And>d. I d \<Longrightarrow> hash_entry (live d k) \<and> hash_field d k f = v"
  shows "(\<exists>e. fst (call_string X (HGET k f) w) = Inl e) \<or> fst (call_string X (HGET k f) w) = Inr v"
proof (cases rule: request_cases [of "server_call X (HGET k f)" w])
  case (1 e)
  then show ?thesis by (simp add: call_string_def call_def io_bind_err)
next
  case (2 w1)
  have "I (db X w1)" using assms(1,2) link_env [of w] unfolding 2(1) env_keeps_def by blast
  then have "fst (server_string X (HGET k f) w1) = Inr v" using server_hget v by metis
  then show ?thesis using 2(2) by (simp add: call_string_def call_def io_bind_def server_string_def)
qed

end

text \<open>No other client, no passing of time and no fault while the code runs.\<close>

locale quiet_redis = redis_server X "(=)" for X :: "'w ext" +
  assumes link_up: "fst (link X w) = None"
begin

lemma request_quiet: "request X m w = m (snd (link X w))"
  using link_up [of w] by (cases "link X w") (auto simp: request_def)

lemma link_db [simp]: "db X (snd (link X w)) = db X w"
  using link_env [of w] by simp

lemma call_db [simp]: "db X (snd (call X c w)) = redis_effect c (db X w)"
  by (simp add: call_def request_quiet server_call_db)

lemma call_fst: "fst (call X c w) = (case fst (exec X c (snd (link X w))) of RErr e \<Rightarrow> Inl (RedisError e) | r \<Rightarrow> Inr r)"
  by (simp add: call_def request_quiet server_call_def split_beta split: reply.splits)

lemma reply_quiet: "reply_ok c (db X w) (fst (exec X c (snd (link X w))))"
  using exec_reply [of c "snd (link X w)"] by simp

lemma call_typed_db [simp]:
  "db X (snd (call_string X c w)) = redis_effect c (db X w)"
  "db X (snd (call_fields X c w)) = redis_effect c (db X w)"
  "db X (snd (call_strings X c w)) = redis_effect c (db X w)"
  "db X (snd (call_unit X c w)) = redis_effect c (db X w)"
  by (simp_all add: call_string_def call_fields_def call_strings_def call_unit_def)

text \<open>Reads of keys that hold the type the code expects of them.\<close>

lemma get_quiet:
  "live (db X w) k = None \<Longrightarrow> fst (call_string X (GET k) w) = Inr None"
  "live (db X w) k = Some (RStr v, t) \<Longrightarrow> fst (call_string X (GET k) w) = Inr (Some v)"
  using reply_quiet [of "GET k" w]
  by (simp_all add: call_string_def io_bind_ok call_fst as_string_def)

lemma hget_quiet:
  "live (db X w) k = None \<Longrightarrow> fst (call_string X (HGET k f) w) = Inr None"
  "live (db X w) k = Some (RHash m, t) \<Longrightarrow> fst (call_string X (HGET k f) w) = Inr (m f)"
  using reply_quiet [of "HGET k f" w]
  by (auto simp: call_string_def io_bind_ok call_fst as_string_def split: option.splits)

lemma hgetall_quiet:
  "live (db X w) k = None \<Longrightarrow> fst (call_fields X (HGETALL k) w) = Inr Map.empty"
  "live (db X w) k = Some (RHash m, t) \<Longrightarrow> fst (call_fields X (HGETALL k) w) = Inr m"
  using reply_quiet [of "HGETALL k" w]
  by (simp_all add: call_fields_def io_bind_ok call_fst as_fields_def)

lemma smembers_quiet:
  "live (db X w) k = None \<Longrightarrow> fst (call_strings X (SMEMBERS k) w) = Inr []"
  "live (db X w) k = Some (RSet S, t) \<Longrightarrow> finite S \<Longrightarrow>
     \<exists>xs. fst (call_strings X (SMEMBERS k) w) = Inr xs \<and> distinct xs \<and> set xs = S"
  using reply_quiet [of "SMEMBERS k" w]
  by (auto simp: call_strings_def io_bind_ok call_fst as_strings_def)

definition not_hash :: "rdb \<Rightarrow> string \<Rightarrow> bool" where
  "not_hash d k \<longleftrightarrow> (\<exists>v t. live d k = Some (v, t) \<and> (\<forall>m. v \<noteq> RHash m))"

lemma write_quiet:
  "\<not> not_hash (db X w) k \<Longrightarrow> fst (call_unit X (HSET k fvs) w) = Inr ()"
  "\<not> not_hash (db X w) k \<Longrightarrow> fst (call_unit X (HSETNX k f v) w) = Inr ()"
  "fst (call_unit X (SET k v ttl) w) = Inr ()"
  "fst (call_unit X (DEL k) w) = Inr ()"
  "fst (call_unit X (EXPIRE k n) w) = Inr ()"
  using reply_quiet [of "HSET k fvs" w] reply_quiet [of "HSETNX k f v" w]
    reply_quiet [of "SET k v ttl" w] reply_quiet [of "DEL k" w] reply_quiet [of "EXPIRE k n" w]
  by (auto simp: call_unit_def io_bind_ok call_fst not_hash_def split: option.splits rval.splits prod.splits)

lemma sadd_quiet: "(\<forall>v t. live (db X w) k = Some (v, t) \<longrightarrow> (\<exists>S. v = RSet S)) \<Longrightarrow>
    fst (call_unit X (SADD k x) w) = Inr () \<and> fst (call_unit X (SREM k xs) w) = Inr ()"
  using reply_quiet [of "SADD k x" w] reply_quiet [of "SREM k xs" w]
  by (auto simp: call_unit_def io_bind_ok call_fst split: option.splits rval.splits prod.splits)

lemma pipeline_quiet:
  assumes "\<And>c. c \<in> set cs \<Longrightarrow> redis_effect c (db X w) = db X w"
    and "\<And>c w'. c \<in> set cs \<Longrightarrow> db X w' = db X w \<Longrightarrow> fst (call X c w') = Inr (f c)"
  shows "fst (pipeline X cs w) = Inr (map f cs) \<and> db X (snd (pipeline X cs w)) = db X w"
  using assms
proof (induction cs arbitrary: w)
  case (Cons c cs)
  let ?w = "snd (call X c w)"
  have d: "db X ?w = db X w" using Cons.prems(1) by simp
  have c: "fst (call X c w) = Inr (f c)" using Cons.prems(2) [of c w] by simp
  have "fst (pipeline X cs ?w) = Inr (map f cs) \<and> db X (snd (pipeline X cs ?w)) = db X ?w"
    using Cons.prems by (intro Cons.IH) (simp_all add: d)
  then show ?case using c d by (simp add: io_bind_ok)
qed simp

lemma read_replies:
  "fst (call X (EXISTS k) w) = Inr (RInt (if live (db X w) k = None then 0 else 1))"
  "hash_entry (live (db X w) k) \<Longrightarrow> fst (call X (HGETALL k) w) = Inr (RMap (hash_field (db X w) k))"
  using reply_quiet [of "EXISTS k" w] reply_quiet [of "HGETALL k" w]
  by (auto simp: call_fst hash_entry_cases hash_field_def fun_eq_iff)

text \<open>The same reads on keys whose type is known.\<close>

lemma typed_reads:
  "str_entry (live (db X w) k) \<Longrightarrow> fst (call_string X (GET k) w) = Inr (str_at (db X w) k)"
  "hash_entry (live (db X w) k) \<Longrightarrow> fst (call_string X (HGET k f) w) = Inr (hash_field (db X w) k f)"
  "hash_entry (live (db X w) k) \<Longrightarrow> fst (call_fields X (HGETALL k) w) = Inr (hash_field (db X w) k)"
  "set_entry (live (db X w) k) \<Longrightarrow>
     \<exists>xs. fst (call_strings X (SMEMBERS k) w) = Inr xs \<and> distinct xs \<and> set xs = set_at (db X w) k"
  using get_quiet [of w k] hget_quiet [of w k] hgetall_quiet [of w k] smembers_quiet [of w k]
  by (auto simp: str_entry_cases hash_entry_cases set_entry_cases str_at_def hash_field_def set_at_def fun_eq_iff)

lemma typed_writes:
  "hash_entry (live (db X w) k) \<Longrightarrow> fst (call_unit X (HSET k fvs) w) = Inr ()"
  "hash_entry (live (db X w) k) \<Longrightarrow> fst (call_unit X (HSETNX k f v) w) = Inr ()"
  "set_entry (live (db X w) k) \<Longrightarrow> fst (call_unit X (SADD k x) w) = Inr ()"
  "set_entry (live (db X w) k) \<Longrightarrow> fst (call_unit X (SREM k xs) w) = Inr ()"
  using write_quiet(1,2) [of w k] sadd_quiet [of w k]
  by (auto simp: not_hash_def hash_entry_cases set_entry_cases)

end

text \<open>
  Text formats: a finite or infinite \<open>float64\<close> written by the client is parsed back,
  the empty string is no number, a cell's hexadecimal name determines the cell, and
  the clock's seconds are an \<open>int64\<close>.
\<close>

definition is_f64 :: "f64 \<Rightarrow> bool" where
  "is_f64 x = (case x of Fin a \<Rightarrow> rnd a = Fin a | NaN \<Rightarrow> False | _ \<Rightarrow> True)"

locale text_formats =
  fixes X :: "'w ext"
  assumes parse_fmt: "is_f64 x \<Longrightarrow> ParseFloat X (fmt_f64 X x) = Inr x"
    and parse_empty: "\<exists>e. ParseFloat X '''' = Inl e"
    and cell_roundtrip: "CellFromString X (CellString X c) = c"
    and clock_range: "in_i64 (to_unix (wall X w))"
begin

lemma CellString_inj: "CellString X c = CellString X c' \<longleftrightarrow> c = c'"
  using cell_roundtrip by metis

end

text \<open>The two together: what the stores rely on when nothing interferes.\<close>

locale quiet_store = quiet_redis X + text_formats X for X :: "'w ext"

end
