(* ===== verification/MemWorld.thy ===== *)
theory MemWorld
  imports External
begin

text \<open>
  A complete in-memory world: a Redis keyspace with its clock, a text format for
  rationals, and a one-dimensional grid in the place of H3. It satisfies everything
  \<open>External\<close> asks for, so the hypotheses of the theorems hold of a concrete world, on
  which their witnesses evaluate. \<open>mem_world\<close> is quiet; in \<open>scripted_world\<close> a script
  says what other clients, the clock and the network do before each request.
\<close>

fun mem_reply :: "cmd \<Rightarrow> rdb \<Rightarrow> reply" where
  "mem_reply (GET k) d =
     (case live d k of None \<Rightarrow> RNil | Some (RStr v, _) \<Rightarrow> RBulk v | _ \<Rightarrow> RErr ''WRONGTYPE'')"
| "mem_reply (SET k v ttl) d = RBulk ''OK''"
| "mem_reply (HGET k f) d =
     (case live d k of None \<Rightarrow> RNil
      | Some (RHash m, _) \<Rightarrow> (case m f of None \<Rightarrow> RNil | Some v \<Rightarrow> RBulk v)
      | _ \<Rightarrow> RErr ''WRONGTYPE'')"
| "mem_reply (HGETALL k) d =
     (case live d k of None \<Rightarrow> RMap Map.empty | Some (RHash m, _) \<Rightarrow> RMap m | _ \<Rightarrow> RErr ''WRONGTYPE'')"
| "mem_reply (HSET k fvs) d =
     (case live d k of Some (RStr v, _) \<Rightarrow> RErr ''WRONGTYPE'' | Some (RSet S, _) \<Rightarrow> RErr ''WRONGTYPE'' | _ \<Rightarrow> RInt 1)"
| "mem_reply (HSETNX k f v) d =
     (case live d k of Some (RStr v, _) \<Rightarrow> RErr ''WRONGTYPE'' | Some (RSet S, _) \<Rightarrow> RErr ''WRONGTYPE'' | _ \<Rightarrow> RInt 1)"
| "mem_reply (SADD k x) d =
     (case live d k of Some (RStr v, _) \<Rightarrow> RErr ''WRONGTYPE'' | Some (RHash m, _) \<Rightarrow> RErr ''WRONGTYPE'' | _ \<Rightarrow> RInt 1)"
| "mem_reply (SREM k xs) d =
     (case live d k of Some (RStr v, _) \<Rightarrow> RErr ''WRONGTYPE'' | Some (RHash m, _) \<Rightarrow> RErr ''WRONGTYPE'' | _ \<Rightarrow> RInt 1)"
| "mem_reply (SMEMBERS k) d =
     (case live d k of None \<Rightarrow> RArr [] | Some (RSet S, _) \<Rightarrow> RArr (sorted_list_of_set S) | _ \<Rightarrow> RErr ''WRONGTYPE'')"
| "mem_reply (DEL k) d = RInt (if live d k = None then 0 else 1)"
| "mem_reply (EXISTS k) d = RInt (if live d k = None then 0 else 1)"
| "mem_reply (EXPIRE k ttl) d = RInt (if live d k = None then 0 else 1)"

lemma mem_reply_ok: "reply_ok c d (mem_reply c d)"
  by (cases c) (auto split: option.splits rval.splits)

text \<open>Time passing: the clock moves and the entries whose expiry has come vanish.\<close>

definition elapse :: "int \<Rightarrow> rdb \<Rightarrow> rdb" where
  "elapse dt d =
     \<lparr>rnow = rnow d + dt,
      live = (\<lambda>k. case live d k of Some (v, Some t) \<Rightarrow> if rnow d + dt < t then Some (v, Some t) else None | e \<Rightarrow> e)\<rparr>"

lemma live_elapse:
  "live (elapse dt d) k = live d k \<or> live (elapse dt d) k = None"
  "live d k = Some (v, None) \<Longrightarrow> live (elapse dt d) k = Some (v, None)"
  by (auto simp: elapse_def split: option.splits)

lemma entry_elapse:
  "str_entry (live d k) \<Longrightarrow> str_entry (live (elapse dt d) k)"
  "hash_entry (live d k) \<Longrightarrow> hash_entry (live (elapse dt d) k)"
  "set_entry (live d k) \<Longrightarrow> set_entry (live (elapse dt d) k)"
  using live_elapse(1) [of dt d k] by auto

section \<open>Text formats\<close>

definition parse_signed :: "string \<Rightarrow> int option" where
  "parse_signed s = (case s of [] \<Rightarrow> None
     | c # cs \<Rightarrow> if c = CHR ''-'' then map_option (\<lambda>n. - int n) (parse_nat cs) else map_option int (parse_nat s))"

fun mem_fmt :: "f64 \<Rightarrow> string" where
  "mem_fmt (Fin a) = itoa (fst (quotient_of a)) @ ''/'' @ itoa (snd (quotient_of a))"
| "mem_fmt PInf = ''+Inf''"
| "mem_fmt NInf = ''-Inf''"
| "mem_fmt NaN = ''NaN''"

definition mem_parse :: "string \<Rightarrow> f64 result" where
  "mem_parse s =
     (if s = ''+Inf'' then Inr PInf else if s = ''-Inf'' then Inr NInf else if s = ''NaN'' then Inr NaN
      else case (parse_signed (takeWhile (\<lambda>c. c \<noteq> CHR ''/'') s), parse_signed (drop 1 (dropWhile (\<lambda>c. c \<noteq> CHR ''/'') s))) of
             (Some p, Some q) \<Rightarrow> Inr (Fin (of_int p / of_int q))
           | _ \<Rightarrow> Inl (ParseError s))"

lemma parse_signed_itoa [simp]: "parse_signed (itoa i) = Some i"
proof (cases "i < 0")
  case True
  then show ?thesis by (simp add: itoa_def parse_signed_def)
next
  case False
  obtain d cs where s: "nat_str (nat i) = digit_char d # cs" "d < 10" using nat_str_Cons by blast
  then have "parse_nat (digit_char d # cs) = Some (nat i)" by (metis parse_nat_nat_str)
  with False s digit_char_not_sign [of d] show ?thesis by (simp add: itoa_def parse_signed_def)
qed

lemma digit_char_not_slash: "d < 10 \<Longrightarrow> digit_char d \<noteq> CHR ''/''"
  by (auto simp: digit_char_def dest: arg_cong [where f = "of_char :: char \<Rightarrow> nat"])

lemma nat_str_no_slash: "CHR ''/'' \<notin> set (nat_str n)"
proof (induction n rule: nat_str.induct)
  case (1 n)
  then show ?case using digit_char_not_slash [of n] digit_char_not_slash [of "n mod 10"]
    by (subst nat_str.simps) (auto simp del: digit_chars)
qed

lemma itoa_no_slash: "CHR ''/'' \<notin> set (itoa i)"
  using nat_str_no_slash by (simp add: itoa_def)

lemma digit_char_alpha: "d < 10 \<Longrightarrow> digit_char d \<notin> {CHR ''+'', CHR ''I'', CHR ''N''}"
  by (auto simp: digit_char_def dest: arg_cong [where f = "of_char :: char \<Rightarrow> nat"])

lemma mem_parse_fmt: "mem_parse (mem_fmt x) = Inr x"
proof (cases x)
  case (Fin a)
  obtain p q where pq: "quotient_of a = (p, q)" by (cases "quotient_of a")
  let ?s = "itoa p @ CHR ''/'' # itoa q"
  have "?s \<noteq> t" if "CHR ''/'' \<notin> set t" for t
    using that by (metis in_set_conv_decomp)
  from this [of "''+Inf''"] this [of "''-Inf''"] this [of "''NaN''"]
  have ne: "?s \<noteq> ''+Inf''" "?s \<noteq> ''-Inf''" "?s \<noteq> ''NaN''" by simp_all
  have "\<forall>c \<in> set (itoa p). c \<noteq> CHR ''/''" using itoa_no_slash [of p] by blast
  then have tw: "takeWhile (\<lambda>c. c \<noteq> CHR ''/'') ?s = itoa p"
    "dropWhile (\<lambda>c. c \<noteq> CHR ''/'') ?s = CHR ''/'' # itoa q"
    by (simp_all add: takeWhile_append dropWhile_append)
  have "mem_parse ?s = Inr (Fin (of_int p / of_int q))"
    unfolding mem_parse_def tw by (simp add: ne)
  moreover have "of_int p / of_int q = a" using quotient_of_div [OF pq] by simp
  ultimately show ?thesis by (simp add: Fin pq)
qed (simp_all add: mem_parse_def)

definition mem_cell_name :: "cell \<Rightarrow> string" where
  "mem_cell_name c = nat_str (unat c)"

definition mem_cell_parse :: "string \<Rightarrow> cell" where
  "mem_cell_parse s = (case parse_nat s of Some n \<Rightarrow> of_nat n | None \<Rightarrow> 0)"

lemma mem_cell_roundtrip: "mem_cell_parse (mem_cell_name c) = c"
  by (simp add: mem_cell_name_def mem_cell_parse_def)

section \<open>A one-dimensional grid\<close>

fun mem_cell :: "f64 \<Rightarrow> f64 \<Rightarrow> int \<Rightarrow> cell result" where
  "mem_cell (Fin lat) (Fin lng) res =
     (if \<bar>lat\<bar> \<le> 90 \<and> \<bar>lng\<bar> \<le> 180 then Inr (of_int (\<lfloor>lat\<rfloor> + 1000)) else Inl (H3Error ''domain''))"
| "mem_cell _ _ _ = Inl (H3Error ''domain'')"

definition mem_disk :: "cell \<Rightarrow> int \<Rightarrow> cell list result" where
  "mem_disk c k =
     (if k < 0 then Inl (H3Error ''k'') else Inr (map (\<lambda>i. c + of_int i) (0 # concat (map (\<lambda>i. [i, - i]) [1 .. k]))))"

fun mem_distance :: "f64 \<times> f64 \<Rightarrow> f64 \<times> f64 \<Rightarrow> f64" where
  "mem_distance (Fin a, _) (Fin b, _) = rnd \<bar>a - b\<bar>"
| "mem_distance _ _ = NaN"

section \<open>The worlds\<close>

text \<open>The clock, kept in the range of nanoseconds since 1970.\<close>

definition mem_clock :: "rdb \<Rightarrow> int" where
  "mem_clock d = max (- (2 ^ 63)) (min (2 ^ 63 - 1) (rnow d))"

lemma mem_clock_range: "in_i64 (to_unix (mem_clock d))"
proof -
  have "- (2 ^ 63) \<le> mem_clock d" "mem_clock d \<le> 2 ^ 63 - 1" by (auto simp: mem_clock_def)
  then have "- (2 ^ 63) div second \<le> to_unix (mem_clock d)" "to_unix (mem_clock d) \<le> (2 ^ 63 - 1) div second"
    unfolding to_unix_def by (auto intro!: zdiv_mono1 simp: second_def)
  then show ?thesis by (simp add: in_i64_def second_def)
qed

definition world_over :: "('w \<Rightarrow> rdb) \<Rightarrow> (rdb \<Rightarrow> 'w \<Rightarrow> 'w) \<Rightarrow> ('w \<Rightarrow> netfault option \<times> 'w) \<Rightarrow> 'w ext" where
  "world_over get put lnk =
     \<lparr>exec = (\<lambda>c w. (mem_reply c (get w), put (redis_effect c (get w)) w)),
      link = lnk,
      db = get,
      wall = (\<lambda>w. mem_clock (get w)),
      uuid = (\<lambda>w. (''uuid-'' @ itoa (rnow (get w)), w)),
      fmt_f64 = mem_fmt,
      ParseFloat = mem_parse,
      f64_oor = (\<lambda>_. - (2 ^ 63)),
      LatLngToCell = mem_cell,
      GridDisk = mem_disk,
      CellString = mem_cell_name,
      CellFromString = mem_cell_parse,
      CellIsValid = (\<lambda>_. True),
      GreatCircleDistanceKm = mem_distance,
      ExpireTTL = (\<lambda>ttl. max 1 (ttl div second) * second),
      SetTTL = (\<lambda>ttl. Some (if second dvd ttl then ttl else max 1 (ttl div millisecond) * millisecond))\<rparr>"

lemma world_over_fields [simp]:
  "exec (world_over get put lnk) c w = (mem_reply c (get w), put (redis_effect c (get w)) w)"
  "link (world_over get put lnk) = lnk"
  "db (world_over get put lnk) = get"
  "wall (world_over get put lnk) w = mem_clock (get w)"
  "uuid (world_over get put lnk) w = (''uuid-'' @ itoa (rnow (get w)), w)"
  "fmt_f64 (world_over get put lnk) = mem_fmt"
  "ParseFloat (world_over get put lnk) = mem_parse"
  "f64_oor (world_over get put lnk) = (\<lambda>_. - (2 ^ 63))"
  "LatLngToCell (world_over get put lnk) = mem_cell"
  "GridDisk (world_over get put lnk) = mem_disk"
  "CellString (world_over get put lnk) = mem_cell_name"
  "CellFromString (world_over get put lnk) = mem_cell_parse"
  "CellIsValid (world_over get put lnk) = (\<lambda>_. True)"
  "GreatCircleDistanceKm (world_over get put lnk) = mem_distance"
  "ExpireTTL (world_over get put lnk) ttl = max 1 (ttl div second) * second"
  "SetTTL (world_over get put lnk) ttl = Some (if second dvd ttl then ttl else max 1 (ttl div millisecond) * millisecond)"
  by (simp_all add: world_over_def)

lemma world_over_formats: "text_formats (world_over get put lnk)"
  by unfold_locales (auto simp: mem_parse_fmt mem_cell_roundtrip mem_clock_range,
      auto simp: mem_parse_def parse_signed_def)

definition mem_world :: "rdb ext" where
  "mem_world = world_over (\<lambda>w. w) (\<lambda>d _. d) (\<lambda>w. (None, w))"

text \<open>A script: before each request, a fault or none, and a change of the keyspace.\<close>

type_synonym scripted = "rdb \<times> (netfault option \<times> (rdb \<Rightarrow> rdb)) list"

fun script_link :: "scripted \<Rightarrow> netfault option \<times> scripted" where
  "script_link (d, []) = (None, (d, []))"
| "script_link (d, (f, g) # s) = (f, (g d, s))"

definition scripted_world :: "scripted ext" where
  "scripted_world = world_over fst (\<lambda>d w. (d, snd w)) script_link"

interpretation mem: quiet_store mem_world
proof (intro quiet_store.intro)
  show "quiet_redis mem_world"
    by unfold_locales (auto simp: mem_world_def mem_reply_ok)
  show "text_formats mem_world"
    unfolding mem_world_def by (rule world_over_formats)
qed

interpretation scripted: redis_server scripted_world "\<lambda>_ _. True"
  by unfold_locales (auto simp: scripted_world_def mem_reply_ok)

interpretation scripted_formats: text_formats scripted_world
  unfolding scripted_world_def by (rule world_over_formats)

text \<open>A world with faults in which time passes before each request but nobody else acts.\<close>

type_synonym ticking = "rdb \<times> (netfault option \<times> int) list"

fun tick_link :: "ticking \<Rightarrow> netfault option \<times> ticking" where
  "tick_link (d, []) = (None, (d, []))"
| "tick_link (d, (f, dt) # s) = (f, (elapse dt d, s))"

definition ticking_world :: "ticking ext" where
  "ticking_world = world_over fst (\<lambda>d w. (d, snd w)) tick_link"

definition time_passes :: "rdb \<Rightarrow> rdb \<Rightarrow> bool" where
  "time_passes d d' \<longleftrightarrow> d' = d \<or> (\<exists>dt. d' = elapse dt d)"

interpretation ticking: redis_server ticking_world time_passes
proof unfold_locales
  show "time_passes (db ticking_world w) (db ticking_world (snd (link ticking_world w)))" for w
    by (cases w rule: tick_link.cases) (auto simp: ticking_world_def time_passes_def)
qed (auto simp: ticking_world_def mem_reply_ok)

lemmas mem_eval = mem_world_def request_def call_def server_call_def call_string_def call_fields_def
  call_strings_def call_unit_def as_string_def as_fields_def as_strings_def as_int_def
  io_bind_def io_wrap_def tx_pipeline_def

definition empty_db :: rdb where
  "empty_db = \<lparr>rnow = 1000 * second, live = Map.empty\<rparr>"

end
