(* ===== verification/Events.thy ===== *)
theory Events
  imports GoFloat
begin

text \<open>
  \<open>internal/events\<close>: topics, payloads, and where the Kafka publisher sends each event.
  Publishing never changes what the code does next (errors are dropped), so an
  operation that publishes returns the events it hands to its publisher.
\<close>

definition TopicDriverLocation :: string where "TopicDriverLocation = ''driver.location''"
definition TopicTripLifecycle :: string where "TopicTripLifecycle = ''trip.lifecycle''"
definition TopicOfferEvents :: string where "TopicOfferEvents = ''offer.events''"

record DriverLocationEvent =
  dl_DriverID :: string
  dl_Lat :: f64
  dl_Lng :: f64
  dl_Cell :: string
  dl_State :: string
  dl_Timestamp :: int

record TripLifecycleEvent =
  tl_TripID :: string
  tl_State :: string
  tl_Cell :: string
  tl_DriverID :: string
  tl_Timestamp :: int

record OfferEvent =
  oe_TripID :: string
  oe_DriverID :: string
  oe_Round :: int
  oe_State :: string
  oe_Cell :: string
  oe_Timestamp :: int

datatype event =
    DriverLocation DriverLocationEvent
  | TripLifecycle TripLifecycleEvent
  | OfferLifecycle OfferEvent

section \<open>Publishers\<close>

text \<open>
  \<open>KafkaPublisher\<close> has one writer per topic; kafka-go's writer is third-party code and only
  its settings are modelled. Each publish method picks its writer and the message key.
\<close>

datatype balancer = HashBalancer

datatype acks = RequireOne

record kafka_writer =
  kw_Addr :: "string list"
  kw_Topic :: string
  kw_Balancer :: balancer
  kw_RequiredAcks :: acks

record KafkaPublisher =
  kp_driverLocation :: kafka_writer
  kp_tripLifecycle :: kafka_writer
  kp_offers :: kafka_writer

definition NewKafkaPublisher :: "string list \<Rightarrow> KafkaPublisher" where
  "NewKafkaPublisher brokers =
     (let newWriter = (\<lambda>topic. \<lparr>kw_Addr = brokers, kw_Topic = topic, kw_Balancer = HashBalancer, kw_RequiredAcks = RequireOne\<rparr>)
      in \<lparr>kp_driverLocation = newWriter TopicDriverLocation, kp_tripLifecycle = newWriter TopicTripLifecycle,
          kp_offers = newWriter TopicOfferEvents\<rparr>)"

fun kafka_route :: "KafkaPublisher \<Rightarrow> event \<Rightarrow> kafka_writer \<times> string" where
  "kafka_route p (DriverLocation e) = (kp_driverLocation p, dl_DriverID e)"
| "kafka_route p (TripLifecycle e) = (kp_tripLifecycle p, tl_TripID e)"
| "kafka_route p (OfferLifecycle e) = (kp_offers p, oe_TripID e)"

text \<open>
  A publish: the payload is encoded, then written to its topic under its key. JSON encoding
  and the writer's \<open>WriteMessages\<close> are third-party code.
\<close>

definition kafka_publish :: "(event \<Rightarrow> 'm result) \<Rightarrow> (kafka_writer \<Rightarrow> string \<Rightarrow> 'm \<Rightarrow> ('k, unit) io) \<Rightarrow> KafkaPublisher
    \<Rightarrow> event \<Rightarrow> ('k, unit) io" where
  "kafka_publish encode WriteMessages p e =
     io_bind (io_wrap ''marshal event'' (io_lift (encode e))) (\<lambda>payload.
     io_wrap ''write to topic'' (WriteMessages (fst (kafka_route p e)) (snd (kafka_route p e)) payload))"

definition noop_publish :: "event \<Rightarrow> ('k, unit) io" where
  "noop_publish e = io_return ()"

text \<open>The interface the stores and the dispatcher hold; \<open>nil\<close> is replaced by the no-op publisher.\<close>

datatype Publisher = NoopPublisher | PublishTo KafkaPublisher

definition Publish :: "(event \<Rightarrow> 'm result) \<Rightarrow> (kafka_writer \<Rightarrow> string \<Rightarrow> 'm \<Rightarrow> ('k, unit) io) \<Rightarrow> Publisher \<Rightarrow> event \<Rightarrow> ('k, unit) io" where
  "Publish encode WriteMessages p e =
     (case p of NoopPublisher \<Rightarrow> noop_publish e | PublishTo kp \<Rightarrow> kafka_publish encode WriteMessages kp e)"

definition or_noop :: "Publisher option \<Rightarrow> Publisher" where
  "or_noop p = (case p of None \<Rightarrow> NoopPublisher | Some p \<Rightarrow> p)"

section \<open>Order within a partition\<close>

text \<open>
  What kafka-go's hash balancer promises: the partition of a message is a function of its
  key. The log of a topic's partition is what was written to it, in order.
\<close>

type_synonym 'm kafka_log = "string \<Rightarrow> nat \<Rightarrow> (string \<times> 'm) list"

definition log_write :: "(string \<Rightarrow> nat) \<Rightarrow> kafka_writer \<Rightarrow> string \<Rightarrow> 'm \<Rightarrow> ('m kafka_log, unit) io" where
  "log_write part wr key m = (\<lambda>lg. (Inr (), lg(kw_Topic wr := (lg (kw_Topic wr))(part key := lg (kw_Topic wr) (part key) @ [(key, m)]))))"

lemma kafka_publish_log:
  assumes "encode e = Inr m"
  shows "snd (kafka_publish encode (log_write part) p e lg) =
    (let (wr, key) = kafka_route p e
     in lg(kw_Topic wr := (lg (kw_Topic wr))(part key := lg (kw_Topic wr) (part key) @ [(key, m)])))"
  by (simp add: kafka_publish_def io_bind_def io_wrap_def io_lift_def log_write_def assms split_beta)

text \<open>The events of one trip or driver are found in its partition in the order they were published in.\<close>

lemma kafka_keeps_order:
  assumes "\<forall>e \<in> set es. encode e = Inr (enc e)"
  shows "filter (\<lambda>(k, m). k = key) (fold (\<lambda>e lg. snd (kafka_publish encode (log_write part) (NewKafkaPublisher bs) e lg)) es lg topic (part key)) =
    filter (\<lambda>(k, m). k = key) (lg topic (part key)) @
      map (\<lambda>e. (key, enc e)) (filter (\<lambda>e. kw_Topic (fst (kafka_route (NewKafkaPublisher bs) e)) = topic \<and>
        snd (kafka_route (NewKafkaPublisher bs) e) = key) es)"
  using assms
proof (induction es arbitrary: lg)
  case (Cons e es)
  then show ?case by (auto simp: kafka_publish_log [where m = "enc e"] split_beta Let_def)
qed simp

end
