(* ===== verification/DriverStore.thy ===== *)
theory DriverStore
  imports MemWorld StateMachine Events
begin

text \<open>
  \<open>internal/store/driver.go\<close>: driver position and state in Redis. Every method is a
  function over the world with the Redis requests the Go code makes, in its order. A
  driver is a hash under \<open>driverKey\<close> that expires 30 s after the last ping, and a
  member of the set of its cell, which never expires.
\<close>

definition DriverLocationTTL :: int where "DriverLocationTTL = 30 * second"

text \<open>\<open>time.Time\<close>'s zero value: January 1 of year 1, UTC.\<close>

definition zero_time :: int where "zero_time = from_unix (- 62135596800)"

record DriverRecord =
  DriverID :: string
  dr_Lat :: f64
  dr_Lng :: f64
  dr_Cell :: cell
  dr_State :: driver_state
  UpdatedAt :: int
  AvailableSince :: int

definition driverKey :: "string \<Rightarrow> string" where "driverKey driverID = ''driver:'' @ driverID"

definition cell_set_key :: "string \<Rightarrow> string" where "cell_set_key c = ''cell:'' @ c @ '':drivers''"

definition cellKey :: "'w ext \<Rightarrow> cell \<Rightarrow> string" where "cellKey X c = cell_set_key (CellString X c)"

text \<open>The Lua script, run atomically by the server.\<close>

definition moveDriverScript ::
  "'w ext \<Rightarrow> string \<Rightarrow> string \<Rightarrow> string \<Rightarrow> string \<Rightarrow> string \<Rightarrow> string \<Rightarrow> string \<Rightarrow> int \<Rightarrow> ('w, string) io" where
  "moveDriverScript X dkey newCellKey driverID lat lng newCell updatedAt ttl =
     io_bind (server_string X (HGET dkey ''cell'')) (\<lambda>oldCell.
     io_bind (case oldCell of
         Some c \<Rightarrow> if c \<noteq> newCell
                  then io_bind (server_call X (SREM (cell_set_key c) [driverID])) (\<lambda>_. io_return ())
                  else io_return ()
       | None \<Rightarrow> io_return ()) (\<lambda>_.
     io_bind (server_string X (HGET dkey ''state'')) (\<lambda>st.
     let state = (case st of None \<Rightarrow> ''AVAILABLE'' | Some s \<Rightarrow> s) in
     io_bind (server_call X (SADD newCellKey driverID)) (\<lambda>_.
     io_bind (server_call X (HSET dkey
        [(''lat'', lat), (''lng'', lng), (''cell'', newCell), (''state'', state), (''updated_at'', updatedAt)])) (\<lambda>_.
     io_bind (server_call X (EXPIRE dkey (ttl * second))) (\<lambda>_.
     io_return state))))))"

definition UpdateLocation ::
  "'w ext \<Rightarrow> int \<Rightarrow> string \<Rightarrow> f64 \<Rightarrow> f64 \<Rightarrow> ('w, event) io" where
  "UpdateLocation X res driverID lat lng =
     (case LatLngToCell X lat lng res of
        Inl e \<Rightarrow> io_fail (Errorf ''cell for'' e)
      | Inr cell \<Rightarrow>
          io_bind (\<lambda>w. request X (moveDriverScript X (driverKey driverID) (cellKey X cell) driverID
              (fmt_f64 X lat) (fmt_f64 X lng) (CellString X cell) (itoa (to_unix (wall X w)))
              (DriverLocationTTL div second)) w) (\<lambda>state.
          io_bind (io_wrap ''set available_since''
            (\<lambda>w. call_unit X (HSETNX (driverKey driverID) ''available_since'' (itoa (to_unix (wall X w)))) w)) (\<lambda>_.
          \<lambda>w. (Inr (DriverLocation \<lparr>dl_DriverID = driverID, dl_Lat = lat, dl_Lng = lng,
                 dl_Cell = CellString X cell, dl_State = state, dl_Timestamp = wall X w\<rparr>), w))))"

text \<open>
  \<open>SetState\<close> reads, checks and writes in separate requests; the part after the read is
  a definition of its own, so that theorems can put other clients in between.
\<close>

definition SetState_write :: "'w ext \<Rightarrow> string \<Rightarrow> driver_state \<Rightarrow> driver_state \<Rightarrow> ('w, unit) io" where
  "SetState_write X driverID from to =
     io_bind (io_lift (ValidateDriverTransition from to)) (\<lambda>_. \<lambda>w.
       if to = DriverAvailable
       then call_unit X (HSET (driverKey driverID)
              [(''state'', to), (''available_since'', itoa (to_unix (wall X w)))]) w
       else call_unit X (HSET (driverKey driverID) [(''state'', to)]) w)"

definition SetState :: "'w ext \<Rightarrow> string \<Rightarrow> driver_state \<Rightarrow> ('w, unit) io" where
  "SetState X driverID to =
     io_bind (io_wrap ''read state'' (call_string X (HGET (driverKey driverID) ''state''))) (\<lambda>current.
     case current of None \<Rightarrow> io_fail ErrDriverNotFound
     | Some from \<Rightarrow> SetState_write X driverID from to)"

definition parseDriverRecord :: "'w ext \<Rightarrow> string \<Rightarrow> (string \<rightharpoonup> string) \<Rightarrow> DriverRecord result" where
  "parseDriverRecord X driverID flds =
     (case ParseFloat X (field flds ''lat'') of Inl e \<Rightarrow> Inl (Errorf ''parse lat'' e) | Inr lat \<Rightarrow>
      case ParseFloat X (field flds ''lng'') of Inl e \<Rightarrow> Inl (Errorf ''parse lng'' e) | Inr lng \<Rightarrow>
      case parse_int64 (field flds ''updated_at'') of Inl e \<Rightarrow> Inl (Errorf ''parse updated_at'' e) | Inr upd \<Rightarrow>
      let raw = field flds ''available_since'' in
      case (if raw \<noteq> [] then map_sum (Errorf ''parse available_since'') from_unix (parse_int64 raw)
            else Inr zero_time) of Inl e \<Rightarrow> Inl e | Inr avail \<Rightarrow>
      Inr \<lparr>DriverID = driverID, dr_Lat = lat, dr_Lng = lng,
           dr_Cell = CellFromString X (field flds ''cell''), dr_State = field flds ''state'',
           UpdatedAt = from_unix upd, AvailableSince = avail\<rparr>)"

definition GetDriver :: "'w ext \<Rightarrow> string \<Rightarrow> ('w, DriverRecord) io" where
  "GetDriver X driverID =
     io_bind (io_wrap ''hgetall'' (call_fields X (HGETALL (driverKey driverID)))) (\<lambda>flds.
     if flds = Map.empty then io_fail ErrDriverNotFound
     else io_lift (parseDriverRecord X driverID flds))"

text \<open>The second loop of \<open>GetDrivers\<close>, over the replies in the order of the map's iteration.\<close>

fun collect_drivers :: "'w ext \<Rightarrow> (string \<times> reply) list \<Rightarrow> (string \<rightharpoonup> DriverRecord) result" where
  "collect_drivers X [] = Inr Map.empty"
| "collect_drivers X ((drv, r) # rs) =
     (case as_fields r of Inl e \<Rightarrow> Inl e | Inr flds \<Rightarrow>
        if flds = Map.empty then collect_drivers X rs
        else case parseDriverRecord X drv flds of
          Inl e \<Rightarrow> Inl (Errorf ''parse driver'' e)
        | Inr rec \<Rightarrow> map_sum (\<lambda>e. e) (\<lambda>m. m(drv \<mapsto> rec)) (collect_drivers X rs))"

definition GetDrivers :: "'w ext \<Rightarrow> string list \<Rightarrow> ('w, string \<rightharpoonup> DriverRecord) io" where
  "GetDrivers X driverIDs =
     (if driverIDs = [] then io_return Map.empty
      else let ids = remdups driverIDs in
        io_bind (io_wrap ''pipeline hgetall'' (pipeline X (map (\<lambda>id. HGETALL (driverKey id)) ids))) (\<lambda>rs.
        io_lift (collect_drivers X (zip ids rs))))"

definition DriversInCell :: "'w ext \<Rightarrow> cell \<Rightarrow> ('w, string list) io" where
  "DriversInCell X c =
     io_bind (io_wrap ''smembers'' (call_strings X (SMEMBERS (cellKey X c)))) (\<lambda>ids.
     if ids = [] then io_return []
     else io_bind (io_wrap ''exists pipeline'' (pipeline X (map (\<lambda>id. EXISTS (driverKey id)) ids))) (\<lambda>rs.
       let alive = map fst (filter (\<lambda>(id, r). r = RInt 1) (zip ids rs));
           stale = map fst (filter (\<lambda>(id, r). r \<noteq> RInt 1) (zip ids rs)) in
       if stale = [] then io_return alive
       else io_bind (io_wrap ''sweep stale drivers'' (call_unit X (SREM (cellKey X c) stale))) (\<lambda>_.
         io_return alive)))"

section \<open>Keys of different families\<close>

lemma driverKey_inj [simp]: "driverKey a = driverKey b \<longleftrightarrow> a = b"
  by (simp add: driverKey_def)

lemma cell_set_key_inj [simp]: "cell_set_key a = cell_set_key b \<longleftrightarrow> a = b"
  by (simp add: cell_set_key_def)

lemma driver_cell_keys [simp, key_simps]:
  "driverKey a \<noteq> cell_set_key c" "cell_set_key c \<noteq> driverKey a"
  by (simp_all add: driverKey_def cell_set_key_def)

section \<open>The keyspace as drivers and cell sets\<close>

definition members :: "rdb \<Rightarrow> string \<Rightarrow> string set" where
  "members d c = (case live d (cell_set_key c) of Some (RSet S, _) \<Rightarrow> S | _ \<Rightarrow> {})"

text \<open>Driver keys hold hashes; cell keys hold finite sets that never expire.\<close>

definition drv_typed :: "rdb \<Rightarrow> bool" where
  "drv_typed d \<longleftrightarrow> (\<forall>i. hash_entry (live d (driverKey i))) \<and> (\<forall>c. set_entry (live d (cell_set_key c)))"

text \<open>A driver whose hash names a cell is in that cell's set: never indexed under zero cells.\<close>

definition indexed :: "rdb \<Rightarrow> bool" where
  "indexed d \<longleftrightarrow> (\<forall>i c. hash_field d (driverKey i) ''cell'' = Some c \<longrightarrow> i \<in> members d c)"

lemma drv_typed_cases:
  assumes "drv_typed d"
  shows "live d (driverKey i) = None \<or> (\<exists>m t. live d (driverKey i) = Some (RHash m, t))"
    and "live d (cell_set_key c) = None \<or> (\<exists>S. live d (cell_set_key c) = Some (RSet S, None) \<and> finite S)"
  using assms by (auto simp: drv_typed_def hash_entry_cases set_entry_cases)

text \<open>The script's effect, as one function on the keyspace.\<close>

definition drop_old_cell :: "string \<Rightarrow> string \<Rightarrow> rdb \<Rightarrow> rdb" where
  "drop_old_cell i newCell d =
     (case hash_field d (driverKey i) ''cell'' of
        Some c \<Rightarrow> if c \<noteq> newCell then redis_effect (SREM (cell_set_key c) [i]) d else d
      | None \<Rightarrow> d)"

definition state_or_available :: "rdb \<Rightarrow> string \<Rightarrow> string" where
  "state_or_available d i =
     (case hash_field d (driverKey i) ''state'' of None \<Rightarrow> ''AVAILABLE'' | Some s \<Rightarrow> s)"

definition loc_fields :: "string \<Rightarrow> string \<Rightarrow> string \<Rightarrow> string \<Rightarrow> string \<Rightarrow> (string \<times> string) list" where
  "loc_fields lat lng c st upd =
     [(''lat'', lat), (''lng'', lng), (''cell'', c), (''state'', st), (''updated_at'', upd)]"

definition move_effect :: "string \<Rightarrow> string \<Rightarrow> string \<Rightarrow> string \<Rightarrow> string \<Rightarrow> int \<Rightarrow> rdb \<Rightarrow> rdb" where
  "move_effect i lat lng c upd ttl d =
     redis_effect (EXPIRE (driverKey i) (ttl * second))
       (redis_effect (HSET (driverKey i) (loc_fields lat lng c (state_or_available d i) upd))
         (redis_effect (SADD (cell_set_key c) i) (drop_old_cell i c d)))"

lemma live_drop_old_cell:
  assumes "drv_typed d"
  shows "live (drop_old_cell i c d) k =
    (case hash_field d (driverKey i) ''cell'' of
       Some c' \<Rightarrow> if c' \<noteq> c \<and> k = cell_set_key c' \<and> live d k \<noteq> None
         then if members d c' \<subseteq> {i} then None else Some (RSet (members d c' - {i}), None)
         else live d k
     | None \<Rightarrow> live d k)"
proof (cases "hash_field d (driverKey i) ''cell''")
  case None
  then show ?thesis by (simp add: drop_old_cell_def)
next
  case (Some c')
  then show ?thesis
    using drv_typed_cases(2) [OF assms, of c'] by (auto simp: drop_old_cell_def members_def live_effect)
qed

lemma members_drop_old_cell:
  assumes "drv_typed d"
  shows "members (drop_old_cell i c d) c' =
    (if hash_field d (driverKey i) ''cell'' = Some c' \<and> c' \<noteq> c then members d c' - {i} else members d c')"
  unfolding members_def [of "drop_old_cell i c d"] live_drop_old_cell [OF assms]
  using drv_typed_cases(2) [OF assms, of c']
  by (auto simp: members_def split: option.splits)

lemma live_drop_old_driver [simp]:
  "drv_typed d \<Longrightarrow> live (drop_old_cell i c d) (driverKey j) = live d (driverKey j)"
  by (simp add: live_drop_old_cell split: option.splits)

lemma rnow_drop_old_cell [simp]: "rnow (drop_old_cell i c d) = rnow d"
  by (auto simp: drop_old_cell_def split: option.splits)

lemma hash_field_after_drop [simp]:
  "drv_typed d \<Longrightarrow> hash_field (drop_old_cell i c d) (driverKey j) = hash_field d (driverKey j)"
  by (simp add: hash_field_def fun_eq_iff)

text \<open>The script in terms of drivers and sets.\<close>

lemma typed_sets [simp]:
  assumes "drv_typed d"
  shows "drv_typed (redis_effect (SADD (cell_set_key c) i) d)"
    "drv_typed (redis_effect (SREM (cell_set_key c) xs) d)"
  using assms by (auto simp: drv_typed_def live_effect simp del: cmd_value.simps)

lemma typed_driver_writes [simp]:
  assumes "drv_typed d"
  shows "drv_typed (redis_effect (HSET (driverKey i) fvs) d)"
    "drv_typed (redis_effect (HSETNX (driverKey i) f v) d)"
    "drv_typed (redis_effect (EXPIRE (driverKey i) n) d)"
  using assms by (auto simp: drv_typed_def live_effect simp del: cmd_value.simps)

lemma typed_drop_old_cell: "drv_typed d \<Longrightarrow> drv_typed (drop_old_cell i c d)"
  by (simp add: drop_old_cell_def split: option.splits)

lemma typed_move: "drv_typed d \<Longrightarrow> drv_typed (move_effect i lat lng c upd ttl d)"
  unfolding move_effect_def
  by (intro typed_driver_writes typed_sets typed_drop_old_cell)

lemma members_sadd [simp]:
  assumes "drv_typed d"
  shows "members (redis_effect (SADD (cell_set_key c) i) d) c' = (if c' = c then insert i (members d c) else members d c')"
  using drv_typed_cases(2) [OF assms, of c] by (auto simp: members_def live_effect)

lemma members_srem [simp]:
  assumes "drv_typed d"
  shows "members (redis_effect (SREM (cell_set_key c) xs) d) c' = (if c' = c then members d c - set xs else members d c')"
  using drv_typed_cases(2) [OF assms, of c] by (auto simp: members_def live_effect split: if_splits)

lemma members_driver_writes [simp]:
  "members (redis_effect (HSET (driverKey i) fvs) d) c = members d c"
  "members (redis_effect (HSETNX (driverKey i) f v) d) c = members d c"
  "members (redis_effect (EXPIRE (driverKey i) n) d) c = members d c"
  by (auto simp: members_def live_effect)

lemma hash_field_sets [simp]:
  "hash_field (redis_effect (SADD (cell_set_key c) x) d) (driverKey i) = hash_field d (driverKey i)"
  "hash_field (redis_effect (SREM (cell_set_key c) xs) d) (driverKey i) = hash_field d (driverKey i)"
  by (auto simp: hash_field_def live_effect fun_eq_iff)

lemma hash_field_hset:
  assumes "drv_typed d"
  shows "hash_field (redis_effect (HSET (driverKey i) fvs) d) (driverKey j) f =
    (if j = i then put_fields fvs (\<lambda>f. hash_field d (driverKey i) f) f else hash_field d (driverKey j) f)"
  using drv_typed_cases(1) [OF assms, of i] by (auto simp: hash_field_def live_effect)

lemma hash_field_hsetnx:
  assumes "drv_typed d"
  shows "hash_field (redis_effect (HSETNX (driverKey i) f v) d) (driverKey j) g =
    (if j = i \<and> g = f \<and> hash_field d (driverKey i) f = None then Some v else hash_field d (driverKey j) g)"
  using drv_typed_cases(1) [OF assms, of i] by (auto simp: hash_field_def live_effect)

lemma hash_field_expire:
  "0 < n \<Longrightarrow> hash_field (redis_effect (EXPIRE k n) d) k' f = hash_field d k' f"
  by (auto simp: hash_field_def live_effect split: option.splits)

lemma members_move:
  assumes "drv_typed d"
  shows "members (move_effect i lat lng c upd ttl d) c' =
    (if c' = c then insert i (members d c)
     else if hash_field d (driverKey i) ''cell'' = Some c' then members d c' - {i} else members d c')"
  using assms by (auto simp: move_effect_def typed_drop_old_cell members_drop_old_cell)

lemma hash_field_move:
  assumes "drv_typed d" "0 < ttl"
  shows "hash_field (move_effect i lat lng c upd ttl d) (driverKey j) f =
    (if j = i then put_fields (loc_fields lat lng c (state_or_available d i) upd) (\<lambda>f. hash_field d (driverKey i) f) f
     else hash_field d (driverKey j) f)"
  using assms
  by (simp add: move_effect_def hash_field_expire hash_field_hset typed_drop_old_cell second_def)

section \<open>Never under zero cells\<close>

lemma indexed_move:
  assumes "drv_typed d" "indexed d" "0 < ttl"
  shows "indexed (move_effect i lat lng c upd ttl d)"
  using assms
  by (auto simp: indexed_def hash_field_move members_move loc_fields_def split: if_splits)

lemma indexed_hset:
  assumes "drv_typed d" "indexed d" "''cell'' \<notin> fst ` set fvs"
  shows "indexed (redis_effect (HSET (driverKey i) fvs) d)"
proof -
  have "put_fields fvs m ''cell'' = m ''cell''" for m
    using assms(3) by (induction fvs arbitrary: m) auto
  then show ?thesis using assms by (auto simp: indexed_def hash_field_hset split: if_splits)
qed

lemma indexed_hsetnx:
  assumes "drv_typed d" "indexed d" "f \<noteq> ''cell''"
  shows "indexed (redis_effect (HSETNX (driverKey i) f v) d)"
  using assms by (auto simp: indexed_def hash_field_hsetnx split: if_splits)

definition index_inv :: "rdb \<Rightarrow> bool" where
  "index_inv d \<longleftrightarrow> drv_typed d \<and> indexed d"

lemma index_inv_elapse: "index_inv d \<Longrightarrow> index_inv (elapse dt d)"
proof -
  assume a: "index_inv d"
  have "members (elapse dt d) c = members d c" for c
    using a drv_typed_cases(2) [of d c] by (auto simp: index_inv_def members_def elapse_def)
  moreover have "hash_field (elapse dt d) (driverKey i) f = Some v \<Longrightarrow> hash_field d (driverKey i) f = Some v" for i f v
    by (auto simp: hash_field_def elapse_def split: option.splits rval.splits if_splits)
  moreover have "drv_typed (elapse dt d)"
    using a by (auto simp: index_inv_def drv_typed_def entry_elapse)
  ultimately show ?thesis using a by (auto simp: index_inv_def indexed_def)
qed

section \<open>The script, run by the server\<close>

context redis_server
begin

lemma drop_old_cell_run:
  assumes "drv_typed (db X w)" and "hash_field (db X w) (driverKey i) ''cell'' = old"
  shows "\<exists>w'. (case old of
       Some c' \<Rightarrow> if c' \<noteq> c then io_bind (server_call X (SREM (cell_set_key c') [i])) (\<lambda>_. io_return ())
                else io_return ()
     | None \<Rightarrow> io_return ()) w = (Inr (), w') \<and> db X w' = drop_old_cell i c (db X w)"
proof (cases old)
  case None
  then show ?thesis using assms(2) by (simp add: drop_old_cell_def)
next
  case (Some c')
  obtain r where "fst (server_call X (SREM (cell_set_key c') [i]) w) = Inr r"
    using assms(1) server_write(4) [of w "cell_set_key c'" "[i]"] unfolding drv_typed_def by blast
  then show ?thesis using Some assms(2) by (simp add: drop_old_cell_def io_known)
qed

lemma moveDriverScript_run:
  assumes "drv_typed (db X w)"
  obtains w' where
    "moveDriverScript X (driverKey i) (cell_set_key c) i lat lng c upd ttl w
       = (Inr (state_or_available (db X w) i), w')"
    and "db X w' = move_effect i lat lng c upd ttl (db X w)"
proof -
  let ?old = "hash_field (db X w) (driverKey i) ''cell''"
  let ?w1 = "snd (server_string X (HGET (driverKey i) ''cell'') w)"
  have d1: "db X ?w1 = db X w" by simp
  obtain w2 where w2: "(case ?old of
       Some c' \<Rightarrow> if c' \<noteq> c then io_bind (server_call X (SREM (cell_set_key c') [i])) (\<lambda>_. io_return ())
                else io_return ()
     | None \<Rightarrow> io_return ()) ?w1 = (Inr (), w2)"
    and d2: "db X w2 = drop_old_cell i c (db X w)"
    using drop_old_cell_run [of ?w1 i ?old c] assms d1 by auto
  let ?w3 = "snd (server_string X (HGET (driverKey i) ''state'') w2)"
  have t2: "drv_typed (db X w2)" using assms d2 typed_drop_old_cell by simp
  have st: "fst (server_string X (HGET (driverKey i) ''state'') w2)
      = Inr (hash_field (db X w) (driverKey i) ''state'')"
    using server_hget [of w2 "driverKey i" "''state''"] t2 assms d2 by (simp add: drv_typed_def)
  have d3: "db X ?w3 = drop_old_cell i c (db X w)" using d2 by simp
  obtain r4 where r4: "fst (server_call X (SADD (cell_set_key c) i) ?w3) = Inr r4"
    using server_write(3) [of ?w3 "cell_set_key c" i] t2 d2 d3 by (auto simp: drv_typed_def)
  let ?w4 = "snd (server_call X (SADD (cell_set_key c) i) ?w3)"
  let ?hs = "HSET (driverKey i) [(''lat'', lat), (''lng'', lng), (''cell'', c),
      (''state'', state_or_available (db X w) i), (''updated_at'', upd)]"
  have "drv_typed (db X ?w4)" using t2 d2 d3 by simp
  then obtain r5 where r5: "fst (server_call X ?hs ?w4) = Inr r5"
    using server_write(1) [of ?w4 "driverKey i"] unfolding drv_typed_def by blast
  let ?w5 = "snd (server_call X ?hs ?w4)"
  obtain r6 where r6: "fst (server_call X (EXPIRE (driverKey i) (ttl * second)) ?w5) = Inr r6"
    using server_write(5) by blast
  have o: "fst (server_string X (HGET (driverKey i) ''cell'') w) = Inr ?old"
    using server_hget assms by (simp add: drv_typed_def)
  have "moveDriverScript X (driverKey i) (cell_set_key c) i lat lng c upd ttl w
      = (Inr (state_or_available (db X w) i), snd (server_call X (EXPIRE (driverKey i) (ttl * second)) ?w5))"
    using r4 r5 r6
    using o w2 st
    by (simp add: moveDriverScript_def io_bind_ok state_or_available_def [symmetric] Let_def)
  moreover have "db X (snd (server_call X (EXPIRE (driverKey i) (ttl * second)) ?w5))
      = move_effect i lat lng c upd ttl (db X w)"
    using d3 by (simp add: move_effect_def loc_fields_def)
  ultimately show thesis by (rule that)
qed

text \<open>The same for a request that may be lost, or whose reply may be.\<close>

lemma index_inv_move: "index_inv d \<Longrightarrow> 0 < ttl \<Longrightarrow> index_inv (move_effect i lat lng c upd ttl d)"
  by (simp add: index_inv_def typed_move indexed_move)

lemma UpdateLocation_keeps:
  assumes env: "env_keeps index_inv" and inv: "index_inv (db X w)"
  shows "index_inv (db X (snd (UpdateLocation X res i lat lng w)))"
proof -
  have move: "index_inv (db X (snd (moveDriverScript X (driverKey i) (cellKey X c) i a b (CellString X c) u
      (DriverLocationTTL div second) w)))" if "index_inv (db X w)" for w c a b u
  proof -
    obtain w' where "moveDriverScript X (driverKey i) (cell_set_key (CellString X c)) i a b (CellString X c) u
        (DriverLocationTTL div second) w = (Inr (state_or_available (db X w) i), w')"
      and "db X w' = move_effect i a b (CellString X c) u (DriverLocationTTL div second) (db X w)"
      using moveDriverScript_run \<open>index_inv (db X w)\<close> unfolding index_inv_def by blast
    then show ?thesis
      using that index_inv_move by (simp add: cellKey_def DriverLocationTTL_def second_def)
  qed
  have nx: "index_inv (redis_effect (HSETNX (driverKey i) ''available_since'' v) d)" if "index_inv d" for v d
    using that by (simp add: index_inv_def indexed_hsetnx)
  show ?thesis
    unfolding UpdateLocation_def
    by (auto split: sum.splits intro!: inv io_bind_inv [where I = "\<lambda>w. index_inv (db X w)"]
        request_inv [OF env] move call_typed_inv(4) [OF env] nx)
qed

lemma SetState_keeps:
  assumes env: "env_keeps index_inv" and inv: "index_inv (db X w)"
  shows "index_inv (db X (snd (SetState X i to w)))"
proof -
  have hset: "index_inv (redis_effect (HSET (driverKey i) fvs) d)"
    if "index_inv d" "''cell'' \<notin> fst ` set fvs" for fvs d
    using that by (simp add: index_inv_def indexed_hset)
  have w: "index_inv (db X (snd (SetState_write X i st to w)))" if "index_inv (db X w)" for st w
    unfolding SetState_write_def
    by (auto intro!: that io_bind_inv [where I = "\<lambda>w. index_inv (db X w)"]
        call_typed_inv(4) [OF env] hset)
  show ?thesis
    unfolding SetState_def
    by (auto split: option.splits intro!: inv w io_bind_inv [where I = "\<lambda>w. index_inv (db X w)"]
        call_typed_inv(1) [OF env])
qed

end

section \<open>What the methods compute when nobody interferes\<close>

text \<open>
  The abstract driver store: the record a keyspace holds for a driver, and the live
  members of a cell.
\<close>

definition driver_at :: "'w ext \<Rightarrow> rdb \<Rightarrow> string \<Rightarrow> DriverRecord result" where
  "driver_at X d i =
     (let flds = hash_field d (driverKey i) in
      if flds = Map.empty then Inl ErrDriverNotFound else parseDriverRecord X i flds)"

definition alive :: "rdb \<Rightarrow> string \<Rightarrow> bool" where
  "alive d i \<longleftrightarrow> live d (driverKey i) \<noteq> None"

lemma alive_if_field: "hash_field d (driverKey i) f = Some v \<Longrightarrow> alive d i"
  by (auto simp: hash_field_def alive_def split: option.splits)

definition drivers_found :: "'w ext \<Rightarrow> rdb \<Rightarrow> string list \<Rightarrow> (string \<rightharpoonup> DriverRecord)" where
  "drivers_found X d is = (\<lambda>i. if i \<in> set is \<and> hash_field d (driverKey i) \<noteq> Map.empty
     then (case driver_at X d i of Inr r \<Rightarrow> Some r | Inl _ \<Rightarrow> None) else None)"

lemma collect_drivers_found:
  assumes "\<forall>i \<in> set is. hash_field d (driverKey i) \<noteq> Map.empty \<longrightarrow> (\<exists>r. driver_at X d i = Inr r)"
  shows "collect_drivers X (zip is (map (\<lambda>i. RMap (hash_field d (driverKey i))) is))
    = Inr (drivers_found X d is)"
  using assms
proof (induction "is")
  case Nil
  show ?case by (simp add: drivers_found_def)
next
  case (Cons i js)
  have IH: "collect_drivers X (zip js (map (\<lambda>i. RMap (hash_field d (driverKey i))) js))
      = Inr (drivers_found X d js)"
    using Cons by simp
  show ?case
  proof (cases "hash_field d (driverKey i) = Map.empty")
    case True
    then show ?thesis using IH by (auto simp: as_fields_def drivers_found_def fun_eq_iff)
  next
    case False
    then obtain r where "driver_at X d i = Inr r" using Cons.prems by auto
    with False have "parseDriverRecord X i (hash_field d (driverKey i)) = Inr r"
      by (simp add: driver_at_def Let_def)
    moreover have "drivers_found X d (i # js) = (drivers_found X d js)(i \<mapsto> r)"
      using False \<open>driver_at X d i = Inr r\<close> by (intro ext) (simp add: drivers_found_def)
    ultimately show ?thesis using IH False by (simp add: as_fields_def, simp add: fun_eq_iff)
  qed
qed

lemma collect_drivers_fails:
  assumes "i \<in> set is" "hash_field d (driverKey i) \<noteq> Map.empty" "driver_at X d i = Inl e"
  shows "\<exists>e'. collect_drivers X (zip is (map (\<lambda>i. RMap (hash_field d (driverKey i))) is)) = Inl (Errorf ''parse driver'' e')"
  using assms(1)
proof (induction "is")
  case (Cons j js)
  show ?case
  proof (cases "\<exists>e'. hash_field d (driverKey j) \<noteq> Map.empty \<and> driver_at X d j = Inl e'")
    case True
    then show ?thesis by (auto simp: as_fields_def driver_at_def Let_def)
  next
    case False
    with Cons.prems assms(2,3) have "i \<in> set js" by auto
    with Cons.IH obtain e' where "collect_drivers X (zip js (map (\<lambda>i. RMap (hash_field d (driverKey i))) js)) = Inl (Errorf ''parse driver'' e')"
      by blast
    with False show ?thesis
      by (cases "driver_at X d j") (auto simp: as_fields_def driver_at_def Let_def)
  qed
qed simp

context quiet_redis
begin

lemma GetDriver_quiet:
  assumes "drv_typed (db X w)"
  shows "fst (GetDriver X i w) = driver_at X (db X w) i" and "db X (snd (GetDriver X i w)) = db X w"
proof -
  have "fst (call_fields X (HGETALL (driverKey i)) w) = Inr (hash_field (db X w) (driverKey i))"
    using assms typed_reads(3) unfolding drv_typed_def by blast
  then show "fst (GetDriver X i w) = driver_at X (db X w) i" "db X (snd (GetDriver X i w)) = db X w"
    by (simp_all add: GetDriver_def io_known driver_at_def)
qed

lemma GetDrivers_replies:
  assumes "drv_typed (db X w)" and "is \<noteq> []"
  defines "js \<equiv> remdups is"
  shows "fst (GetDrivers X is w) = collect_drivers X (zip js (map (\<lambda>i. RMap (hash_field (db X w) (driverKey i))) js))"
    and "db X (snd (GetDrivers X is w)) = db X w"
proof -
  let ?cs = "map (\<lambda>i. HGETALL (driverKey i)) js"
  have p: "fst (pipeline X ?cs w) = Inr (map (\<lambda>c. RMap (hash_field (db X w) (cmd_key c))) ?cs)
      \<and> db X (snd (pipeline X ?cs w)) = db X w"
    using assms(1) by (intro pipeline_quiet) (auto simp: read_replies drv_typed_def)
  then have *: "fst (pipeline X ?cs w) = Inr (map (\<lambda>i. RMap (hash_field (db X w) (driverKey i))) js)"
    by (simp add: comp_def)
  show "fst (GetDrivers X is w) = collect_drivers X (zip js (map (\<lambda>i. RMap (hash_field (db X w) (driverKey i))) js))"
    using assms(2) * by (simp add: GetDrivers_def Let_def js_def [symmetric] io_known)
  show "db X (snd (GetDrivers X is w)) = db X w"
    using assms(2) * p by (simp add: GetDrivers_def Let_def js_def [symmetric] io_known)
qed

lemma GetDrivers_quiet:
  assumes "drv_typed (db X w)"
    and "\<forall>i \<in> set is. hash_field (db X w) (driverKey i) \<noteq> Map.empty \<longrightarrow> (\<exists>r. driver_at X (db X w) i = Inr r)"
  shows "fst (GetDrivers X is w) = Inr (drivers_found X (db X w) is)"
proof (cases "is = []")
  case True
  then show ?thesis by (simp add: GetDrivers_def drivers_found_def)
next
  case False
  have "drivers_found X (db X w) (remdups is) = drivers_found X (db X w) is"
    by (simp add: drivers_found_def)
  then show ?thesis
    using assms(2) GetDrivers_replies(1) [OF assms(1) False]
      collect_drivers_found [of "remdups is" "db X w" X] by simp
qed

end

text \<open>\<open>SetState\<close> as a function on the keyspace.\<close>

definition state_fields :: "driver_state \<Rightarrow> int \<Rightarrow> (string \<times> string) list" where
  "state_fields to now =
     (if to = DriverAvailable then [(''state'', to), (''available_since'', itoa now)] else [(''state'', to)])"

definition set_driver_state :: "string \<Rightarrow> driver_state \<Rightarrow> int \<Rightarrow> rdb \<Rightarrow> rdb" where
  "set_driver_state i to now d = redis_effect (HSET (driverKey i) (state_fields to now)) d"

context quiet_redis
begin

lemma SetState_write_quiet:
  assumes "drv_typed (db X w)" "driver_edge st to"
  shows "fst (SetState_write X i st to w) = Inr ()"
    and "db X (snd (SetState_write X i st to w)) = set_driver_state i to (to_unix (wall X w)) (db X w)"
proof -
  have v: "ValidateDriverTransition st to = Inr ()"
    using assms(2) by (simp add: validate_driver)
  have h: "\<And>fvs. fst (call_unit X (HSET (driverKey i) fvs) w) = Inr ()"
    using assms(1) typed_writes(1) unfolding drv_typed_def by blast
  show "fst (SetState_write X i st to w) = Inr ()"
    "db X (snd (SetState_write X i st to w)) = set_driver_state i to (to_unix (wall X w)) (db X w)"
    using h by (simp_all add: SetState_write_def v io_known set_driver_state_def state_fields_def)
qed

lemma SetState_write_refused:
  "\<not> driver_edge st to \<Longrightarrow> SetState_write X i st to w = (Inl (ErrIllegalDriverTransition st to), w)"
  by (simp add: SetState_write_def validate_driver io_known)

lemma SetState_quiet:
  fixes i "to" w
  assumes "drv_typed (db X w)"
  defines "r \<equiv> SetState X i to w"
    and "old \<equiv> hash_field (db X w) (driverKey i) ''state''"
  shows "fst r = (case old of None \<Rightarrow> Inl ErrDriverNotFound
      | Some st \<Rightarrow> if driver_edge st to then Inr () else Inl (ErrIllegalDriverTransition st to))"
    and "\<exists>now. db X (snd r) = (case old of None \<Rightarrow> db X w
      | Some st \<Rightarrow> if driver_edge st to then set_driver_state i to now (db X w) else db X w)"
proof -
  let ?w = "snd (call_string X (HGET (driverKey i) ''state'') w)"
  have h: "fst (call_string X (HGET (driverKey i) ''state'') w) = Inr old"
    using assms(1) typed_reads(2) unfolding drv_typed_def old_def by blast
  have r: "r = (case old of None \<Rightarrow> (Inl ErrDriverNotFound, ?w) | Some st \<Rightarrow> SetState_write X i st to ?w)"
    using h by (simp add: r_def SetState_def io_known split: option.splits)
  have t: "drv_typed (db X ?w)" using assms(1) by simp
  show "fst r = (case old of None \<Rightarrow> Inl ErrDriverNotFound
      | Some st \<Rightarrow> if driver_edge st to then Inr () else Inl (ErrIllegalDriverTransition st to))"
    using SetState_write_quiet(1) [OF t] SetState_write_refused
    by (auto simp: r split: option.splits)
  show "\<exists>now. db X (snd r) = (case old of None \<Rightarrow> db X w
      | Some st \<Rightarrow> if driver_edge st to then set_driver_state i to now (db X w) else db X w)"
    using SetState_write_quiet(2) [OF t] SetState_write_refused
    by (auto simp: r split: option.splits)
qed

lemma DriversInCell_quiet:
  fixes c w
  assumes "drv_typed (db X w)"
  defines "r \<equiv> DriversInCell X c w" and "S \<equiv> members (db X w) (CellString X c)"
  shows "\<exists>is. fst r = Inr is \<and> distinct is \<and> set is = {i \<in> S. alive (db X w) i}"
    and "db X (snd r) = db X w \<and> (\<forall>i \<in> S. alive (db X w) i) \<or>
         (\<exists>xs. set xs = {i \<in> S. \<not> alive (db X w) i} \<and> db X (snd r) = redis_effect (SREM (cellKey X c) xs) (db X w))"
proof -
  have k: "set_entry (live (db X w) (cellKey X c))" using assms(1) by (simp add: drv_typed_def cellKey_def)
  obtain ids where ids: "fst (call_strings X (SMEMBERS (cellKey X c)) w) = Inr ids" "distinct ids" "set ids = S"
    using typed_reads(4) [OF k] by (auto simp: S_def members_def set_at_def cellKey_def)
  let ?w1 = "snd (call_strings X (SMEMBERS (cellKey X c)) w)"
  let ?cs = "map (\<lambda>i. EXISTS (driverKey i)) ids"
  let ?up = "\<lambda>i. RInt (if live (db X w) (driverKey i) = None then 0 else 1)"
  have "fst (pipeline X ?cs ?w1) = Inr (map (\<lambda>c. RInt (if live (db X w) (cmd_key c) = None then 0 else 1)) ?cs)
      \<and> db X (snd (pipeline X ?cs ?w1)) = db X ?w1"
    by (intro pipeline_quiet) (auto simp: read_replies)
  then have p: "fst (pipeline X ?cs ?w1) = Inr (map ?up ids)" "db X (snd (pipeline X ?cs ?w1)) = db X w"
    by (simp_all add: comp_def)
  let ?w2 = "snd (pipeline X ?cs ?w1)"
  have zip: "filter (\<lambda>(i, r). Q r) (zip ids (map ?up ids)) = map (\<lambda>i. (i, ?up i)) (filter (\<lambda>i. Q (?up i)) ids)" for Q
    by (induction ids) auto
  let ?al = "filter (\<lambda>i. alive (db X w) i) ids" and ?st = "filter (\<lambda>i. \<not> alive (db X w) i) ids"
  have f: "map fst (filter (\<lambda>(i, r). r = RInt 1) (zip ids (map ?up ids))) = ?al"
    "map fst (filter (\<lambda>(i, r). r \<noteq> RInt 1) (zip ids (map ?up ids))) = ?st"
    unfolding zip by (auto simp: comp_def alive_def intro: filter_cong)
  have r: "r = (if ids = [] then (Inr [], ?w1) else if ?st = [] then (Inr ?al, ?w2)
      else (io_bind (io_wrap ''sweep stale drivers'' (call_unit X (SREM (cellKey X c) ?st))) (\<lambda>_. io_return ?al)) ?w2)"
    using ids(1) p(1) f by (simp add: r_def DriversInCell_def io_known Let_def del: map_is_Nil_conv list.map_disc_iff)
  have "set_entry (live (db X ?w2) (cellKey X c))" using k p(2) by simp
  then have u: "fst (call_unit X (SREM (cellKey X c) ?st) ?w2) = Inr ()" by (rule typed_writes(4))
  have "fst r = Inr ?al" using r u by (auto simp: io_known)
  then show "\<exists>is. fst r = Inr is \<and> distinct is \<and> set is = {i \<in> S. alive (db X w) i}"
    using ids by auto
  have "db X (snd r) = (if ?st = [] then db X w else redis_effect (SREM (cellKey X c) ?st) (db X w))"
    using r u p(2) by (auto simp: io_known)
  moreover have "set ?st = {i \<in> S. \<not> alive (db X w) i}" using ids by auto
  ultimately show "db X (snd r) = db X w \<and> (\<forall>i \<in> S. alive (db X w) i) \<or>
      (\<exists>xs. set xs = {i \<in> S. \<not> alive (db X w) i} \<and> db X (snd r) = redis_effect (SREM (cellKey X c) xs) (db X w))"
    by (metis (mono_tags, lifting) empty_iff empty_set mem_Collect_eq)
qed

end

context quiet_redis
begin

lemma UpdateLocation_quiet:
  assumes t: "drv_typed (db X w)" and c: "LatLngToCell X lat lng res = Inr c"
  obtains since w1 w2 where "UpdateLocation X res i lat lng w
      = (Inr (DriverLocation \<lparr>dl_DriverID = i, dl_Lat = lat, dl_Lng = lng, dl_Cell = CellString X c,
          dl_State = state_or_available (db X w) i, dl_Timestamp = wall X w2\<rparr>), w2)"
    and "since = itoa (to_unix (wall X w1))"
    and "db X w2 = redis_effect (HSETNX (driverKey i) ''available_since'' since)
      (move_effect i (fmt_f64 X lat) (fmt_f64 X lng) (CellString X c) (itoa (to_unix (wall X w))) 30 (db X w))"
proof -
  have ttl: "DriverLocationTTL div second = 30" by (simp add: DriverLocationTTL_def second_def)
  let ?w0 = "snd (link X w)" and ?u = "itoa (to_unix (wall X w))"
  have d0: "db X ?w0 = db X w" by simp
  obtain w1 where w1: "moveDriverScript X (driverKey i) (cell_set_key (CellString X c)) i (fmt_f64 X lat) (fmt_f64 X lng)
        (CellString X c) ?u 30 ?w0 = (Inr (state_or_available (db X w) i), w1)"
    and d1: "db X w1 = move_effect i (fmt_f64 X lat) (fmt_f64 X lng) (CellString X c) ?u 30 (db X w)"
    using moveDriverScript_run [of ?w0 i "CellString X c" "fmt_f64 X lat" "fmt_f64 X lng" ?u 30] t d0 by metis
  let ?since = "itoa (to_unix (wall X w1))"
  let ?nx = "call_unit X (HSETNX (driverKey i) ''available_since'' ?since)"
  have "drv_typed (db X w1)" using t d1 typed_move by simp
  then have "fst (?nx w1) = Inr ()" using typed_writes(2) unfolding drv_typed_def by blast
  then have "UpdateLocation X res i lat lng w
      = (Inr (DriverLocation \<lparr>dl_DriverID = i, dl_Lat = lat, dl_Lng = lng, dl_Cell = CellString X c,
          dl_State = state_or_available (db X w) i, dl_Timestamp = wall X (snd (?nx w1))\<rparr>), snd (?nx w1))"
    using w1 by (simp add: UpdateLocation_def c request_quiet cellKey_def ttl io_known io_bind_def)
  moreover have "db X (snd (?nx w1)) = redis_effect (HSETNX (driverKey i) ''available_since'' ?since)
      (move_effect i (fmt_f64 X lat) (fmt_f64 X lng) (CellString X c) ?u 30 (db X w))"
    by (simp add: d1)
  ultimately show thesis using that by blast
qed

end

definition after_ping ::
  "'w ext \<Rightarrow> string \<Rightarrow> f64 \<Rightarrow> f64 \<Rightarrow> cell \<Rightarrow> string \<Rightarrow> string \<Rightarrow> rdb \<Rightarrow> rdb" where
  "after_ping X i lat lng c upd since d =
     redis_effect (HSETNX (driverKey i) ''available_since'' since)
       (move_effect i (fmt_f64 X lat) (fmt_f64 X lng) (CellString X c) upd 30 d)"

lemma after_ping_fields:
  assumes "drv_typed d"
  shows "hash_field (after_ping X i lat lng c upd since d) (driverKey i) =
    (hash_field d (driverKey i))(''lat'' \<mapsto> fmt_f64 X lat, ''lng'' \<mapsto> fmt_f64 X lng, ''cell'' \<mapsto> CellString X c,
       ''state'' \<mapsto> state_or_available d i, ''updated_at'' \<mapsto> upd,
       ''available_since'' \<mapsto> (case hash_field d (driverKey i) ''available_since'' of None \<Rightarrow> since | Some s \<Rightarrow> s))"
  using assms
  by (intro ext) (auto simp: after_ping_def hash_field_hsetnx hash_field_move typed_move loc_fields_def split: option.splits)

lemma after_ping_members:
  "drv_typed d \<Longrightarrow> members (after_ping X i lat lng c upd since d) c' =
    (if c' = CellString X c then insert i (members d c')
     else if hash_field d (driverKey i) ''cell'' = Some c' then members d c' - {i} else members d c')"
  by (simp add: after_ping_def members_move)

lemma after_ping_typed: "drv_typed d \<Longrightarrow> drv_typed (after_ping X i lat lng c upd since d)"
  by (simp add: after_ping_def typed_move)

lemma after_ping_expiry:
  assumes "drv_typed d"
  shows "\<exists>m. live (after_ping X i lat lng c upd since d) (driverKey i) = Some (RHash m, Some (rnow d + DriverLocationTTL))"
  using drv_typed_cases(1) [OF assms, of i] assms
  by (auto simp: after_ping_def move_effect_def live_effect DriverLocationTTL_def second_def)

context quiet_store
begin

lemma ping_then_read:
  assumes t: "drv_typed (db X w)" and c: "LatLngToCell X lat lng res = Inr c"
    and fl: "is_f64 lat" "is_f64 lng"
    and since: "hash_field (db X w) (driverKey i) ''available_since'' \<in> insert None ((\<lambda>n. Some (itoa n)) ` Collect in_i64)"
  shows "\<exists>ev w' rec. UpdateLocation X res i lat lng w = (Inr (DriverLocation ev), w') \<and>
     fst (GetDriver X i w') = Inr rec \<and>
     DriverID rec = i \<and> dr_Lat rec = lat \<and> dr_Lng rec = lng \<and> dr_Cell rec = c \<and>
     dr_State rec = state_or_available (db X w) i \<and> dl_State ev = dr_State rec \<and>
     dl_Cell ev = CellString X c \<and> UpdatedAt rec = from_unix (to_unix (wall X w)) \<and>
     i \<in> members (db X w') (CellString X c)"
proof -
  obtain s w1 w2 where u: "UpdateLocation X res i lat lng w
      = (Inr (DriverLocation \<lparr>dl_DriverID = i, dl_Lat = lat, dl_Lng = lng, dl_Cell = CellString X c,
          dl_State = state_or_available (db X w) i, dl_Timestamp = wall X w2\<rparr>), w2)"
    and s: "s = itoa (to_unix (wall X w1))"
    and d2: "db X w2 = after_ping X i lat lng c (itoa (to_unix (wall X w))) s (db X w)"
    using UpdateLocation_quiet [OF t c, of i thesis] unfolding after_ping_def by blast
  let ?av = "case hash_field (db X w) (driverKey i) ''available_since'' of None \<Rightarrow> s | Some v \<Rightarrow> v"
  obtain n where n: "?av = itoa n" "in_i64 n" using since s clock_range by (auto split: option.splits)
  have ne: "itoa n \<noteq> []" using parse_int64_itoa [OF n(2)] parse_int64_empty by (metis Inl_Inr_False)
  have "\<exists>rec. parseDriverRecord X i (hash_field (db X w2) (driverKey i)) = Inr rec \<and>
      DriverID rec = i \<and> dr_Lat rec = lat \<and> dr_Lng rec = lng \<and> dr_Cell rec = c \<and>
      dr_State rec = state_or_available (db X w) i \<and> UpdatedAt rec = from_unix (to_unix (wall X w))"
    unfolding d2 after_ping_fields [OF t] n(1)
    using ne n(2) by (simp add: parseDriverRecord_def parse_fmt fl clock_range cell_roundtrip)
  moreover have "hash_field (db X w2) (driverKey i) \<noteq> Map.empty"
    unfolding d2 after_ping_fields [OF t] by simp
  moreover have "fst (GetDriver X i w2) = driver_at X (db X w2) i"
    by (rule GetDriver_quiet(1)) (simp add: d2 after_ping_typed t)
  moreover have "i \<in> members (db X w2) (CellString X c)"
    by (simp add: d2 after_ping_members t)
  ultimately show ?thesis using u by (auto simp: driver_at_def Let_def)
qed

end

section \<open>Properties of the driver store\<close>

lemma index_inv_empty [simp]: "index_inv empty_db"
  by (simp add: index_inv_def drv_typed_def indexed_def hash_field_def empty_db_def)

lemma index_inv_time: "time_passes d d' \<Longrightarrow> index_inv d \<Longrightarrow> index_inv d'"
  by (auto simp: time_passes_def index_inv_elapse)

text \<open>
  C23. Never under zero cells: whatever the network loses and whatever other clients do
  before each request, as long as they keep the index invariant themselves, a location
  ping and a state change keep it: every driver whose record names a cell is a member of
  that cell's set, and every key holds the type the code expects.
\<close>

theorem DriverStore_index_invariant:
  assumes "redis_server X env"
    and "\<forall>d d'. env d d' \<longrightarrow> index_inv d \<longrightarrow> index_inv d'"
    and "index_inv (db X w)"
  shows "index_inv (db X (snd (UpdateLocation X res i lat lng w))) \<and>
    index_inv (db X (snd (SetState X i to w)))"
proof -
  have "redis_server.env_keeps env index_inv"
    using assms(2) by (auto simp: redis_server.env_keeps_def [OF assms(1)])
  with assms(1,3) show ?thesis
    by (simp add: redis_server.UpdateLocation_keeps redis_server.SetState_keeps)
qed

theorem DriverStore_index_invariant_witness:
  "index_inv (db ticking_world (snd (UpdateLocation ticking_world 8 ''d1'' (Fin 12) (Fin 77)
      (empty_db, [(Some (ReplyLost ''i/o timeout''), second)])))) \<and>
   index_inv (db ticking_world (snd (SetState ticking_world ''d1'' DriverOffered
      (empty_db, [(None, 40 * second)]))))"
proof -
  have e: "\<forall>d d'. time_passes d d' \<longrightarrow> index_inv d \<longrightarrow> index_inv d'"
    using index_inv_time by blast
  have s: "index_inv (db ticking_world (empty_db, ts0))" for ts0
    by (simp add: ticking_world_def)
  show ?thesis
    using DriverStore_index_invariant [OF ticking.redis_server_axioms e s] by blast
qed

text \<open>
  C33. A ping is read back: after a ping at a position that lies in cell \<open>c\<close>, reading the
  driver returns that position, cell and time (in whole seconds) and the state the
  driver had, \<open>AVAILABLE\<close> for one not seen before; the published event carries the same
  cell and state, and the driver is a member of the cell's set.
\<close>

theorem UpdateLocation_GetDriver:
  assumes "quiet_store X" and "drv_typed (db X w)" and "LatLngToCell X lat lng res = Inr c"
    and "is_f64 lat \<and> is_f64 lng"
    and "hash_field (db X w) (driverKey i) ''available_since'' \<in> insert None ((\<lambda>n. Some (itoa n)) ` Collect in_i64)"
  shows "\<exists>ev w' rec. UpdateLocation X res i lat lng w = (Inr (DriverLocation ev), w') \<and>
     fst (GetDriver X i w') = Inr rec \<and>
     DriverID rec = i \<and> dr_Lat rec = lat \<and> dr_Lng rec = lng \<and> dr_Cell rec = c \<and>
     dr_State rec = (case hash_field (db X w) (driverKey i) ''state'' of None \<Rightarrow> ''AVAILABLE'' | Some s \<Rightarrow> s) \<and>
     dl_State ev = dr_State rec \<and> dl_Cell ev = CellString X c \<and>
     UpdatedAt rec = from_unix (to_unix (wall X w)) \<and>
     i \<in> members (db X w') (CellString X c)"
  using quiet_store.ping_then_read [OF assms(1-3) _ _ assms(5)] assms(4)
  unfolding state_or_available_def by blast

theorem UpdateLocation_GetDriver_witness:
  "\<exists>ev w' rec. UpdateLocation mem_world 8 ''d1'' (Fin 12) (Fin 77) empty_db = (Inr (DriverLocation ev), w') \<and>
     fst (GetDriver mem_world ''d1'' w') = Inr rec \<and> dr_Lat rec = Fin 12 \<and> dr_State rec = ''AVAILABLE'' \<and>
     UpdatedAt rec = 1000 * second"
proof -
  have d: "db mem_world empty_db = empty_db" "wall mem_world empty_db = 1000 * second"
    by (simp_all add: mem_world_def mem_clock_def empty_db_def second_def)
  have h: "hash_field empty_db (driverKey ''d1'') f = None" for f
    by (simp add: hash_field_def empty_db_def)
  have t: "drv_typed (db mem_world empty_db)" using index_inv_empty by (simp add: d index_inv_def)
  have c: "LatLngToCell mem_world (Fin 12) (Fin 77) 8 = Inr 1012" by (simp add: mem_world_def)
  have f: "is_f64 (Fin 12) \<and> is_f64 (Fin 77)"
    using rnd_int [of 12] rnd_int [of 77] by (simp add: is_f64_def)
  have u: "from_unix (to_unix (1000 * second)) = 1000 * second"
    by (simp add: from_unix_def to_unix_def second_def)
  show ?thesis
    using UpdateLocation_GetDriver [OF mem.quiet_store_axioms t c f, of "''d1''"]
    by (simp add: d h u) blast
qed

text \<open>
  State changes: a legal transition is written, keeps every other field, the expiry
  time and every other key; an illegal one and an unknown driver are refused with their
  errors and nothing changes.
\<close>

theorem SetState_correct:
  assumes "quiet_redis X" and "drv_typed (db X w)"
  shows "case hash_field (db X w) (driverKey i) ''state'' of
      None \<Rightarrow> fst (SetState X i to w) = Inl ErrDriverNotFound \<and> db X (snd (SetState X i to w)) = db X w
    | Some from \<Rightarrow>
        if driver_edge from to
        then fst (SetState X i to w) = Inr () \<and>
          (\<exists>m t now. live (db X w) (driverKey i) = Some (RHash m, t) \<and>
             live (db X (snd (SetState X i to w))) = (live (db X w))(driverKey i \<mapsto>
               (RHash (if to = DriverAvailable then m(''state'' \<mapsto> to, ''available_since'' \<mapsto> itoa now)
                       else m(''state'' \<mapsto> to)), t)))
        else fst (SetState X i to w) = Inl (ErrIllegalDriverTransition from to) \<and>
          db X (snd (SetState X i to w)) = db X w"
proof (cases "hash_field (db X w) (driverKey i) ''state''")
  case None
  then show ?thesis using quiet_redis.SetState_quiet [OF assms, of i "to"] by simp
next
  case (Some st)
  then obtain m t where m: "live (db X w) (driverKey i) = Some (RHash m, t)"
    using drv_typed_cases(1) [OF assms(2), of i] by (auto simp: hash_field_def)
  show ?thesis
  proof (cases "driver_edge st to")
    case True
    then obtain now where "db X (snd (SetState X i to w)) = set_driver_state i to now (db X w)"
      using quiet_redis.SetState_quiet(2) [OF assms, of i "to"] Some by auto
    then have "live (db X (snd (SetState X i to w))) = (live (db X w))(driverKey i \<mapsto>
        (RHash (if to = DriverAvailable then m(''state'' \<mapsto> to, ''available_since'' \<mapsto> itoa now)
                else m(''state'' \<mapsto> to)), t))"
      by (simp add: set_driver_state_def state_fields_def live_effect m)
    then show ?thesis
      using quiet_redis.SetState_quiet(1) [OF assms, of i "to"] Some True m by auto
  next
    case False
    then show ?thesis using quiet_redis.SetState_quiet [OF assms, of i "to"] Some by simp
  qed
qed

definition demo_driver :: "string \<Rightarrow> driver_state \<Rightarrow> rdb" where
  "demo_driver i st = \<lparr>rnow = 1000 * second,
     live = [driverKey i \<mapsto> (RHash [''lat'' \<mapsto> ''12/1'', ''lng'' \<mapsto> ''77/1'', ''cell'' \<mapsto> ''1012'', ''state'' \<mapsto> st,
                             ''updated_at'' \<mapsto> ''1000'', ''available_since'' \<mapsto> ''990''], Some (1030 * second)),
             cell_set_key ''1012'' \<mapsto> (RSet {i}, None)]\<rparr>"

lemma demo_driver_typed: "index_inv (demo_driver i st)"
  by (auto simp: index_inv_def drv_typed_def indexed_def demo_driver_def hash_field_def members_def
      hash_entry_def set_entry_def)

theorem SetState_correct_witness:
  "fst (SetState mem_world ''d1'' DriverOffered (demo_driver ''d1'' DriverAvailable)) = Inr () \<and>
   fst (SetState mem_world ''d1'' DriverOnTrip (demo_driver ''d1'' DriverAvailable))
     = Inl (ErrIllegalDriverTransition ''AVAILABLE'' ''ON_TRIP'')"
proof -
  let ?d = "demo_driver ''d1'' DriverAvailable"
  have t: "drv_typed (db mem_world ?d)" "hash_field (db mem_world ?d) (driverKey ''d1'') ''state'' = Some DriverAvailable"
    using demo_driver_typed [of "''d1''" DriverAvailable]
    by (simp_all add: mem_world_def index_inv_def demo_driver_def hash_field_def)
  have e: "driver_edge DriverAvailable DriverOffered" "\<not> driver_edge DriverAvailable DriverOnTrip"
    by (simp_all add: driver_edge_iff driver_states)
  show ?thesis
    using SetState_correct [OF mem.quiet_redis_axioms t(1), of "''d1''" DriverOffered]
      SetState_correct [OF mem.quiet_redis_axioms t(1), of "''d1''" DriverOnTrip] t(2) e
    by (simp add: DriverAvailable_def DriverOnTrip_def)
qed

text \<open>
  Live supply: the drivers returned for a cell are, without repetition, exactly the
  members whose record has not expired; the others are swept from the set, no other key
  changes, and the index invariant survives the sweep.
\<close>

theorem DriversInCell_correct:
  assumes "quiet_redis X" and "index_inv (db X w)"
  shows "(\<exists>is. fst (DriversInCell X c w) = Inr is \<and> distinct is \<and>
            set is = {i \<in> members (db X w) (CellString X c). alive (db X w) i}) \<and>
    members (db X (snd (DriversInCell X c w))) (CellString X c)
      = {i \<in> members (db X w) (CellString X c). alive (db X w) i} \<and>
    (\<forall>k. k \<noteq> cellKey X c \<longrightarrow> live (db X (snd (DriversInCell X c w))) k = live (db X w) k) \<and>
    index_inv (db X (snd (DriversInCell X c w)))"
proof -
  let ?d = "db X w" and ?d' = "db X (snd (DriversInCell X c w))"
  have t: "drv_typed ?d" and ix: "indexed ?d" using assms(2) by (simp_all add: index_inv_def)
  note q = quiet_redis.DriversInCell_quiet [OF assms(1) t, of c]
  obtain xs where d': "?d' = ?d \<and> (\<forall>i \<in> members ?d (CellString X c). alive ?d i) \<or>
      set xs = {i \<in> members ?d (CellString X c). \<not> alive ?d i} \<and> ?d' = redis_effect (SREM (cellKey X c) xs) ?d"
    using q(2) by blast
  have m: "members ?d' c' = (if c' = CellString X c then {i \<in> members ?d c'. alive ?d i} else members ?d c')" for c'
    using d' by (elim disjE conjE) (auto simp: t cellKey_def)
  have o: "k \<noteq> cellKey X c \<longrightarrow> live ?d' k = live ?d k" for k
    using d' by (elim disjE conjE) (simp_all add: effect_frame)
  have t': "drv_typed ?d'"
    using d' t by (elim disjE conjE) (simp_all add: cellKey_def)
  have h: "hash_field ?d' (driverKey i) = hash_field ?d (driverKey i)" for i
    using o [of "driverKey i"] by (intro ext) (simp add: hash_field_def cellKey_def)
  have "i \<in> members ?d' c'" if "hash_field ?d' (driverKey i) ''cell'' = Some c'" for i c'
  proof -
    have "i \<in> members ?d c'" using ix that h unfolding indexed_def by simp
    moreover have "alive ?d i" using that h [of i] by (auto simp: hash_field_def alive_def split: option.splits)
    ultimately show ?thesis using m [of c'] by (auto split: if_splits)
  qed
  then have ix': "index_inv ?d'" using t' by (simp add: index_inv_def indexed_def)
  show ?thesis
    by (intro conjI ix' q(1)) (simp add: m, use o in blast)
qed

theorem DriversInCell_correct_witness:
  "(\<exists>is. fst (DriversInCell mem_world 1012 (demo_driver ''d1'' DriverAvailable)) = Inr is \<and> distinct is \<and> set is = {''d1''})"
proof -
  have d: "db mem_world w = w" for w by (simp add: mem_world_def)
  have c: "CellString mem_world 1012 = ''1012''" by (simp add: mem_world_def mem_cell_name_def, code_simp)
  have m: "members (demo_driver ''d1'' DriverAvailable) ''1012'' = {''d1''}" "alive (demo_driver ''d1'' DriverAvailable) ''d1''"
    by (simp_all add: members_def alive_def demo_driver_def)
  have s: "{i. i = ''d1'' \<and> alive (demo_driver ''d1'' DriverAvailable) i} = {''d1''}" using m by auto
  show ?thesis
    using DriversInCell_correct [OF mem.quiet_redis_axioms, of "demo_driver ''d1'' DriverAvailable" 1012]
    by (simp add: d c m s demo_driver_typed)
qed

text \<open>
  The batched read agrees with the single one: reading many drivers returns, for each
  requested one that is live, exactly what \<open>GetDriver\<close> returns and omits the others; but
  one live record that does not parse makes the whole batch fail.
\<close>

theorem GetDrivers_correct:
  assumes "quiet_redis X" and "drv_typed (db X w)"
  shows "if \<exists>i \<in> set is. hash_field (db X w) (driverKey i) \<noteq> Map.empty \<and> (\<exists>e. fst (GetDriver X i w) = Inl e)
    then \<exists>e. fst (GetDrivers X is w) = Inl (Errorf ''parse driver'' e)
    else fst (GetDrivers X is w) = Inr (\<lambda>i. if i \<in> set is
           then (case fst (GetDriver X i w) of Inr rec \<Rightarrow> Some rec | Inl _ \<Rightarrow> None) else None)"
proof -
  let ?d = "db X w"
  have g: "fst (GetDriver X i w) = driver_at X ?d i" for i
    by (rule quiet_redis.GetDriver_quiet(1) [OF assms])
  show ?thesis
  proof (cases "\<exists>i \<in> set is. hash_field ?d (driverKey i) \<noteq> Map.empty \<and> (\<exists>e. driver_at X ?d i = Inl e)")
    case True
    then have "is \<noteq> []" and "\<exists>i \<in> set (remdups is). hash_field ?d (driverKey i) \<noteq> Map.empty \<and> (\<exists>e. driver_at X ?d i = Inl e)"
      by auto
    then have "\<exists>e. fst (GetDrivers X is w) = Inl (Errorf ''parse driver'' e)"
      unfolding quiet_redis.GetDrivers_replies(1) [OF assms \<open>is \<noteq> []\<close>]
      using collect_drivers_fails by blast
    with True show ?thesis unfolding g by simp
  next
    case False
    then have p: "\<forall>i \<in> set is. hash_field ?d (driverKey i) \<noteq> Map.empty \<longrightarrow> (\<exists>r. driver_at X ?d i = Inr r)"
      by (metis sum.exhaust)
    have "drivers_found X ?d is = (\<lambda>i. if i \<in> set is
           then (case driver_at X ?d i of Inr rec \<Rightarrow> Some rec | Inl _ \<Rightarrow> None) else None)"
      by (intro ext) (auto simp: drivers_found_def driver_at_def Let_def)
    then show ?thesis
      using quiet_redis.GetDrivers_quiet [OF assms p] False unfolding g by simp
  qed
qed

theorem GetDrivers_correct_witness:
  "fst (GetDrivers mem_world [''d1'', ''d2''] empty_db) = Inr (\<lambda>i. None)"
proof -
  have h: "hash_field empty_db k = Map.empty" for k
    by (intro ext) (simp add: hash_field_def empty_db_def)
  have t: "drv_typed (db mem_world empty_db)" "db mem_world empty_db = empty_db"
    using index_inv_empty by (simp_all add: mem_world_def index_inv_def)
  have "driver_at mem_world empty_db i = Inl ErrDriverNotFound" for i
    by (simp add: driver_at_def h)
  then have "fst (GetDriver mem_world i empty_db) = Inl ErrDriverNotFound" for i
    using quiet_redis.GetDriver_quiet(1) [OF mem.quiet_redis_axioms t(1), of i] t(2) by simp
  then show ?thesis
    using GetDrivers_correct [OF mem.quiet_redis_axioms t(1), of "[''d1'', ''d2'']"] t(2) by (simp add: h cong: if_cong)
qed

text \<open>
  Cells of a driver: after a ping in cell \<open>c\<close> the driver is in \<open>c\<close>'s set and in every
  set it was in before, except the one its live record names. So a driver that was in
  that set only ends up in exactly one, while a driver whose record had expired stays in
  the set of its old cell too and, being live again, is listed under both cells.
\<close>

theorem UpdateLocation_cells:
  assumes "quiet_redis X" and "drv_typed (db X w)" and "LatLngToCell X lat lng res = Inr c"
  shows "let d' = db X (snd (UpdateLocation X res i lat lng w)) in
    {c'. i \<in> members d' c'} = insert (CellString X c)
      ({c'. i \<in> members (db X w) c'} - set_option (hash_field (db X w) (driverKey i) ''cell'')) \<and>
    (\<forall>j. j \<noteq> i \<longrightarrow> {c'. j \<in> members d' c'} = {c'. j \<in> members (db X w) c'}) \<and> alive d' i"
proof -
  let ?d' = "db X (snd (UpdateLocation X res i lat lng w))"
  obtain since u where d': "?d' = after_ping X i lat lng c u since (db X w)"
    using quiet_redis.UpdateLocation_quiet [OF assms, of i thesis] unfolding after_ping_def
    by (metis snd_conv)
  have "alive ?d' i"
    using after_ping_expiry [OF assms(2), of X i lat lng c u since] unfolding d' alive_def by auto
  then show ?thesis
    unfolding Let_def d' by (auto simp: after_ping_members assms(2) split: if_splits)
qed

definition expired_driver :: rdb where
  "expired_driver = elapse (31 * second) (demo_driver ''d1'' DriverAvailable)"

lemma expired_driver_keys:
  "live expired_driver (driverKey ''d1'') = None" "members expired_driver ''1012'' = {''d1''}"
  "drv_typed expired_driver"
  using index_inv_elapse [OF demo_driver_typed, of "31 * second" "''d1''" DriverAvailable]
  by (simp_all add: expired_driver_def elapse_def demo_driver_def members_def second_def index_inv_def)

theorem UpdateLocation_cells_witness:
  "let d' = snd (UpdateLocation mem_world 8 ''d1'' (Fin 13) (Fin 77) expired_driver) in
   ''d1'' \<in> members d' ''1012'' \<and> ''d1'' \<in> members d' ''1013'' \<and> alive d' ''d1''"
proof -
  have d: "db mem_world w = w" for w by (simp add: mem_world_def)
  have c: "LatLngToCell mem_world (Fin 13) (Fin 77) 8 = Inr 1013" by (simp add: mem_world_def)
  have n: "CellString mem_world 1013 = ''1013''" by (simp add: mem_world_def mem_cell_name_def, code_simp)
  have h: "hash_field expired_driver (driverKey ''d1'') ''cell'' = None"
    by (simp add: hash_field_def expired_driver_keys(1))
  let ?d' = "snd (UpdateLocation mem_world 8 ''d1'' (Fin 13) (Fin 77) expired_driver)"
  have t: "drv_typed (db mem_world expired_driver)" unfolding d by (rule expired_driver_keys(3))
  have "{c'. ''d1'' \<in> members ?d' c'} = insert ''1013'' {c'. ''d1'' \<in> members expired_driver c'}" "alive ?d' ''d1''"
    using UpdateLocation_cells [OF mem.quiet_redis_axioms t c, of "''d1''"]
    unfolding Let_def d n h by simp_all
  moreover have "''d1'' \<in> members expired_driver ''1012''" by (simp add: expired_driver_keys(2))
  ultimately show ?thesis unfolding Let_def by blast
qed

text \<open>
  C39. A state written to an expired driver makes a record that never goes away: when the
  record expires between the read and the write of a state change, the write succeeds
  and leaves a hash with a state but no position and no expiry. The driver then counts
  as live for ever, reading it fails, and so does every batched read that includes it.
\<close>

theorem SetState_ghost_record:
  assumes "quiet_store X" and "drv_typed (db X w)" and "driver_edge from to"
    and "live (db X w) (driverKey i) = None"
  shows "\<exists>w'. SetState_write X i from to w = (Inr (), w') \<and>
    (\<forall>dt. alive (elapse dt (db X w')) i) \<and>
    (\<exists>e. fst (GetDriver X i w') = Inl (Errorf ''parse lat'' e)) \<and>
    (\<forall>is. i \<in> set is \<longrightarrow> (\<exists>e. fst (GetDrivers X is w') = Inl (Errorf ''parse driver'' e)))"
proof -
  have q: "quiet_redis X" and tf: "text_formats X"
    using assms(1) by (simp_all add: quiet_store_def)
  obtain w' where w': "SetState_write X i from to w = (Inr (), w')"
    using quiet_redis.SetState_write_quiet(1) [OF q assms(2,3), of i] by (cases "SetState_write X i from to w") auto
  then obtain now where d': "db X w' = set_driver_state i to now (db X w)"
    using quiet_redis.SetState_write_quiet(2) [OF q assms(2,3), of i] by auto
  have t: "drv_typed (db X w')" using assms(2) by (simp add: d' set_driver_state_def)
  obtain m where m: "live (db X w') (driverKey i) = Some (RHash m, None)" "m ''lat'' = None" "m ''state'' = Some to"
    using assms(4) by (simp add: d' set_driver_state_def live_effect state_fields_def)
  then have h: "hash_field (db X w') (driverKey i) = m" by (intro ext) (simp add: hash_field_def)
  obtain e where e: "ParseFloat X '''' = Inl e" using text_formats.parse_empty [OF tf] by blast
  have "m \<noteq> Map.empty" using m(3) by auto
  then have g: "fst (GetDriver X i w') = Inl (Errorf ''parse lat'' e)"
    using e m(2) by (simp add: quiet_redis.GetDriver_quiet(1) [OF q t] driver_at_def Let_def h parseDriverRecord_def field_def)
  have "\<exists>e. fst (GetDrivers X is w') = Inl (Errorf ''parse driver'' e)" if "i \<in> set is" for "is"
  proof -
    from that have "is \<noteq> []" "i \<in> set (remdups is)" by auto
    moreover have "driver_at X (db X w') i = Inl (Errorf ''parse lat'' e)"
      using g by (simp add: quiet_redis.GetDriver_quiet(1) [OF q t])
    moreover have "hash_field (db X w') (driverKey i) \<noteq> Map.empty" using h \<open>m \<noteq> Map.empty\<close> by simp
    ultimately show ?thesis
      unfolding quiet_redis.GetDrivers_replies(1) [OF q t \<open>is \<noteq> []\<close>] by (metis collect_drivers_fails)
  qed
  moreover have "alive (elapse dt (db X w')) i" for dt
    using live_elapse(2) [OF m(1), of dt] by (simp add: alive_def)
  ultimately show ?thesis using w' g by blast
qed

theorem SetState_ghost_record_witness:
  "\<exists>e. fst (GetDrivers mem_world [''d2'', ''d1'']
     (snd (SetState_write mem_world ''d1'' DriverOffered DriverEnRoute expired_driver))) = Inl (Errorf ''parse driver'' e)"
proof -
  have d: "db mem_world expired_driver = expired_driver" by (simp add: mem_world_def)
  have t: "drv_typed (db mem_world expired_driver)" "live (db mem_world expired_driver) (driverKey ''d1'') = None"
    unfolding d by (rule expired_driver_keys)+
  have e: "driver_edge DriverOffered DriverEnRoute" by (simp add: driver_edge_iff)
  obtain w' where "SetState_write mem_world ''d1'' DriverOffered DriverEnRoute expired_driver = (Inr (), w')"
    and "\<forall>is. ''d1'' \<in> set is \<longrightarrow> (\<exists>e. fst (GetDrivers mem_world is w') = Inl (Errorf ''parse driver'' e))"
    using SetState_ghost_record [OF mem.quiet_store_axioms t(1) e t(2)] by metis
  then show ?thesis by simp
qed

text \<open>
  C38. A driver can be claimed twice: of two calls \<open>SetState(OFFERED)\<close> on an available
  driver, run one after the other, the second is refused; but if the second reads the
  state before the first one writes, both succeed.
\<close>

theorem SetState_double_claim:
  assumes "quiet_redis X" and "drv_typed (db X w)"
    and "hash_field (db X w) (driverKey i) ''state'' = Some DriverAvailable"
  shows "fst (call_string X (HGET (driverKey i) ''state'') w) = Inr (Some DriverAvailable) \<and>
    (let (r1, w1) = SetState X i DriverOffered w in
       r1 = Inr () \<and>
       fst (SetState X i DriverOffered w1) = Inl (ErrIllegalDriverTransition DriverOffered DriverOffered) \<and>
       fst (SetState_write X i DriverAvailable DriverOffered w1) = Inr ())"
proof -
  have e: "driver_edge DriverAvailable DriverOffered" "\<not> driver_edge DriverOffered DriverOffered"
    by (simp_all add: driver_edge_iff driver_states)
  obtain w1 where s: "SetState X i DriverOffered w = (Inr (), w1)"
    using quiet_redis.SetState_quiet(1) [OF assms(1,2), of i DriverOffered] assms(3) e(1)
    by (cases "SetState X i DriverOffered w") auto
  then obtain now where d: "db X w1 = set_driver_state i DriverOffered now (db X w)"
    using quiet_redis.SetState_quiet(2) [OF assms(1,2), of i DriverOffered] assms(3) e(1) by auto
  have t: "drv_typed (db X w1)" using assms(2) by (simp add: d set_driver_state_def)
  have h: "hash_field (db X w1) (driverKey i) ''state'' = Some DriverOffered"
    by (simp add: d set_driver_state_def hash_field_hset assms(2) state_fields_def)
  have r: "fst (call_string X (HGET (driverKey i) ''state'') w) = Inr (Some DriverAvailable)"
    using quiet_redis.typed_reads(2) [OF assms(1), of w "driverKey i"] assms(2,3) by (simp add: drv_typed_def)
  show ?thesis
    using r s quiet_redis.SetState_quiet(1) [OF assms(1) t, of i DriverOffered] h e
      quiet_redis.SetState_write_quiet(1) [OF assms(1) t e(1), of i]
    by simp
qed

theorem SetState_double_claim_witness:
  "let (r1, w1) = SetState mem_world ''d1'' DriverOffered (demo_driver ''d1'' DriverAvailable) in
     r1 = Inr () \<and> fst (SetState_write mem_world ''d1'' DriverAvailable DriverOffered w1) = Inr ()"
proof -
  let ?d = "demo_driver ''d1'' DriverAvailable"
  have t: "drv_typed (db mem_world ?d)" "hash_field (db mem_world ?d) (driverKey ''d1'') ''state'' = Some DriverAvailable"
    using demo_driver_typed [of "''d1''" DriverAvailable]
    by (simp_all add: mem_world_def index_inv_def demo_driver_def hash_field_def)
  show ?thesis
    using SetState_double_claim [OF mem.quiet_redis_axioms t] by (auto simp: Let_def split: prod.splits)
qed

definition sweep_schedule :: "rdb \<Rightarrow> rdb" where
  "sweep_schedule d = snd (UpdateLocation mem_world 8 ''d1'' (Fin 12) (Fin 77) d)"

text \<open>
  The sweep races with a ping: when an expired member pings the same cell after the
  sweep's \<open>EXISTS\<close> and before its \<open>SREM\<close>, the live driver is removed from its set.
  The driver is then indexed under no cell, until it pings again.
\<close>

theorem DriversInCell_sweep_race:
  "let d' = fst (snd (DriversInCell scripted_world 1012
       (expired_driver, [(None, \<lambda>d. d), (None, \<lambda>d. d), (None, sweep_schedule)]))) in
   index_inv expired_driver \<and> index_inv (sweep_schedule expired_driver) \<and>
   hash_field d' (driverKey ''d1'') ''cell'' = Some ''1012'' \<and> alive d' ''d1'' \<and> members d' ''1012'' = {}"
proof -
  have d: "db mem_world w = w" for w by (simp add: mem_world_def)
  have c: "LatLngToCell mem_world (Fin 12) (Fin 77) 8 = Inr 1012" by (simp add: mem_world_def)
  have n: "CellString mem_world 1012 = ''1012''" by (simp add: mem_world_def mem_cell_name_def, code_simp)
  have k: "cellKey scripted_world 1012 = cell_set_key ''1012''"
    using n by (simp add: cellKey_def scripted_world_def mem_world_def)
  let ?e = expired_driver
  have inv: "index_inv ?e" unfolding expired_driver_def by (intro index_inv_elapse demo_driver_typed)
  have "redis_server.env_keeps (=) index_inv"
    by (simp add: redis_server.env_keeps_def [OF quiet_redis.axioms(1) [OF mem.quiet_redis_axioms]])
  then have inv': "index_inv (sweep_schedule ?e)"
    using redis_server.UpdateLocation_keeps [OF quiet_redis.axioms(1) [OF mem.quiet_redis_axioms], of ?e] inv
    by (simp add: d sweep_schedule_def)
  obtain since u where s: "sweep_schedule ?e = after_ping mem_world ''d1'' (Fin 12) (Fin 77) 1012 u since ?e"
    using quiet_redis.UpdateLocation_quiet [OF mem.quiet_redis_axioms, of ?e "Fin 12" "Fin 77" 8 1012 "''d1''" thesis]
      expired_driver_keys(3) c unfolding after_ping_def sweep_schedule_def by (auto simp: d)
  have l: "live ?e (cell_set_key ''1012'') = Some (RSet {''d1''}, None)"
    by (simp add: expired_driver_def elapse_def demo_driver_def)
  have l1: "live ?e (driverKey ''d1'') = None" by (rule expired_driver_keys(1))
  have t: "drv_typed (sweep_schedule ?e)" using inv' by (simp add: index_inv_def)
  let ?d' = "redis_effect (SREM (cell_set_key ''1012'') [''d1'']) (sweep_schedule ?e)"
  have sm: "call_strings scripted_world (SMEMBERS (cell_set_key ''1012'')) (?e, (None, \<lambda>d. d) # ts)
      = (Inr [''d1''], (?e, ts))" for ts
    by (simp add: mem_eval scripted_world_def l)
  have ex: "pipeline scripted_world [EXISTS (driverKey ''d1'')] (?e, (None, \<lambda>d. d) # ts)
      = (Inr [RInt 0], (?e, ts))" for ts
    by (simp add: mem_eval scripted_world_def l1)
  have "set_entry (live (sweep_schedule ?e) (cell_set_key ''1012''))" using t by (simp add: drv_typed_def)
  then have sr: "call_unit scripted_world (SREM (cell_set_key ''1012'') [''d1'']) (?e, [(None, sweep_schedule)])
      = (Inr (), (?d', []))"
    by (auto simp: mem_eval scripted_world_def set_entry_cases)
  have x: "DriversInCell scripted_world 1012 (?e, [(None, \<lambda>d. d), (None, \<lambda>d. d), (None, sweep_schedule)])
      = (Inr [], (?d', []))"
    unfolding DriversInCell_def k
    using sm ex sr by (simp del: pipeline.simps)
  have m: "members ?d' ''1012'' = {}"
    using expired_driver_keys(2) by (simp add: t) (simp add: s after_ping_members expired_driver_keys(3) n)
  have h: "hash_field ?d' (driverKey ''d1'') ''cell'' = Some ''1012''"
    by simp (simp add: s after_ping_fields expired_driver_keys(3) n)
  then have "alive ?d' ''d1''" by (rule alive_if_field)
  with inv inv' m h show ?thesis by (simp only: x Let_def snd_conv fst_conv)
qed

end
