(* ===== verification/TripStore.thy ===== *)
theory TripStore
  imports DriverStore
begin

text \<open>
  \<open>internal/store/trip.go\<close>: trip intent and lifecycle in Redis. A trip is a hash without
  expiry; an idempotency key is a string that names the trip it created and lives 24
  hours; \<open>trips:offered\<close> indexes the trips in state \<open>OFFERED\<close>.
\<close>

definition IdempotencyTTL :: int where "IdempotencyTTL = 24 * hour"

record TripRecord =
  TripID :: string
  RiderID :: string
  OriginLat :: f64
  OriginLng :: f64
  tr_State :: trip_state
  IdempotencyKey :: string
  MatchedDriverID :: string
  tr_CreatedAt :: int

definition tripKey :: "string \<Rightarrow> string" where "tripKey tripID = ''trip:'' @ tripID"

definition idemKey :: "string \<Rightarrow> string" where "idemKey key = ''idem:'' @ key"

definition offeredTripsKey :: string where "offeredTripsKey = ''trips:offered''"

text \<open>The Lua script, run atomically by the server.\<close>

definition createTripScript ::
  "'w ext \<Rightarrow> string \<Rightarrow> string \<Rightarrow> string \<Rightarrow> string \<Rightarrow> string \<Rightarrow> string \<Rightarrow> string \<Rightarrow> int \<Rightarrow> string \<Rightarrow> ('w, string) io" where
  "createTripScript X ikey tkey candidateID riderID lat lng createdAt idemTTL idempotencyKey =
     io_bind (server_string X (GET ikey)) (\<lambda>existing.
     case existing of Some s \<Rightarrow> io_return s
     | None \<Rightarrow>
         io_bind (server_call X (SET ikey candidateID (Some (idemTTL * second)))) (\<lambda>_.
         io_bind (server_call X (HSET tkey
           [(''rider_id'', riderID), (''origin_lat'', lat), (''origin_lng'', lng), (''state'', ''REQUESTED''),
            (''idempotency_key'', idempotencyKey), (''created_at'', createdAt)])) (\<lambda>_.
         io_return candidateID)))"

definition parseTripRecord :: "'w ext \<Rightarrow> string \<Rightarrow> (string \<rightharpoonup> string) \<Rightarrow> TripRecord result" where
  "parseTripRecord X tripID flds =
     (case ParseFloat X (field flds ''origin_lat'') of Inl e \<Rightarrow> Inl (Errorf ''parse origin_lat'' e) | Inr lat \<Rightarrow>
      case ParseFloat X (field flds ''origin_lng'') of Inl e \<Rightarrow> Inl (Errorf ''parse origin_lng'' e) | Inr lng \<Rightarrow>
      case parse_int64 (field flds ''created_at'') of Inl e \<Rightarrow> Inl (Errorf ''parse created_at'' e) | Inr created \<Rightarrow>
      Inr \<lparr>TripID = tripID, RiderID = field flds ''rider_id'', OriginLat = lat, OriginLng = lng,
           tr_State = field flds ''state'', IdempotencyKey = field flds ''idempotency_key'',
           MatchedDriverID = field flds ''matched_driver_id'', tr_CreatedAt = from_unix created\<rparr>)"

definition GetTrip :: "'w ext \<Rightarrow> string \<Rightarrow> ('w, TripRecord) io" where
  "GetTrip X tripID =
     io_bind (io_wrap ''hgetall'' (call_fields X (HGETALL (tripKey tripID)))) (\<lambda>flds.
     if flds = Map.empty then io_fail ErrTripNotFound
     else io_lift (parseTripRecord X tripID flds))"

definition CreateTrip :: "'w ext \<Rightarrow> string \<Rightarrow> f64 \<Rightarrow> f64 \<Rightarrow> string \<Rightarrow> ('w, TripRecord) io" where
  "CreateTrip X riderID lat lng idempotencyKey = (\<lambda>w.
     case uuid X w of (candidateID, w1) \<Rightarrow>
     io_bind (io_wrap ''create trip script''
       (request X (createTripScript X (idemKey idempotencyKey) (tripKey candidateID) candidateID riderID
          (fmt_f64 X lat) (fmt_f64 X lng) (itoa (to_unix (wall X w1))) (IdempotencyTTL div second) idempotencyKey)))
       (\<lambda>tripID. GetTrip X tripID) w1)"

text \<open>\<open>transitionTo\<close>: the write after the read and check is again a definition of its own.\<close>

definition transition_write :: "'w ext \<Rightarrow> string \<Rightarrow> trip_state \<Rightarrow> trip_state \<Rightarrow> (string \<times> string) list \<Rightarrow> ('w, unit) io" where
  "transition_write X tripID from to extra =
     io_bind (io_lift (ValidateTripTransition from to)) (\<lambda>_.
     io_bind (call_unit X (HSET (tripKey tripID) ((''state'', to) # extra))) (\<lambda>_.
     if to = TripOffered then call_unit X (SADD offeredTripsKey tripID)
     else if to = TripMatched \<or> to = TripUnfulfilled then call_unit X (SREM offeredTripsKey [tripID])
     else io_return ()))"

definition transitionTo :: "'w ext \<Rightarrow> string \<Rightarrow> trip_state \<Rightarrow> (string \<times> string) list \<Rightarrow> ('w, unit) io" where
  "transitionTo X tripID to extra =
     io_bind (io_wrap ''read state'' (call_string X (HGET (tripKey tripID) ''state''))) (\<lambda>current.
     case current of None \<Rightarrow> io_fail ErrTripNotFound
     | Some from \<Rightarrow> transition_write X tripID from to extra)"

definition OfferedTrips :: "'w ext \<Rightarrow> ('w, string list) io" where
  "OfferedTrips X = io_wrap ''smembers'' (call_strings X (SMEMBERS offeredTripsKey))"

definition SetTripState :: "'w ext \<Rightarrow> string \<Rightarrow> trip_state \<Rightarrow> ('w, unit) io" where
  "SetTripState X tripID to = transitionTo X tripID to []"

definition MarkMatched :: "'w ext \<Rightarrow> string \<Rightarrow> string \<Rightarrow> ('w, unit) io" where
  "MarkMatched X tripID driverID = transitionTo X tripID TripMatched [(''matched_driver_id'', driverID)]"

definition MarkUnfulfilled :: "'w ext \<Rightarrow> string \<Rightarrow> ('w, unit) io" where
  "MarkUnfulfilled X tripID = transitionTo X tripID TripUnfulfilled []"

section \<open>Keys\<close>

lemma trip_keys_inj [simp]: "tripKey a = tripKey b \<longleftrightarrow> a = b" "idemKey a = idemKey b \<longleftrightarrow> a = b"
  by (simp_all add: tripKey_def idemKey_def)

lemma trip_keys [simp, key_simps]:
  "tripKey a \<noteq> idemKey b" "idemKey b \<noteq> tripKey a"
  "tripKey a \<noteq> offeredTripsKey" "offeredTripsKey \<noteq> tripKey a"
  "idemKey a \<noteq> offeredTripsKey" "offeredTripsKey \<noteq> idemKey a"
  "tripKey a \<noteq> driverKey b" "driverKey b \<noteq> tripKey a"
  "tripKey a \<noteq> cell_set_key c" "cell_set_key c \<noteq> tripKey a"
  "idemKey a \<noteq> driverKey b" "driverKey b \<noteq> idemKey a"
  "idemKey a \<noteq> cell_set_key c" "cell_set_key c \<noteq> idemKey a"
  "offeredTripsKey \<noteq> driverKey b" "driverKey b \<noteq> offeredTripsKey"
  "offeredTripsKey \<noteq> cell_set_key c" "cell_set_key c \<noteq> offeredTripsKey"
  by (simp_all add: tripKey_def idemKey_def offeredTripsKey_def driverKey_def cell_set_key_def)

section \<open>The keyspace as trips\<close>

definition trip_typed :: "rdb \<Rightarrow> bool" where
  "trip_typed d \<longleftrightarrow> (\<forall>t. hash_entry (live d (tripKey t))) \<and> (\<forall>k. str_entry (live d (idemKey k))) \<and>
     set_entry (live d offeredTripsKey)"

definition trip_field :: "rdb \<Rightarrow> string \<Rightarrow> (string \<rightharpoonup> string)" where
  "trip_field d t = hash_field d (tripKey t)"

definition trip_state_of :: "rdb \<Rightarrow> string \<Rightarrow> trip_state option" where
  "trip_state_of d t = trip_field d t ''state''"

definition offered_set :: "rdb \<Rightarrow> string set" where
  "offered_set d = set_at d offeredTripsKey"

text \<open>The recovery index is exact: it holds the trips in state \<open>OFFERED\<close>.\<close>

definition offered_exact :: "rdb \<Rightarrow> bool" where
  "offered_exact d \<longleftrightarrow> (\<forall>t. t \<in> offered_set d \<longleftrightarrow> trip_state_of d t = Some TripOffered)"

text \<open>Effects of the store's commands on that view.\<close>

lemma trip_typed_frame:
  "(\<forall>t. tripKey t \<noteq> cmd_key c) \<Longrightarrow> (\<forall>k. idemKey k \<noteq> cmd_key c) \<Longrightarrow> offeredTripsKey \<noteq> cmd_key c \<Longrightarrow>
     trip_typed (redis_effect c d) = trip_typed d"
  by (simp add: trip_typed_def effect_frame)

lemma drv_typed_frame:
  "(\<forall>i. driverKey i \<noteq> cmd_key c) \<Longrightarrow> (\<forall>k. cell_set_key k \<noteq> cmd_key c) \<Longrightarrow>
     drv_typed (redis_effect c d) = drv_typed d"
  by (simp add: drv_typed_def effect_frame)

lemma trip_typed_writes [simp]:
  assumes "trip_typed d"
  shows "trip_typed (redis_effect (HSET (tripKey t) fvs) d)"
    "trip_typed (redis_effect (SET (idemKey k) v ttl) d)"
    "trip_typed (redis_effect (SADD offeredTripsKey t) d)"
    "trip_typed (redis_effect (SREM offeredTripsKey ts) d)"
  using assms by (auto simp: trip_typed_def live_effect simp del: cmd_value.simps)

definition put_trip :: "string \<Rightarrow> (string \<times> string) list \<Rightarrow> rdb \<Rightarrow> rdb" where
  "put_trip t fvs d = redis_effect (HSET (tripKey t) fvs) d"

definition index_trip :: "string \<Rightarrow> trip_state \<Rightarrow> rdb \<Rightarrow> rdb" where
  "index_trip t to d =
     (if to = TripOffered then redis_effect (SADD offeredTripsKey t) d
      else if to = TripMatched \<or> to = TripUnfulfilled then redis_effect (SREM offeredTripsKey [t]) d else d)"

lemma put_trip_fields:
  "trip_typed d \<Longrightarrow> trip_field (put_trip t fvs d) t' =
     (if t' = t then put_fields fvs (trip_field d t) else trip_field d t')"
  by (simp add: trip_field_def put_trip_def hash_field_hset_at trip_typed_def hash_field_frame)

lemma put_trip_offered [simp]: "offered_set (put_trip t fvs d) = offered_set d"
  by (simp add: offered_set_def put_trip_def set_at_frame)

lemma index_trip_fields [simp]: "trip_field (index_trip t to d) t' = trip_field d t'"
  by (simp add: trip_field_def index_trip_def hash_field_frame)

lemma index_trip_offered:
  "trip_typed d \<Longrightarrow> offered_set (index_trip t to d) =
     (if to = TripOffered then insert t (offered_set d)
      else if to = TripMatched \<or> to = TripUnfulfilled then offered_set d - {t} else offered_set d)"
  by (simp add: offered_set_def index_trip_def set_at_writes trip_typed_def)

lemma trip_typed_steps [simp]:
  "trip_typed d \<Longrightarrow> trip_typed (put_trip t fvs d)" "trip_typed d \<Longrightarrow> trip_typed (index_trip t to d)"
  by (simp_all add: put_trip_def index_trip_def)

section \<open>Finished trips\<close>

text \<open>The whole hash of trip \<open>t\<close> is \<open>m\<close>.\<close>

definition trip_is :: "string \<Rightarrow> (string \<rightharpoonup> string) \<Rightarrow> rdb \<Rightarrow> bool" where
  "trip_is t m d \<longleftrightarrow> trip_typed d \<and> trip_field d t = m"

lemma trip_is_steps:
  assumes "trip_is t m d"
  shows "t' \<noteq> t \<Longrightarrow> trip_is t m (redis_effect (HSET (tripKey t') fvs) d)"
    "trip_is t m (redis_effect (SET (idemKey k) v ttl) d)"
    "trip_is t m (redis_effect (SADD offeredTripsKey x) d)"
    "trip_is t m (redis_effect (SREM offeredTripsKey xs) d)"
    "trip_is t m (redis_effect (HGETALL k) d)" "trip_is t m (redis_effect (HGET k f) d)"
  using assms by (auto simp: trip_is_def trip_field_def hash_field_frame)

context redis_server
begin

lemma transition_write_other:
  assumes "env_keeps (trip_is t m)" "trip_is t m (db X w)" "t' \<noteq> t"
  shows "trip_is t m (db X (snd (transition_write X t' st to extra w)))"
  unfolding transition_write_def
  by (auto intro!: assms(2) io_bind_inv [where I = "\<lambda>w. trip_is t m (db X w)"]
      call_typed_inv(4) [OF assms(1)] trip_is_steps assms(3))

lemma transitionTo_finished:
  assumes env: "env_keeps (trip_is t m)" and i: "trip_is t m (db X w)"
    and fin: "m ''state'' = Some TripMatched \<or> m ''state'' = Some TripUnfulfilled"
  shows "trip_is t m (db X (snd (transitionTo X t' to extra w)))"
    and "t' = t \<Longrightarrow> \<exists>e. fst (transitionTo X t' to extra w) = Inl e"
proof -
  let ?read = "call_string X (HGET (tripKey t') ''state'')"
  have k: "trip_is t m (db X (snd (?read w)))"
    by (rule call_typed_inv(1) [OF env _ i]) (rule trip_is_steps)
  have refuse: "\<exists>e. transitionTo X t to extra w = (Inl e, snd (call_string X (HGET (tripKey t) ''state'') w))"
  proof -
    let ?r = "call_string X (HGET (tripKey t) ''state'') w"
    have "(\<exists>e. fst ?r = Inl e) \<or> fst ?r = Inr (m ''state'')"
      using env i by (rule call_hget_kept) (auto simp: trip_is_def trip_typed_def trip_field_def)
    then show ?thesis
    proof
      assume "\<exists>e. fst ?r = Inl e"
      then show ?thesis by (auto simp: transitionTo_def io_known)
    next
      assume r: "fst ?r = Inr (m ''state'')"
      obtain s where s: "m ''state'' = Some s" "\<not> trip_edge s to"
        using fin by (auto simp: trip_edge_iff trip_states)
      then show ?thesis using r
        by (simp add: transitionTo_def io_known transition_write_def validate_trip)
    qed
  qed
  then show "t' = t \<Longrightarrow> \<exists>e. fst (transitionTo X t' to extra w) = Inl e" by auto
  show "trip_is t m (db X (snd (transitionTo X t' to extra w)))"
  proof (cases "t' = t")
    case True
    then show ?thesis using refuse k by auto
  next
    case False
    then show ?thesis
      unfolding transitionTo_def
      by (auto split: option.splits intro!: i transition_write_other [OF env]
          io_bind_inv [where I = "\<lambda>w. trip_is t m (db X w)"] call_typed_inv(1) [OF env] trip_is_steps)
  qed
qed

lemma createTripScript_keeps:
  assumes "trip_is t m (db X w)" "cand \<noteq> t"
  shows "trip_is t m (db X (snd (createTripScript X (idemKey k) (tripKey cand) cand r a b c n k' w)))"
  unfolding createTripScript_def
  by (rule io_bind_inv [where I = "\<lambda>w. trip_is t m (db X w)"])
    (auto split: option.splits intro!: io_bind_inv [where I = "\<lambda>w. trip_is t m (db X w)"]
      assms trip_is_steps)

lemma CreateTrip_keeps:
  assumes env: "env_keeps (trip_is t m)" and i: "trip_is t m (db X w)" and fresh: "fst (uuid X w) \<noteq> t"
  shows "trip_is t m (db X (snd (CreateTrip X r lat lng k w)))"
proof -
  have get: "trip_is t m (db X (snd (GetTrip X t' w)))" if "trip_is t m (db X w)" for t' w
    unfolding GetTrip_def
    by (auto intro!: that io_bind_inv [where I = "\<lambda>w. trip_is t m (db X w)"]
        call_typed_inv(2) [OF env] trip_is_steps)
  obtain cand w1 where u: "uuid X w = (cand, w1)" by (cases "uuid X w")
  then have "trip_is t m (db X w1)" "cand \<noteq> t" using i fresh uuid_db [of w] by auto
  then show ?thesis
    unfolding CreateTrip_def u
    by (auto intro!: get io_bind_inv [where I = "\<lambda>w. trip_is t m (db X w)"]
        request_inv [OF env] createTripScript_keeps)
qed

end

section \<open>What the methods compute when nobody interferes\<close>

definition trip_at :: "'w ext \<Rightarrow> rdb \<Rightarrow> string \<Rightarrow> TripRecord result" where
  "trip_at X d t =
     (if trip_field d t = Map.empty then Inl ErrTripNotFound else parseTripRecord X t (trip_field d t))"

lemma parseTripRecord_id: "parseTripRecord X t flds = Inr rec \<Longrightarrow> TripID rec = t"
  by (auto simp: parseTripRecord_def split: sum.splits)

lemma GetTrip_id: "fst (GetTrip X t w) = Inr rec \<Longrightarrow> TripID rec = t"
  by (auto simp: GetTrip_def io_bind_def split: prod.splits sum.splits if_splits dest: parseTripRecord_id)

definition move_trip :: "string \<Rightarrow> trip_state \<Rightarrow> (string \<times> string) list \<Rightarrow> rdb \<Rightarrow> rdb" where
  "move_trip t to extra d = index_trip t to (put_trip t ((''state'', to) # extra) d)"

definition new_trip_fields :: "string \<Rightarrow> string \<Rightarrow> string \<Rightarrow> string \<Rightarrow> string \<Rightarrow> (string \<times> string) list" where
  "new_trip_fields rider lat lng key created =
     [(''rider_id'', rider), (''origin_lat'', lat), (''origin_lng'', lng), (''state'', ''REQUESTED''),
      (''idempotency_key'', key), (''created_at'', created)]"

definition put_new_trip ::
  "string \<Rightarrow> string \<Rightarrow> string \<Rightarrow> string \<Rightarrow> string \<Rightarrow> string \<Rightarrow> rdb \<Rightarrow> rdb" where
  "put_new_trip t rider lat lng key created d =
     put_trip t (new_trip_fields rider lat lng key created)
       (redis_effect (SET (idemKey key) t (Some IdempotencyTTL)) d)"

text \<open>An idempotency key that names a trip.\<close>

definition idem_is :: "string \<Rightarrow> string \<Rightarrow> rdb \<Rightarrow> bool" where
  "idem_is k t d \<longleftrightarrow> trip_typed d \<and> str_at d (idemKey k) = Some t"

context redis_server
begin

lemma createTripScript_run:
  assumes "trip_typed (db X w)"
  obtains w' where "createTripScript X (idemKey k) (tripKey cand) cand rider a b created (IdempotencyTTL div second) k w
      = (Inr (case str_at (db X w) (idemKey k) of Some t \<Rightarrow> t | None \<Rightarrow> cand), w')"
    and "db X w' = (case str_at (db X w) (idemKey k) of Some t \<Rightarrow> db X w
      | None \<Rightarrow> put_new_trip cand rider a b k created (db X w))"
proof -
  let ?w1 = "snd (server_string X (GET (idemKey k)) w)"
  have g: "fst (server_string X (GET (idemKey k)) w) = Inr (str_at (db X w) (idemKey k))"
  proof -
    have "fst (exec X (GET (idemKey k)) w) = (case str_at (db X w) (idemKey k) of None \<Rightarrow> RNil | Some v \<Rightarrow> RBulk v)"
      using exec_reply [of "GET (idemKey k)" w] assms
      by (auto simp: trip_typed_def str_entry_def str_at_def split: option.splits rval.splits)
    then show ?thesis
      by (simp add: server_string_def server_call_fst io_known as_string_def split: option.splits)
  qed
  show thesis
  proof (cases "str_at (db X w) (idemKey k)")
    case (Some t)
    then show thesis using that g by (simp add: createTripScript_def io_known)
  next
    case None
    let ?set = "SET (idemKey k) cand (Some (IdempotencyTTL div second * second))"
    let ?w2 = "snd (server_call X ?set ?w1)"
    obtain r where r: "fst (server_call X ?set ?w1) = Inr r" using server_write(6) by blast
    have ttl: "IdempotencyTTL div second * second = IdempotencyTTL"
      by (simp add: IdempotencyTTL_def time_units)
    have "trip_typed (db X ?w2)" using assms by simp
    then obtain r' where r': "fst (server_call X (HSET (tripKey cand) (new_trip_fields rider a b k created)) ?w2) = Inr r'"
      using server_write(1) [of ?w2 "tripKey cand"] unfolding trip_typed_def by blast
    show thesis
      using that g r r' None ttl
      by (simp add: createTripScript_def io_known new_trip_fields_def put_new_trip_def put_trip_def)
  qed
qed

lemma CreateTrip_again:
  assumes env: "env_keeps (idem_is k t)" and i: "idem_is k t (db X w)"
  shows "fst (CreateTrip X rider lat lng k w) = Inr rec \<Longrightarrow> TripID rec = t"
    and "idem_is k t (db X (snd (CreateTrip X rider lat lng k w)))"
proof -
  obtain cand w1 where u: "uuid X w = (cand, w1)" by (cases "uuid X w")
  have i1: "idem_is k t (db X w1)" using i uuid_db [of w] u by simp
  let ?s = "createTripScript X (idemKey k) (tripKey cand) cand rider (fmt_f64 X lat) (fmt_f64 X lng)
      (itoa (to_unix (wall X w1))) (IdempotencyTTL div second) k"
  have s: "fst (?s w) = Inr t \<and> db X (snd (?s w)) = db X w" if "idem_is k t (db X w)" for w
  proof -
    have tt: "trip_typed (db X w)" and st: "str_at (db X w) (idemKey k) = Some t"
      using that by (simp_all add: idem_is_def)
    show ?thesis
      by (rule createTripScript_run [OF tt, of k cand rider "fmt_f64 X lat" "fmt_f64 X lng" "itoa (to_unix (wall X w1))"])
        (simp add: st)
  qed
  show "TripID rec = t" if "fst (CreateTrip X rider lat lng k w) = Inr rec"
  proof (cases rule: request_cases [of ?s w1])
    case (1 e)
    then show ?thesis using that by (simp add: CreateTrip_def u io_known)
  next
    case (2 w2)
    have "idem_is k t (db X w2)" using env i1 link_env [of w1] unfolding 2(1) env_keeps_def by blast
    then have "fst (request X ?s w1) = Inr t" using s 2(2) by metis
    then show ?thesis using that by (auto simp: CreateTrip_def u io_known dest: GetTrip_id)
  qed
  have "idem_is k t (db X (snd (GetTrip X t' w)))" if "idem_is k t (db X w)" for t' w
    unfolding GetTrip_def
    by (auto intro!: that io_bind_inv [where I = "\<lambda>w. idem_is k t (db X w)"] call_typed_inv(2) [OF env])
  then show "idem_is k t (db X (snd (CreateTrip X rider lat lng k w)))"
    unfolding CreateTrip_def u
    by (auto intro!: i1 io_bind_inv [where I = "\<lambda>w. idem_is k t (db X w)"] request_inv [OF env] simp: s)
qed

end

context quiet_redis
begin

lemma GetTrip_quiet:
  assumes "trip_typed (db X w)"
  shows "fst (GetTrip X t w) = trip_at X (db X w) t" and "db X (snd (GetTrip X t w)) = db X w"
proof -
  have "fst (call_fields X (HGETALL (tripKey t)) w) = Inr (trip_field (db X w) t)"
    using assms typed_reads(3) unfolding trip_typed_def trip_field_def by blast
  then show "fst (GetTrip X t w) = trip_at X (db X w) t" "db X (snd (GetTrip X t w)) = db X w"
    by (simp_all add: GetTrip_def io_known trip_at_def)
qed

lemma transition_write_quiet:
  assumes "trip_typed (db X w)"
  shows "fst (transition_write X t st to extra w) = (if trip_edge st to then Inr () else Inl (ErrIllegalTripTransition st to))"
    and "db X (snd (transition_write X t st to extra w)) = (if trip_edge st to then move_trip t to extra (db X w) else db X w)"
proof -
  let ?c = "HSET (tripKey t) ((''state'', to) # extra)"
  let ?w1 = "snd (call_unit X ?c w)"
  have h: "fst (call_unit X ?c w) = Inr ()" using assms typed_writes(1) unfolding trip_typed_def by blast
  have "trip_typed (db X ?w1)" using assms by simp
  then have "set_entry (live (db X ?w1) offeredTripsKey)" by (simp add: trip_typed_def)
  then have s: "fst (call_unit X (SADD offeredTripsKey t) ?w1) = Inr ()" "fst (call_unit X (SREM offeredTripsKey [t]) ?w1) = Inr ()"
    using typed_writes(3,4) by blast+
  show "fst (transition_write X t st to extra w) = (if trip_edge st to then Inr () else Inl (ErrIllegalTripTransition st to))"
    using h s by (auto simp: transition_write_def validate_trip io_known)
  show "db X (snd (transition_write X t st to extra w)) = (if trip_edge st to then move_trip t to extra (db X w) else db X w)"
    using h s by (simp add: transition_write_def validate_trip io_known move_trip_def index_trip_def put_trip_def)
qed

lemma transitionTo_quiet:
  assumes "trip_typed (db X w)"
  shows "fst (transitionTo X t to extra w) = (case trip_state_of (db X w) t of None \<Rightarrow> Inl ErrTripNotFound
      | Some st \<Rightarrow> if trip_edge st to then Inr () else Inl (ErrIllegalTripTransition st to))"
    and "db X (snd (transitionTo X t to extra w)) = (case trip_state_of (db X w) t of None \<Rightarrow> db X w
      | Some st \<Rightarrow> if trip_edge st to then move_trip t to extra (db X w) else db X w)"
proof -
  let ?w1 = "snd (call_string X (HGET (tripKey t) ''state'') w)"
  have r: "fst (call_string X (HGET (tripKey t) ''state'') w) = Inr (trip_state_of (db X w) t)"
    using assms typed_reads(2) unfolding trip_typed_def trip_state_of_def trip_field_def by blast
  have t1: "trip_typed (db X ?w1)" using assms by simp
  show "fst (transitionTo X t to extra w) = (case trip_state_of (db X w) t of None \<Rightarrow> Inl ErrTripNotFound
      | Some st \<Rightarrow> if trip_edge st to then Inr () else Inl (ErrIllegalTripTransition st to))"
    using r transition_write_quiet(1) [OF t1]
    by (simp add: transitionTo_def io_known split: option.splits)
  show "db X (snd (transitionTo X t to extra w)) = (case trip_state_of (db X w) t of None \<Rightarrow> db X w
      | Some st \<Rightarrow> if trip_edge st to then move_trip t to extra (db X w) else db X w)"
    using r transition_write_quiet(2) [OF t1]
    by (simp add: transitionTo_def io_known split: option.splits)
qed

lemma CreateTrip_quiet:
  assumes "trip_typed (db X w)"
  obtains created where
    "fst (CreateTrip X rider lat lng k w) = trip_at X (db X (snd (CreateTrip X rider lat lng k w)))
       (case str_at (db X w) (idemKey k) of Some t \<Rightarrow> t | None \<Rightarrow> fst (uuid X w))"
    and "db X (snd (CreateTrip X rider lat lng k w)) = (case str_at (db X w) (idemKey k) of Some t \<Rightarrow> db X w
      | None \<Rightarrow> put_new_trip (fst (uuid X w)) rider (fmt_f64 X lat) (fmt_f64 X lng) k created (db X w))"
    and "created = itoa (to_unix (wall X (snd (uuid X w))))"
proof -
  obtain cand w1 where u: "uuid X w = (cand, w1)" by (cases "uuid X w")
  let ?c = "itoa (to_unix (wall X w1))"
  let ?w2 = "snd (link X w1)"
  have d2: "db X ?w2 = db X w" using uuid_db [of w] u by simp
  then have t2: "trip_typed (db X ?w2)" using assms by simp
  obtain w' where w': "createTripScript X (idemKey k) (tripKey cand) cand rider (fmt_f64 X lat) (fmt_f64 X lng) ?c
        (IdempotencyTTL div second) k ?w2 = (Inr (case str_at (db X w) (idemKey k) of Some t \<Rightarrow> t | None \<Rightarrow> cand), w')"
    and d': "db X w' = (case str_at (db X w) (idemKey k) of Some t \<Rightarrow> db X w
      | None \<Rightarrow> put_new_trip cand rider (fmt_f64 X lat) (fmt_f64 X lng) k ?c (db X w))"
    using createTripScript_run [OF t2, of k cand rider "fmt_f64 X lat" "fmt_f64 X lng" ?c] unfolding d2 by blast
  let ?t = "case str_at (db X w) (idemKey k) of Some t \<Rightarrow> t | None \<Rightarrow> cand"
  have t': "trip_typed (db X w')"
    using assms d' by (auto simp: put_new_trip_def split: option.splits)
  have e: "CreateTrip X rider lat lng k w = GetTrip X ?t w'"
    using w' by (simp add: CreateTrip_def u request_quiet io_known)
  show thesis
    by (rule that [of ?c]) (simp_all add: e GetTrip_quiet [OF t'] d' u split: option.splits)
qed

end

lemma put_new_trip_facts:
  assumes "trip_typed d"
  shows "trip_typed (put_new_trip t rider a b k c d)"
    and "trip_field (put_new_trip t rider a b k c d) t' =
      (if t' = t then put_fields (new_trip_fields rider a b k c) (trip_field d t) else trip_field d t')"
    and "str_at (put_new_trip t rider a b k c d) (idemKey k) = Some t"
    and "live (put_new_trip t rider a b k c d) (idemKey k) = Some (RStr t, Some (rnow d + IdempotencyTTL))"
    and "offered_set (put_new_trip t rider a b k c d) = offered_set d"
proof -
  let ?e = "redis_effect (SET (idemKey k) t (Some IdempotencyTTL)) d"
  have t: "trip_typed ?e" using assms by simp
  then show "trip_typed (put_new_trip t rider a b k c d)" by (simp add: put_new_trip_def)
  show "trip_field (put_new_trip t rider a b k c d) t' =
      (if t' = t then put_fields (new_trip_fields rider a b k c) (trip_field d t) else trip_field d t')"
    by (simp add: put_new_trip_def put_trip_fields [OF t]) (simp add: trip_field_def hash_field_frame)
  show "str_at (put_new_trip t rider a b k c d) (idemKey k) = Some t"
    by (simp add: put_new_trip_def put_trip_def str_at_frame)
  show "live (put_new_trip t rider a b k c d) (idemKey k) = Some (RStr t, Some (rnow d + IdempotencyTTL))"
    by (simp add: put_new_trip_def put_trip_def effect_frame) (simp add: live_effect)
  show "offered_set (put_new_trip t rider a b k c d) = offered_set d"
    by (simp add: put_new_trip_def) (simp add: offered_set_def set_at_frame)
qed

section \<open>Properties of the trip store\<close>

lemma trip_typed_empty [simp]: "trip_typed empty_db"
  by (simp add: trip_typed_def empty_db_def)

definition demo_trip :: "trip_state \<Rightarrow> rdb" where
  "demo_trip st = \<lparr>rnow = 1000 * second,
     live = [tripKey ''t1'' \<mapsto> (RHash [''rider_id'' \<mapsto> ''r1'', ''origin_lat'' \<mapsto> ''12/1'', ''origin_lng'' \<mapsto> ''77/1'',
                             ''state'' \<mapsto> st, ''idempotency_key'' \<mapsto> ''k1'', ''created_at'' \<mapsto> ''990''], None),
             idemKey ''k1'' \<mapsto> (RStr ''t1'', Some (86390 * second))]\<rparr>"

lemma demo_trip_facts:
  "trip_typed (demo_trip st)" "trip_state_of (demo_trip st) ''t1'' = Some st"
  "str_at (demo_trip st) (idemKey ''k1'') = Some ''t1''" "trip_field (demo_trip st) ''t1'' ''state'' = Some st"
  "offered_set (demo_trip st) = {}"
  by (auto simp: demo_trip_def trip_typed_def trip_state_of_def trip_field_def hash_field_def str_at_def
      hash_entry_def str_entry_def offered_set_def set_at_def)

text \<open>
  C9. Outcomes are final: once a trip is \<open>MATCHED\<close> or \<open>UNFULFILLED\<close>, no operation of the
  store on any trip changes a field of it, whatever requests are lost and in whatever
  order other clients that respect it act in between, as long as a new trip is not given the
  identifier of this one; every transition asked of the trip itself is an error.
\<close>

theorem trip_outcome_final:
  assumes "redis_server X env"
    and "\<forall>d d'. env d d' \<longrightarrow> trip_is t m d \<longrightarrow> trip_is t m d'"
    and "m ''state'' \<in> {Some TripMatched, Some TripUnfulfilled}"
    and "trip_is t m (db X w)"
  shows "trip_is t m (db X (snd (SetTripState X t' to w))) \<and>
    trip_is t m (db X (snd (MarkMatched X t' drv w))) \<and>
    trip_is t m (db X (snd (MarkUnfulfilled X t' w))) \<and>
    (fst (uuid X w) \<noteq> t \<longrightarrow> trip_is t m (db X (snd (CreateTrip X rider lat lng k w)))) \<and>
    (\<exists>e. fst (SetTripState X t to w) = Inl e) \<and> (\<exists>e. fst (MarkMatched X t drv w) = Inl e) \<and>
    (\<exists>e. fst (MarkUnfulfilled X t w) = Inl e)"
proof -
  have env: "redis_server.env_keeps env (trip_is t m)"
    using assms(2) by (auto simp: redis_server.env_keeps_def [OF assms(1)])
  have fin: "m ''state'' = Some TripMatched \<or> m ''state'' = Some TripUnfulfilled" using assms(3) by auto
  note f = redis_server.transitionTo_finished [OF assms(1) env assms(4) fin]
  show ?thesis
    unfolding SetTripState_def MarkMatched_def MarkUnfulfilled_def
    using f(1) f(2) [OF refl] redis_server.CreateTrip_keeps [OF assms(1) env assms(4)] by blast
qed

lemma trip_is_time: "time_passes d d' \<Longrightarrow> trip_typed d \<Longrightarrow> trip_typed d'"
  by (auto simp: time_passes_def trip_typed_def entry_elapse)

theorem trip_outcome_final_witness:
  "\<exists>e. fst (MarkUnfulfilled mem_world ''t1'' (demo_trip TripMatched)) = Inl e"
proof -
  have e: "redis_server mem_world (=)" by (rule quiet_redis.axioms(1) [OF mem.quiet_redis_axioms])
  have d: "db mem_world w = w" for w by (simp add: mem_world_def)
  have "trip_is ''t1'' (trip_field (demo_trip TripMatched) ''t1'') (db mem_world (demo_trip TripMatched))"
    by (simp add: trip_is_def demo_trip_facts d)
  moreover have "trip_field (demo_trip TripMatched) ''t1'' ''state'' \<in> {Some TripMatched, Some TripUnfulfilled}"
    by (simp add: demo_trip_facts)
  ultimately show ?thesis
    using trip_outcome_final [OF e, of "''t1''" "trip_field (demo_trip TripMatched) ''t1''"] by blast
qed

text \<open>
  C27. Idempotent creation: while an idempotency key names a trip, every creation with that
  key that returns a trip returns that one, and the key goes on naming it, with other
  clients at work, with requests and replies lost, and whoever the rider of the retry is.
\<close>

theorem CreateTrip_idempotent:
  assumes "redis_server X env"
    and "\<forall>d d'. env d d' \<longrightarrow> idem_is k t d \<longrightarrow> idem_is k t d'"
    and "idem_is k t (db X w)"
  shows "(\<forall>rec. fst (CreateTrip X rider lat lng k w) = Inr rec \<longrightarrow> TripID rec = t) \<and>
    idem_is k t (db X (snd (CreateTrip X rider lat lng k w)))"
proof -
  have env: "redis_server.env_keeps env (idem_is k t)"
    using assms(2) by (auto simp: redis_server.env_keeps_def [OF assms(1)])
  show ?thesis using redis_server.CreateTrip_again [OF assms(1) env assms(3)] by blast
qed

theorem CreateTrip_idempotent_witness:
  "idem_is ''k1'' ''t1'' (snd (CreateTrip mem_world ''r2'' (Fin 1) (Fin 2) ''k1'' (demo_trip TripRequested)))"
proof -
  have e: "redis_server mem_world (=)" by (rule quiet_redis.axioms(1) [OF mem.quiet_redis_axioms])
  have i: "idem_is ''k1'' ''t1'' (db mem_world (demo_trip TripRequested))"
    by (simp add: idem_is_def mem_world_def demo_trip_facts)
  show ?thesis
    using CreateTrip_idempotent [OF e _ i, of "''r2''" "Fin 1" "Fin 2"] by (simp add: mem_world_def)
qed

text \<open>
  Creation: with a free key and a fresh identifier, the trip returned is \<open>REQUESTED\<close>,
  with the rider, origin and key given and no driver; the key is remembered for 24
  hours; other trips and the recovery index are unchanged. A retry with the key, by
  whichever rider and from wherever, returns the same record and changes nothing.
\<close>

theorem CreateTrip_creates:
  assumes "quiet_store X" and "trip_typed (db X w)" and "str_at (db X w) (idemKey k) = None"
    and "trip_field (db X w) (fst (uuid X w)) = Map.empty"
    and "is_f64 lat \<and> is_f64 lng"
  shows "\<exists>rec w'. CreateTrip X rider lat lng k w = (Inr rec, w') \<and>
    TripID rec = fst (uuid X w) \<and> RiderID rec = rider \<and> OriginLat rec = lat \<and> OriginLng rec = lng \<and>
    tr_State rec = TripRequested \<and> IdempotencyKey rec = k \<and> MatchedDriverID rec = '''' \<and>
    live (db X w') (idemKey k) = Some (RStr (TripID rec), Some (rnow (db X w) + IdempotencyTTL)) \<and>
    (\<forall>t. t \<noteq> TripID rec \<longrightarrow> trip_field (db X w') t = trip_field (db X w) t) \<and>
    offered_set (db X w') = offered_set (db X w) \<and>
    (\<forall>rider' lat' lng'. fst (CreateTrip X rider' lat' lng' k w') = Inr rec \<and>
       db X (snd (CreateTrip X rider' lat' lng' k w')) = db X w')"
proof -
  have q: "quiet_redis X" and tf: "text_formats X" using assms(1) by (simp_all add: quiet_store_def)
  let ?t = "fst (uuid X w)" and ?r = "CreateTrip X rider lat lng k w"
  obtain created where fr: "fst ?r = trip_at X (db X (snd ?r)) ?t"
    and d: "db X (snd ?r) = put_new_trip ?t rider (fmt_f64 X lat) (fmt_f64 X lng) k created (db X w)"
    and c: "created = itoa (to_unix (wall X (snd (uuid X w))))"
    using quiet_redis.CreateTrip_quiet [OF q assms(2), of rider lat lng k thesis] assms(3) by auto
  note F = put_new_trip_facts [OF assms(2), of ?t rider "fmt_f64 X lat" "fmt_f64 X lng" k created, folded d]
  have m: "trip_field (db X (snd ?r)) ?t = put_fields (new_trip_fields rider (fmt_f64 X lat) (fmt_f64 X lng) k created) Map.empty"
    using F(2) [of ?t] assms(4) by simp
  have cr: "in_i64 (to_unix (wall X w))" for w by (rule text_formats.clock_range [OF tf])
  let ?rec = "\<lparr>TripID = ?t, RiderID = rider, OriginLat = lat, OriginLng = lng, tr_State = ''REQUESTED'',
      IdempotencyKey = k, MatchedDriverID = '''', tr_CreatedAt = from_unix (to_unix (wall X (snd (uuid X w))))\<rparr>"
  have rec: "trip_at X (db X (snd ?r)) ?t = Inr ?rec"
    using assms(5) by (simp add: trip_at_def m new_trip_fields_def parseTripRecord_def
        text_formats.parse_fmt [OF tf] c cr field_def)
  have again: "fst (CreateTrip X rider' lat' lng' k (snd ?r)) = Inr ?rec \<and>
      db X (snd (CreateTrip X rider' lat' lng' k (snd ?r))) = db X (snd ?r)" for rider' lat' lng'
    by (rule quiet_redis.CreateTrip_quiet [OF q F(1), of rider' lat' lng' k]) (simp add: F(3) rec)
  have "?r = (Inr ?rec, snd ?r)" using fr rec by (cases ?r) simp
  with again F(2,4,5) show ?thesis
    by (intro exI [of _ ?rec] exI [of _ "snd ?r"]) (auto simp: TripRequested_def)
qed

theorem CreateTrip_creates_witness:
  "\<exists>rec w'. CreateTrip mem_world ''r1'' (Fin 12) (Fin 77) ''k1'' empty_db = (Inr rec, w') \<and>
     RiderID rec = ''r1'' \<and> (\<forall>r a b. fst (CreateTrip mem_world r a b ''k1'' w') = Inr rec)"
proof -
  have t: "trip_typed (db mem_world empty_db)" "str_at (db mem_world empty_db) (idemKey ''k1'') = None"
    by (simp_all add: mem_world_def) (simp add: str_at_def empty_db_def)
  have f: "trip_field (db mem_world empty_db) x = Map.empty" for x
    by (intro ext) (simp add: trip_field_def hash_field_def empty_db_def mem_world_def)
  have n: "is_f64 (Fin 12) \<and> is_f64 (Fin 77)"
    using rnd_int [of 12] rnd_int [of 77] by (simp add: is_f64_def)
  show ?thesis
    using CreateTrip_creates [OF mem.quiet_store_axioms t f n, of "''r1''"] by blast
qed

lemma move_trip_facts:
  assumes "trip_typed d"
  shows "trip_typed (move_trip t to extra d)"
    and "trip_field (move_trip t to extra d) t' =
      (if t' = t then put_fields extra ((trip_field d t)(''state'' \<mapsto> to)) else trip_field d t')"
    and "offered_set (move_trip t to extra d) =
      (if to = TripOffered then insert t (offered_set d)
       else if to = TripMatched \<or> to = TripUnfulfilled then offered_set d - {t} else offered_set d)"
  using assms by (simp_all add: move_trip_def put_trip_fields index_trip_offered)

lemma put_fields_other: "f \<notin> fst ` set fvs \<Longrightarrow> put_fields fvs m f = m f"
  by (induction fvs arbitrary: m) auto

lemma move_trip_exact:
  assumes "trip_typed d" "offered_exact d" "trip_edge st to" "''state'' \<notin> fst ` set extra"
  shows "offered_exact (move_trip t to extra d)"
proof -
  have "to \<in> {TripOffered, TripMatched, TripUnfulfilled}" using assms(3) by (auto simp: trip_edge_iff)
  then show ?thesis
    using assms(2) move_trip_facts(2,3) [OF assms(1), of t "to" extra] put_fields_other [OF assms(4)]
    by (auto simp: offered_exact_def trip_state_of_def trip_states split: if_splits)
qed

text \<open>
  C31. Trip transitions: a legal one is written, together with its extra fields (the
  matched driver), an unknown trip and an illegal transition are refused with their
  errors and nothing changes; other trips are never touched; and the recovery index
  stays exact: it holds precisely the trips in state \<open>OFFERED\<close>.
\<close>

theorem transitionTo_correct:
  assumes "quiet_redis X" and "trip_typed (db X w)" and "''state'' \<notin> fst ` set extra"
  shows "let r = transitionTo X t to extra w; d = db X w; d' = db X (snd r) in
    (case trip_state_of d t of
       None \<Rightarrow> fst r = Inl ErrTripNotFound \<and> d' = d
     | Some from \<Rightarrow>
         if trip_edge from to
         then fst r = Inr () \<and> trip_field d' t = put_fields extra ((trip_field d t)(''state'' \<mapsto> to))
         else fst r = Inl (ErrIllegalTripTransition from to) \<and> d' = d) \<and>
    (\<forall>t'. t' \<noteq> t \<longrightarrow> trip_field d' t' = trip_field d t') \<and>
    (offered_exact d \<longrightarrow> offered_exact d')"
proof -
  note q = quiet_redis.transitionTo_quiet [OF assms(1,2), of t "to" extra]
  note f = move_trip_facts(2) [OF assms(2), of t "to" extra]
  note x = move_trip_exact [OF assms(2) _ _ assms(3), of _ "to" t]
  show ?thesis
  proof (cases "trip_state_of (db X w) t")
    case None
    then show ?thesis using q by (simp add: Let_def)
  next
    case (Some st)
    show ?thesis
    proof (cases "trip_edge st to")
      case True
      then show ?thesis using q f x [of st] Some by (simp add: Let_def)
    next
      case False
      then show ?thesis using q Some by (simp add: Let_def)
    qed
  qed
qed

theorem transitionTo_correct_witness:
  "fst (MarkMatched mem_world ''t1'' ''d1'' (demo_trip TripOffered)) = Inr () \<and>
   fst (MarkMatched mem_world ''t1'' ''d1'' (demo_trip TripRequested)) = Inl (ErrIllegalTripTransition ''REQUESTED'' ''MATCHED'')"
proof -
  have d: "db mem_world w = w" for w by (simp add: mem_world_def)
  have t: "trip_typed (db mem_world (demo_trip st))" for st by (simp add: d demo_trip_facts)
  have x: "''state'' \<notin> fst ` set [(''matched_driver_id'', ''d1'')]" by simp
  have e: "trip_edge TripOffered TripMatched" "\<not> trip_edge TripRequested TripMatched"
    by (simp_all add: trip_edge_iff trip_states)
  show ?thesis
    unfolding MarkMatched_def
    using transitionTo_correct [OF mem.quiet_redis_axioms t x, of "''t1''" TripMatched TripOffered]
      transitionTo_correct [OF mem.quiet_redis_axioms t x, of "''t1''" TripMatched TripRequested]
    by (simp add: Let_def d demo_trip_facts e) (simp add: trip_states)
qed

end
