(* ===== verification/OfferStore.thy ===== *)
theory OfferStore
  imports TripStore
begin

text \<open>
  \<open>internal/store/offer.go\<close> and \<open>internal/store/surge.go\<close>: the offer open for a trip, a
  hash that expires with the offer window, the reverse index from a driver to the trip it
  is offered, and the surge multiplier of a cell, which ages out after ten minutes.
\<close>

record OfferRecord =
  or_TripID :: string
  or_DriverID :: string
  or_Round :: int
  or_State :: offer_state
  or_CreatedAt :: int

definition offerKey :: "string \<Rightarrow> string" where "offerKey tripID = ''offer:'' @ tripID"

definition driverOfferKey :: "string \<Rightarrow> string" where "driverOfferKey driverID = ''driver_offer:'' @ driverID"

definition CreateOffer :: "'w ext \<Rightarrow> string \<Rightarrow> string \<Rightarrow> int \<Rightarrow> int \<Rightarrow> ('w, unit) io" where
  "CreateOffer X tripID driverID rno ttl = io_wrap ''create offer'' (\<lambda>w.
     tx_pipeline X
       [HSET (offerKey tripID)
          [(''driver_id'', driverID), (''round'', itoa rno), (''state'', OfferPending),
           (''created_at'', itoa (to_unix (wall X w)))],
        EXPIRE (offerKey tripID) (ExpireTTL X ttl),
        SET (driverOfferKey driverID) tripID (SetTTL X ttl)] w)"

definition CurrentOfferFor :: "'w ext \<Rightarrow> string \<Rightarrow> ('w, string) io" where
  "CurrentOfferFor X driverID =
     io_bind (io_wrap ''get driver offer'' (call_string X (GET (driverOfferKey driverID)))) (\<lambda>r.
     case r of None \<Rightarrow> io_fail ErrOfferNotFound | Some tripID \<Rightarrow> io_return tripID)"

definition parseOfferRecord :: "string \<Rightarrow> (string \<rightharpoonup> string) \<Rightarrow> OfferRecord result" where
  "parseOfferRecord tripID flds =
     (case parse_int64 (field flds ''round'') of Inl e \<Rightarrow> Inl (Errorf ''parse round'' e) | Inr rno \<Rightarrow>
      case parse_int64 (field flds ''created_at'') of Inl e \<Rightarrow> Inl (Errorf ''parse created_at'' e) | Inr created \<Rightarrow>
      Inr \<lparr>or_TripID = tripID, or_DriverID = field flds ''driver_id'', or_Round = rno,
           or_State = field flds ''state'', or_CreatedAt = from_unix created\<rparr>)"

definition GetOffer :: "'w ext \<Rightarrow> string \<Rightarrow> ('w, OfferRecord) io" where
  "GetOffer X tripID =
     io_bind (io_wrap ''hgetall'' (call_fields X (HGETALL (offerKey tripID)))) (\<lambda>flds.
     if flds = Map.empty then io_fail ErrOfferNotFound
     else io_lift (parseOfferRecord tripID flds))"

text \<open>The writes of \<open>SetOfferState\<close>, after the read and the checks, are a definition of their own.\<close>

definition SetOfferState_write :: "'w ext \<Rightarrow> string \<Rightarrow> string \<Rightarrow> offer_state \<Rightarrow> ('w, unit) io" where
  "SetOfferState_write X tripID driverID to =
     io_bind (call_unit X (HSET (offerKey tripID) [(''state'', to)])) (\<lambda>_.
     call_unit X (DEL (driverOfferKey driverID)))"

definition SetOfferState :: "'w ext \<Rightarrow> string \<Rightarrow> string \<Rightarrow> offer_state \<Rightarrow> ('w, unit) io" where
  "SetOfferState X tripID driverID to =
     io_bind (GetOffer X tripID) (\<lambda>rec.
     if or_DriverID rec \<noteq> driverID then io_fail ErrOfferStale
     else io_bind (io_lift (ValidateOfferTransition (or_State rec) to)) (\<lambda>_.
       SetOfferState_write X tripID driverID to))"

definition SurgeTTL :: int where "SurgeTTL = 10 * minute"

definition surge_key :: "string \<Rightarrow> string" where "surge_key c = ''cell:'' @ c @ '':surge''"

definition surgeKey :: "'w ext \<Rightarrow> cell \<Rightarrow> string" where "surgeKey X c = surge_key (CellString X c)"

definition SetMultiplier :: "'w ext \<Rightarrow> cell \<Rightarrow> f64 \<Rightarrow> ('w, unit) io" where
  "SetMultiplier X c multiplier =
     io_wrap ''set surge multiplier'' (call_unit X (SET (surgeKey X c) (fmt_f64 X multiplier) (SetTTL X SurgeTTL)))"

definition GetMultiplier :: "'w ext \<Rightarrow> cell \<Rightarrow> ('w, f64) io" where
  "GetMultiplier X c =
     io_bind (io_wrap ''get surge multiplier'' (call_string X (GET (surgeKey X c)))) (\<lambda>val.
     case val of None \<Rightarrow> io_return (Fin 1)
     | Some s \<Rightarrow> io_wrap ''parse surge multiplier'' (io_lift (ParseFloat X s)))"

section \<open>Keys\<close>

lemma offer_keys_inj [simp]:
  "offerKey a = offerKey b \<longleftrightarrow> a = b" "driverOfferKey a = driverOfferKey b \<longleftrightarrow> a = b"
  "surge_key a = surge_key b \<longleftrightarrow> a = b"
  by (simp_all add: offerKey_def driverOfferKey_def surge_key_def)

lemma offer_keys [simp, key_simps]:
  "offerKey a \<noteq> driverOfferKey b" "driverOfferKey b \<noteq> offerKey a"
  "offerKey a \<noteq> driverKey b" "driverKey b \<noteq> offerKey a"
  "offerKey a \<noteq> cell_set_key c" "cell_set_key c \<noteq> offerKey a"
  "offerKey a \<noteq> tripKey b" "tripKey b \<noteq> offerKey a"
  "offerKey a \<noteq> idemKey b" "idemKey b \<noteq> offerKey a"
  "offerKey a \<noteq> offeredTripsKey" "offeredTripsKey \<noteq> offerKey a"
  "driverOfferKey a \<noteq> driverKey b" "driverKey b \<noteq> driverOfferKey a"
  "driverOfferKey a \<noteq> cell_set_key c" "cell_set_key c \<noteq> driverOfferKey a"
  "driverOfferKey a \<noteq> tripKey b" "tripKey b \<noteq> driverOfferKey a"
  "driverOfferKey a \<noteq> idemKey b" "idemKey b \<noteq> driverOfferKey a"
  "driverOfferKey a \<noteq> offeredTripsKey" "offeredTripsKey \<noteq> driverOfferKey a"
  by (simp_all add: offerKey_def driverOfferKey_def tripKey_def idemKey_def offeredTripsKey_def
      driverKey_def cell_set_key_def)

lemma surge_cell_keys: "surge_key a \<noteq> cell_set_key b"
proof
  assume "surge_key a = cell_set_key b"
  then have "last (surge_key a) = last (cell_set_key b)" by simp
  then show False by (simp add: surge_key_def cell_set_key_def)
qed

lemma surge_keys [simp, key_simps]:
  "surge_key a \<noteq> cell_set_key b" "cell_set_key b \<noteq> surge_key a"
  "surge_key a \<noteq> driverKey i" "driverKey i \<noteq> surge_key a"
  "surge_key a \<noteq> tripKey t" "tripKey t \<noteq> surge_key a"
  "surge_key a \<noteq> idemKey k" "idemKey k \<noteq> surge_key a"
  "surge_key a \<noteq> offeredTripsKey" "offeredTripsKey \<noteq> surge_key a"
  "surge_key a \<noteq> offerKey t" "offerKey t \<noteq> surge_key a"
  "surge_key a \<noteq> driverOfferKey i" "driverOfferKey i \<noteq> surge_key a"
  using surge_cell_keys [of a b] surge_cell_keys [of a b, symmetric]
  by (simp_all add: surge_key_def driverKey_def tripKey_def idemKey_def offeredTripsKey_def offerKey_def driverOfferKey_def)

section \<open>The keyspace as offers\<close>

definition offer_typed :: "rdb \<Rightarrow> bool" where
  "offer_typed d \<longleftrightarrow> (\<forall>t. hash_entry (live d (offerKey t))) \<and> (\<forall>i. str_entry (live d (driverOfferKey i)))"

definition offer_field :: "rdb \<Rightarrow> string \<Rightarrow> (string \<rightharpoonup> string)" where
  "offer_field d t = hash_field d (offerKey t)"

definition offered_to :: "rdb \<Rightarrow> string \<Rightarrow> string option" where
  "offered_to d i = str_at d (driverOfferKey i)"

definition offer_at :: "rdb \<Rightarrow> string \<Rightarrow> OfferRecord result" where
  "offer_at d t = (if offer_field d t = Map.empty then Inl ErrOfferNotFound else parseOfferRecord t (offer_field d t))"

definition offer_fields :: "string \<Rightarrow> int \<Rightarrow> string \<Rightarrow> (string \<times> string) list" where
  "offer_fields i rno created =
     [(''driver_id'', i), (''round'', itoa rno), (''state'', OfferPending), (''created_at'', created)]"

text \<open>The hash lives for \<open>ttl\<close>, the reverse index for \<open>ttl'\<close>.\<close>

definition open_offer :: "string \<Rightarrow> string \<Rightarrow> int \<Rightarrow> string \<Rightarrow> int \<Rightarrow> int option \<Rightarrow> rdb \<Rightarrow> rdb" where
  "open_offer t i rno created ttl ttl' d =
     redis_effect (SET (driverOfferKey i) t ttl')
       (redis_effect (EXPIRE (offerKey t) ttl) (redis_effect (HSET (offerKey t) (offer_fields i rno created)) d))"

definition close_offer :: "string \<Rightarrow> string \<Rightarrow> offer_state \<Rightarrow> rdb \<Rightarrow> rdb" where
  "close_offer t i to d = redis_effect (DEL (driverOfferKey i)) (redis_effect (HSET (offerKey t) [(''state'', to)]) d)"

lemma offer_typed_frame:
  "(\<forall>t. offerKey t \<noteq> cmd_key c) \<Longrightarrow> (\<forall>i. driverOfferKey i \<noteq> cmd_key c) \<Longrightarrow>
     offer_typed (redis_effect c d) = offer_typed d"
  by (simp add: offer_typed_def effect_frame)

lemma offer_typed_writes [simp]:
  assumes "offer_typed d"
  shows "offer_typed (redis_effect (HSET (offerKey t) fvs) d)"
    "offer_typed (redis_effect (EXPIRE (offerKey t) n) d)"
    "offer_typed (redis_effect (SET (driverOfferKey i) v ttl) d)"
    "offer_typed (redis_effect (DEL (driverOfferKey i)) d)"
  using assms by (auto simp: offer_typed_def live_effect simp del: cmd_value.simps)

lemma hash_field_expire_at: "0 < n \<Longrightarrow> hash_field (redis_effect (EXPIRE k n) d) k' = hash_field d k'"
  by (intro ext) (auto simp: hash_field_def live_effect split: option.splits)

lemma open_offer_facts:
  assumes "offer_typed d" "0 < ttl"
  shows "offer_typed (open_offer t i rno created ttl ttl' d)"
    and "offer_field (open_offer t i rno created ttl ttl' d) t' =
      (if t' = t then put_fields (offer_fields i rno created) (offer_field d t) else offer_field d t')"
    and "offered_to (open_offer t i rno created ttl ttl' d) i' = (if i' = i then Some t else offered_to d i')"
    and "live (open_offer t i rno created ttl ttl' d) (driverOfferKey i) = Some (RStr t, map_option ((+) (rnow d)) ttl')"
    and "\<exists>m. live (open_offer t i rno created ttl ttl' d) (offerKey t) = Some (RHash m, Some (rnow d + ttl))"
proof -
  show "offer_typed (open_offer t i rno created ttl ttl' d)" using assms by (simp add: open_offer_def)
  have h: "hash_entry (live d (offerKey t'))" for t' using assms(1) by (simp add: offer_typed_def)
  then show "offer_field (open_offer t i rno created ttl ttl' d) t' =
      (if t' = t then put_fields (offer_fields i rno created) (offer_field d t) else offer_field d t')"
    using assms(2) by (simp add: offer_field_def open_offer_def hash_field_frame hash_field_expire_at hash_field_hset_at)
  show "offered_to (open_offer t i rno created ttl ttl' d) i' = (if i' = i then Some t else offered_to d i')"
    by (simp add: offered_to_def open_offer_def str_at_frame)
  show "live (open_offer t i rno created ttl ttl' d) (driverOfferKey i) = Some (RStr t, map_option ((+) (rnow d)) ttl')"
    by (simp add: open_offer_def live_effect)
  show "\<exists>m. live (open_offer t i rno created ttl ttl' d) (offerKey t) = Some (RHash m, Some (rnow d + ttl))"
    using h [of t] assms(2) by (auto simp: hash_entry_cases open_offer_def live_effect)
qed

lemma close_offer_facts:
  assumes "offer_typed d"
  shows "offer_typed (close_offer t i to d)"
    and "offer_field (close_offer t i to d) t' =
      (if t' = t then (offer_field d t)(''state'' \<mapsto> to) else offer_field d t')"
    and "offered_to (close_offer t i to d) i' = (if i' = i then None else offered_to d i')"
proof -
  show "offer_typed (close_offer t i to d)" using assms by (simp add: close_offer_def)
  have "hash_entry (live d (offerKey t'))" for t' using assms by (simp add: offer_typed_def)
  then show "offer_field (close_offer t i to d) t' =
      (if t' = t then (offer_field d t)(''state'' \<mapsto> to) else offer_field d t')"
    by (simp add: offer_field_def close_offer_def hash_field_frame hash_field_hset_at)
  show "offered_to (close_offer t i to d) i' = (if i' = i then None else offered_to d i')"
    by (simp add: offered_to_def close_offer_def str_at_frame) (simp add: str_at_def live_effect)
qed

context redis_server
begin

lemma surge_ttl [simp]: "SetTTL X SurgeTTL = Some SurgeTTL"
  using ttl_whole [of SurgeTTL] by (simp add: SurgeTTL_def time_units)

end

section \<open>What the methods compute when nobody interferes\<close>

context quiet_redis
begin

lemma server_calls_ok:
  assumes "\<And>c w. c \<in> set cs \<Longrightarrow> P (db X w) \<Longrightarrow> (\<exists>r. fst (server_call X c w) = Inr r) \<and> P (redis_effect c (db X w))"
    and "P (db X w)"
  shows "fst (server_calls X cs w) = Inr () \<and> db X (snd (server_calls X cs w)) = fold redis_effect cs (db X w)"
  using assms
proof (induction cs arbitrary: w)
  case (Cons c cs)
  obtain r where r: "fst (server_call X c w) = Inr r" "P (redis_effect c (db X w))"
    using Cons.prems by auto
  have "fst (server_calls X cs (snd (server_call X c w))) = Inr () \<and>
      db X (snd (server_calls X cs (snd (server_call X c w)))) = fold redis_effect cs (db X (snd (server_call X c w)))"
    using Cons.prems r(2) by (intro Cons.IH) auto
  then show ?case using r(1) by (simp add: io_known)
qed simp

lemma CreateOffer_quiet:
  assumes "offer_typed (db X w)"
  shows "fst (CreateOffer X t i rno ttl w) = Inr ()"
    and "db X (snd (CreateOffer X t i rno ttl w)) = open_offer t i rno (itoa (to_unix (wall X w))) (ExpireTTL X ttl) (SetTTL X ttl) (db X w)"
proof -
  let ?cs = "[HSET (offerKey t) (offer_fields i rno (itoa (to_unix (wall X w)))), EXPIRE (offerKey t) (ExpireTTL X ttl),
      SET (driverOfferKey i) t (SetTTL X ttl)]"
  have "fst (server_calls X ?cs (snd (link X w))) = Inr () \<and>
      db X (snd (server_calls X ?cs (snd (link X w)))) = fold redis_effect ?cs (db X (snd (link X w)))"
    using assms server_write(1,5,6)
    by (intro server_calls_ok [where P = offer_typed]) (auto simp: offer_typed_def [of "db X _"])
  then show "fst (CreateOffer X t i rno ttl w) = Inr ()"
    "db X (snd (CreateOffer X t i rno ttl w)) = open_offer t i rno (itoa (to_unix (wall X w))) (ExpireTTL X ttl) (SetTTL X ttl) (db X w)"
    by (simp_all add: CreateOffer_def tx_pipeline_def request_quiet io_wrap_fst offer_fields_def [symmetric] open_offer_def
        del: server_calls.simps)
qed

lemma CurrentOfferFor_quiet:
  assumes "offer_typed (db X w)"
  shows "fst (CurrentOfferFor X i w) = (case offered_to (db X w) i of None \<Rightarrow> Inl ErrOfferNotFound | Some t \<Rightarrow> Inr t)"
    and "db X (snd (CurrentOfferFor X i w)) = db X w"
proof -
  have "fst (call_string X (GET (driverOfferKey i)) w) = Inr (offered_to (db X w) i)"
    using assms typed_reads(1) unfolding offer_typed_def offered_to_def by blast
  then show "fst (CurrentOfferFor X i w) = (case offered_to (db X w) i of None \<Rightarrow> Inl ErrOfferNotFound | Some t \<Rightarrow> Inr t)"
    "db X (snd (CurrentOfferFor X i w)) = db X w"
    by (simp_all add: CurrentOfferFor_def io_known split: option.splits)
qed

lemma GetOffer_quiet:
  assumes "offer_typed (db X w)"
  shows "fst (GetOffer X t w) = offer_at (db X w) t" and "db X (snd (GetOffer X t w)) = db X w"
proof -
  have "fst (call_fields X (HGETALL (offerKey t)) w) = Inr (offer_field (db X w) t)"
    using assms typed_reads(3) unfolding offer_typed_def offer_field_def by blast
  then show "fst (GetOffer X t w) = offer_at (db X w) t" "db X (snd (GetOffer X t w)) = db X w"
    by (simp_all add: GetOffer_def io_known offer_at_def)
qed

lemma SetOfferState_quiet:
  assumes "offer_typed (db X w)"
  shows "fst (SetOfferState X t i to w) = (case offer_at (db X w) t of Inl e \<Rightarrow> Inl e
      | Inr rec \<Rightarrow> if or_DriverID rec \<noteq> i then Inl ErrOfferStale
          else if offer_edge (or_State rec) to then Inr () else Inl (ErrIllegalOfferTransition (or_State rec) to))"
    and "db X (snd (SetOfferState X t i to w)) = (case offer_at (db X w) t of Inl e \<Rightarrow> db X w
      | Inr rec \<Rightarrow> if or_DriverID rec = i \<and> offer_edge (or_State rec) to then close_offer t i to (db X w) else db X w)"
proof -
  let ?w1 = "snd (GetOffer X t w)"
  have g: "fst (GetOffer X t w) = offer_at (db X w) t" "db X ?w1 = db X w" by (rule GetOffer_quiet [OF assms])+
  have h: "fst (call_unit X (HSET (offerKey t) [(''state'', to)]) ?w1) = Inr ()"
    using assms g(2) typed_writes(1) unfolding offer_typed_def by metis
  have del: "fst (call_unit X (DEL (driverOfferKey i)) w) = Inr ()" for w by (rule write_quiet(4))
  show "fst (SetOfferState X t i to w) = (case offer_at (db X w) t of Inl e \<Rightarrow> Inl e
      | Inr rec \<Rightarrow> if or_DriverID rec \<noteq> i then Inl ErrOfferStale
          else if offer_edge (or_State rec) to then Inr () else Inl (ErrIllegalOfferTransition (or_State rec) to))"
    using g h del by (auto simp: SetOfferState_def SetOfferState_write_def io_known validate_offer split: sum.splits)
  show "db X (snd (SetOfferState X t i to w)) = (case offer_at (db X w) t of Inl e \<Rightarrow> db X w
      | Inr rec \<Rightarrow> if or_DriverID rec = i \<and> offer_edge (or_State rec) to then close_offer t i to (db X w) else db X w)"
    using g h del by (auto simp: SetOfferState_def SetOfferState_write_def io_known validate_offer close_offer_def split: sum.splits)
qed

end

section \<open>Properties of the offer and surge stores\<close>

lemma offer_typed_empty [simp]: "offer_typed empty_db"
  by (simp add: offer_typed_def empty_db_def)

lemma offer_typed_elapse: "offer_typed d \<Longrightarrow> offer_typed (elapse dt d)"
  by (simp add: offer_typed_def entry_elapse)

lemma live_elapse_expiry:
  "live d k = Some (v, Some t) \<Longrightarrow> live (elapse dt d) k = (if rnow d + dt < t then Some (v, Some t) else None)"
  by (simp add: elapse_def)

text \<open>
  C32. The offer window: an offer just opened is read back as \<open>PENDING\<close> for its driver and
  round for the window rounded down to whole seconds, but at least one second, and the
  driver's reverse index names the trip for the window itself if that is a number of whole
  seconds, and else for the window rounded down to milliseconds, but at least one; from then
  on each of them is gone. For a window of whole seconds the two end together; for another
  one they need not, although the code's comment gives them the same time to live.
\<close>

theorem CreateOffer_window:
  assumes "quiet_store X" and "offer_typed (db X w)" and "0 < ttl" and "in_i64 rno"
  shows "let hash_for = max 1 (ttl div second) * second;
      index_for = (if second dvd ttl then ttl else max 1 (ttl div millisecond) * millisecond)
    in (\<exists>w'. CreateOffer X t i rno ttl w = (Inr (), w') \<and>
      (\<forall>dt w''. 0 \<le> dt \<longrightarrow> db X w'' = elapse dt (db X w') \<longrightarrow>
        (if dt < hash_for
         then \<exists>rec. fst (GetOffer X t w'') = Inr rec \<and> or_TripID rec = t \<and> or_DriverID rec = i \<and> or_Round rec = rno \<and>
                or_State rec = OfferPending \<and> or_CreatedAt rec = from_unix (to_unix (wall X w))
         else fst (GetOffer X t w'') = Inl ErrOfferNotFound) \<and>
        fst (CurrentOfferFor X i w'') = (if dt < index_for then Inr t else Inl ErrOfferNotFound))) \<and>
    (second dvd ttl \<longrightarrow> hash_for = ttl \<and> index_for = ttl)"
proof -
  have q: "quiet_redis X" and tf: "text_formats X" using assms(1) by (simp_all add: quiet_store_def)
  have rs: "redis_server X (=)" by (rule quiet_redis.axioms(1) [OF q])
  have cr: "in_i64 (to_unix (wall X w))" by (rule text_formats.clock_range [OF tf])
  let ?c = "itoa (to_unix (wall X w))" and ?h = "max 1 (ttl div second) * second"
  let ?x = "if second dvd ttl then ttl else max 1 (ttl div millisecond) * millisecond"
  have ttl: "ExpireTTL X ttl = ?h" "SetTTL X ttl = Some ?x"
    using redis_server.expire_seconds [OF rs assms(3)] redis_server.set_precise [OF rs assms(3)] .
  have hp: "0 < ?h" by (simp add: second_def)
  obtain w' where w': "CreateOffer X t i rno ttl w = (Inr (), w')" "db X w' = open_offer t i rno ?c ?h (Some ?x) (db X w)"
    using quiet_redis.CreateOffer_quiet [OF q assms(2), of t i rno ttl] unfolding ttl by (cases "CreateOffer X t i rno ttl w") auto
  note F = open_offer_facts [OF assms(2) hp, of t i rno ?c "Some ?x", folded w'(2)]
  have rn: "rnow (db X w') = rnow (db X w)" by (simp add: w'(2) open_offer_def)
  obtain m where m: "live (db X w') (offerKey t) = Some (RHash m, Some (rnow (db X w) + ?h))" using F(5) by blast
  have mf: "m = put_fields (offer_fields i rno ?c) (offer_field (db X w) t)"
    using F(2) [of t] m by (simp add: offer_field_def hash_field_def fun_eq_iff)
  have "(if dt < ?h
         then \<exists>rec. fst (GetOffer X t w'') = Inr rec \<and> or_TripID rec = t \<and> or_DriverID rec = i \<and> or_Round rec = rno \<and>
                or_State rec = OfferPending \<and> or_CreatedAt rec = from_unix (to_unix (wall X w))
         else fst (GetOffer X t w'') = Inl ErrOfferNotFound) \<and>
        fst (CurrentOfferFor X i w'') = (if dt < ?x then Inr t else Inl ErrOfferNotFound)"
    if dt: "db X w'' = elapse dt (db X w')" for dt w''
  proof -
    have ty: "offer_typed (db X w'')" using F(1) dt offer_typed_elapse by simp
    have l: "live (db X w'') (offerKey t) = (if dt < ?h then Some (RHash m, Some (rnow (db X w) + ?h)) else None)"
      "live (db X w'') (driverOfferKey i) = (if dt < ?x then Some (RStr t, Some (rnow (db X w) + ?x)) else None)"
      using live_elapse_expiry [OF m, of dt] live_elapse_expiry [OF F(4) [unfolded option.map], of dt] unfolding dt rn by simp_all
    have "offer_field (db X w'') t = (if dt < ?h then m else Map.empty)"
      by (intro ext) (simp add: offer_field_def hash_field_def l(1))
    moreover have "offered_to (db X w'') i = (if dt < ?x then Some t else None)"
      unfolding offered_to_def str_at_def l(2) by simp
    ultimately show ?thesis
      unfolding quiet_redis.GetOffer_quiet(1) [OF q ty] quiet_redis.CurrentOfferFor_quiet(1) [OF q ty]
      using assms(4) cr by (simp add: offer_at_def mf offer_fields_def parseOfferRecord_def field_def)
  qed
  moreover have "second dvd ttl \<longrightarrow> ?h = ttl \<and> ?x = ttl"
    using redis_server.ttl_whole [OF rs assms(3)] unfolding ttl by simp
  ultimately show ?thesis using w'(1) unfolding Let_def by blast
qed

text \<open>The window of the tests, 1.1 s: after a second the hash is gone and the index is not.\<close>

theorem CreateOffer_window_witness:
  "(\<exists>w'. CreateOffer mem_world ''t1'' ''d1'' 1 (25 * second) empty_db = (Inr (), w') \<and>
     fst (CurrentOfferFor mem_world ''d1'' (elapse (24 * second) w')) = Inr ''t1'' \<and>
     fst (CurrentOfferFor mem_world ''d1'' (elapse (25 * second) w')) = Inl ErrOfferNotFound) \<and>
   (\<exists>w'. CreateOffer mem_world ''t1'' ''d1'' 1 (1100 * millisecond) empty_db = (Inr (), w') \<and>
     fst (GetOffer mem_world ''t1'' (elapse second w')) = Inl ErrOfferNotFound \<and>
     fst (CurrentOfferFor mem_world ''d1'' (elapse second w')) = Inr ''t1'')"
proof -
  have d: "db mem_world w = w" for w by (simp add: mem_world_def)
  have t: "offer_typed (db mem_world empty_db)" by (simp add: d)
  have n: "0 < 25 * second" "0 < 1100 * millisecond" "in_i64 1" by (simp_all add: time_units in_i64_def)
  have u: "25 * second = 25000000000" "1100 * millisecond = 1100000000" "second = 1000000000" "millisecond = 1000000" "24 * second = 24000000000"
    by (simp_all add: time_units)
  obtain w1 where w1: "CreateOffer mem_world ''t1'' ''d1'' 1 (25 * second) empty_db = (Inr (), w1)"
    and f1: "\<And>dt. 0 \<le> dt \<Longrightarrow> fst (CurrentOfferFor mem_world ''d1'' (elapse dt w1)) = (if dt < 25 * second then Inr ''t1'' else Inl ErrOfferNotFound)"
    using CreateOffer_window [OF mem.quiet_store_axioms t n(1,3), of "''t1''" "''d1''"] unfolding d Let_def u by auto
  obtain w2 where w2: "CreateOffer mem_world ''t1'' ''d1'' 1 (1100 * millisecond) empty_db = (Inr (), w2)"
    and f2: "fst (GetOffer mem_world ''t1'' (elapse second w2)) = Inl ErrOfferNotFound"
      "fst (CurrentOfferFor mem_world ''d1'' (elapse second w2)) = Inr ''t1''"
    using CreateOffer_window [OF mem.quiet_store_axioms t n(2,3), of "''t1''" "''d1''"] unfolding d Let_def u by fastforce
  show ?thesis using w1 f1 [of "24 * second"] f1 [of "25 * second"] w2 f2 unfolding u by simp
qed

definition demo_offer :: "offer_state \<Rightarrow> rdb" where
  "demo_offer st = \<lparr>rnow = 1000 * second,
     live = [offerKey ''t1'' \<mapsto> (RHash [''driver_id'' \<mapsto> ''d1'', ''round'' \<mapsto> ''1'', ''state'' \<mapsto> st,
                             ''created_at'' \<mapsto> ''1000''], Some (1025 * second)),
             driverOfferKey ''d1'' \<mapsto> (RStr ''t1'', Some (1025 * second))]\<rparr>"

lemma demo_offer_facts:
  "offer_typed (demo_offer st)" "offered_to (demo_offer st) ''d1'' = Some ''t1''"
  "offer_at (demo_offer st) ''t1'' = Inr \<lparr>or_TripID = ''t1'', or_DriverID = ''d1'', or_Round = 1,
     or_State = st, or_CreatedAt = 1000 * second\<rparr>"
proof -
  show "offer_typed (demo_offer st)" "offered_to (demo_offer st) ''d1'' = Some ''t1''"
    by (auto simp: demo_offer_def offer_typed_def hash_entry_def str_entry_def offered_to_def str_at_def)
  have i: "itoa 1 = ''1''" "itoa 1000 = ''1000''" by code_simp+
  have p: "parse_int64 ''1'' = Inr 1" "parse_int64 ''1000'' = Inr 1000"
    using parse_int64_itoa [of 1] parse_int64_itoa [of 1000] unfolding i by (simp_all add: in_i64_def)
  have f: "offer_field (demo_offer st) ''t1'' = [''driver_id'' \<mapsto> ''d1'', ''round'' \<mapsto> ''1'', ''state'' \<mapsto> st, ''created_at'' \<mapsto> ''1000'']"
    by (intro ext) (simp add: offer_field_def hash_field_def demo_offer_def)
  show "offer_at (demo_offer st) ''t1'' = Inr \<lparr>or_TripID = ''t1'', or_DriverID = ''d1'', or_Round = 1,
     or_State = st, or_CreatedAt = 1000 * second\<rparr>"
    unfolding offer_at_def f by (simp add: parseOfferRecord_def field_def p from_unix_def)
qed

text \<open>
  C12. An offer is answered once: in a call that nobody disturbs, a response is recorded only for
  the driver the offer is open for and only while it is \<open>PENDING\<close>; otherwise it is refused as
  not found, stale or illegal and nothing changes. Once recorded, the driver's index is
  cleared and every further response of any driver to that offer is refused.
\<close>

theorem offer_answered_once:
  assumes "quiet_redis X" and "offer_typed (db X w)"
  shows "let r = SetOfferState X t i to w in
    (case offer_at (db X w) t of
       Inl e \<Rightarrow> fst r = Inl e
     | Inr rec \<Rightarrow>
         fst r = (if or_DriverID rec \<noteq> i then Inl ErrOfferStale
                  else if or_State rec = OfferPending \<and> to \<in> {OfferAccepted, OfferDeclined, OfferTimedOut} then Inr ()
                  else Inl (ErrIllegalOfferTransition (or_State rec) to))) \<and>
    (\<forall>e. fst r = Inl e \<longrightarrow> db X (snd r) = db X w) \<and>
    (fst r = Inr () \<longrightarrow>
       offer_field (db X (snd r)) t = (offer_field (db X w) t)(''state'' \<mapsto> to) \<and>
       offered_to (db X (snd r)) i = None \<and>
       (\<forall>i' to'. \<exists>e. fst (SetOfferState X t i' to' (snd r)) = Inl e))"
proof -
  let ?r = "SetOfferState X t i to w"
  note q = quiet_redis.SetOfferState_quiet [OF assms, of t i "to"]
  note c = close_offer_facts [OF assms(2), of t i "to"]
  have ok: "offer_field (db X (snd ?r)) t = (offer_field (db X w) t)(''state'' \<mapsto> to) \<and>
       offered_to (db X (snd ?r)) i = None \<and>
       (\<forall>i' to'. \<exists>e. fst (SetOfferState X t i' to' (snd ?r)) = Inl e)" if r: "fst ?r = Inr ()"
  proof -
    obtain rec where rec: "offer_at (db X w) t = Inr rec" "or_DriverID rec = i" "offer_edge (or_State rec) to"
      using r q(1) by (auto split: sum.splits if_splits)
    then have d: "db X (snd ?r) = close_offer t i to (db X w)" using q(2) by simp
    have f: "offer_field (db X (snd ?r)) t = (offer_field (db X w) t)(''state'' \<mapsto> to)" using c(2) [of t] d by simp
    have "or_State rec' = to" if "offer_at (db X (snd ?r)) t = Inr rec'" for rec'
      using that unfolding offer_at_def f
      by (auto simp: parseOfferRecord_def field_def split: if_splits sum.splits)
    then have "\<exists>e. fst (SetOfferState X t i' to' (snd ?r)) = Inl e" for i' to'
      unfolding quiet_redis.SetOfferState_quiet(1) [OF assms(1) c(1) [folded d]]
      using offer_once [OF rec(3)] by (auto split: sum.splits)
    then show ?thesis using f c(3) d by simp
  qed
  show ?thesis
    unfolding Let_def
  proof (intro conjI allI impI)
    show "case offer_at (db X w) t of Inl e \<Rightarrow> fst ?r = Inl e
     | Inr rec \<Rightarrow>
         fst ?r = (if or_DriverID rec \<noteq> i then Inl ErrOfferStale
                  else if or_State rec = OfferPending \<and> to \<in> {OfferAccepted, OfferDeclined, OfferTimedOut} then Inr ()
                  else Inl (ErrIllegalOfferTransition (or_State rec) to))"
      using q(1) by (auto simp: offer_edge_iff split: sum.splits)
    show "db X (snd ?r) = db X w" if "fst ?r = Inl e" for e
      using that q by (auto split: sum.splits if_splits)
  qed (use ok in blast)+
qed

theorem offer_answered_once_witness:
  "fst (SetOfferState mem_world ''t1'' ''d1'' OfferAccepted (demo_offer OfferPending)) = Inr () \<and>
   fst (SetOfferState mem_world ''t1'' ''d2'' OfferAccepted (demo_offer OfferPending)) = Inl ErrOfferStale"
proof -
  have d: "db mem_world w = w" for w by (simp add: mem_world_def)
  have t: "offer_typed (db mem_world (demo_offer st))" for st by (simp add: d demo_offer_facts)
  show ?thesis
    using offer_answered_once [OF mem.quiet_redis_axioms t, of "''t1''" "''d1''" OfferAccepted OfferPending]
      offer_answered_once [OF mem.quiet_redis_axioms t, of "''t1''" "''d2''" OfferAccepted OfferPending]
    by (simp add: Let_def d demo_offer_facts)
qed

definition surge_typed :: "rdb \<Rightarrow> bool" where
  "surge_typed d \<longleftrightarrow> (\<forall>c. str_entry (live d (surge_key c)))"

text \<open>
  Surge ages out: a cell whose multiplier was never written reads 1; a multiplier just
  written is read back for ten minutes, after which the cell reads 1 again; other cells
  are not affected.
\<close>

theorem surge_multiplier_window:
  assumes "quiet_store X" and "surge_typed (db X w)" and "is_f64 m"
  shows "(live (db X w) (surgeKey X c) = None \<longrightarrow> fst (GetMultiplier X c w) = Inr (Fin 1)) \<and>
    (\<exists>w'. SetMultiplier X c m w = (Inr (), w') \<and>
      (\<forall>c'. c' \<noteq> c \<longrightarrow> live (db X w') (surgeKey X c') = live (db X w) (surgeKey X c')) \<and>
      (\<forall>dt w''. db X w'' = elapse dt (db X w') \<longrightarrow>
         fst (GetMultiplier X c w'') = Inr (if dt < SurgeTTL then m else Fin 1)))"
proof -
  have q: "quiet_redis X" and tf: "text_formats X" using assms(1) by (simp_all add: quiet_store_def)
  note g = quiet_redis.get_quiet [OF q, of _ "surgeKey X c"]
  have none: "fst (GetMultiplier X c w) = Inr (Fin 1)" if "live (db X w) (surgeKey X c) = None" for w
    using g(1) [OF that] by (simp add: GetMultiplier_def io_known)
  let ?r = "SetMultiplier X c m w"
  have ok: "fst ?r = Inr ()"
    using quiet_redis.write_quiet(3) [OF q] by (simp add: SetMultiplier_def io_wrap_fst)
  have d: "db X (snd ?r) = redis_effect (SET (surgeKey X c) (fmt_f64 X m) (Some SurgeTTL)) (db X w)"
    using quiet_redis.call_typed_db(4) [OF q] redis_server.surge_ttl [OF quiet_redis.axioms(1) [OF q]] by (simp add: SetMultiplier_def)
  have "live (db X (snd ?r)) (surgeKey X c) = Some (RStr (fmt_f64 X m), Some (rnow (db X w) + SurgeTTL))"
    by (simp add: d live_effect)
  note e = live_elapse_expiry [OF this]
  have "fst (GetMultiplier X c w'') = Inr (if dt < SurgeTTL then m else Fin 1)"
    if w'': "db X w'' = elapse dt (db X (snd ?r))" for dt w''
  proof (cases "dt < SurgeTTL")
    case True
    then have "live (db X w'') (surgeKey X c) = Some (RStr (fmt_f64 X m), Some (rnow (db X w) + SurgeTTL))"
      using e [of dt] w'' by (simp add: d)
    then show ?thesis
      using g(2) True text_formats.parse_fmt [OF tf assms(3)] by (simp add: GetMultiplier_def io_known)
  next
    case False
    then have "live (db X w'') (surgeKey X c) = None" using e [of dt] w'' by (simp add: d)
    then show ?thesis using none False by simp
  qed
  moreover have "live (db X (snd ?r)) (surgeKey X c') = live (db X w) (surgeKey X c')" if "c' \<noteq> c" for c'
    using that text_formats.CellString_inj [OF tf] by (simp add: d effect_frame surgeKey_def)
  ultimately show ?thesis using none ok by (intro conjI impI exI [of _ "snd ?r"]) (cases ?r; simp)+
qed

theorem surge_multiplier_window_witness:
  "\<exists>w'. SetMultiplier mem_world 7 (Fin (3 / 2)) empty_db = (Inr (), w') \<and>
     fst (GetMultiplier mem_world 7 (elapse (9 * minute) w')) = Inr (Fin (3 / 2)) \<and>
     fst (GetMultiplier mem_world 7 (elapse (10 * minute) w')) = Inr (Fin 1)"
proof -
  have d: "db mem_world w = w" for w by (simp add: mem_world_def)
  have t: "surge_typed (db mem_world empty_db)" by (simp add: d surge_typed_def empty_db_def)
  have f: "is_f64 (Fin (3 / 2))" using rnd_dyadic [of 3 1] by (simp add: is_f64_def)
  obtain w' where w': "SetMultiplier mem_world 7 (Fin (3 / 2)) empty_db = (Inr (), w')"
    and g: "\<forall>dt w''. w'' = elapse dt w' \<longrightarrow> fst (GetMultiplier mem_world 7 w'') = Inr (if dt < SurgeTTL then Fin (3 / 2) else Fin 1)"
    using surge_multiplier_window [OF mem.quiet_store_axioms t f, of 7] unfolding d by metis
  show ?thesis
    using w' g [rule_format, OF refl, of "9 * minute"] g [rule_format, OF refl, of "10 * minute"]
    by (simp add: SurgeTTL_def time_units)
qed

end
