(* ===== verification/Matching.thy ===== *)
theory Matching
  imports OfferStore "HOL-Library.Signed_Division" "HOL-Library.Product_Lexorder" "HOL-Library.Multiset"
begin

text \<open>
  \<open>internal/matching\<close> and the wrappers of \<open>internal/h3index\<close> it uses: travel time
  estimates, candidate search in growing rings, and the ranking. The interface
  \<open>DriverLookup\<close> is a pair of functions and a locale with what it promises; the driver
  store provides it.
\<close>

section \<open>h3index\<close>

definition CellFor :: "'w ext \<Rightarrow> f64 \<Rightarrow> f64 \<Rightarrow> int \<Rightarrow> cell result" where
  "CellFor X lat lng res = LatLngToCell X lat lng res"

definition KRing :: "'w ext \<Rightarrow> cell \<Rightarrow> int \<Rightarrow> cell list result" where
  "KRing X origin k = GridDisk X origin k"

section \<open>Travel time\<close>

record Location =
  Lat :: f64
  Lng :: f64

text \<open>The interface \<open>ETAEstimator\<close>; durations are nanoseconds.\<close>

type_synonym estimator = "Location \<Rightarrow> Location \<Rightarrow> int result"

definition AssumedSpeedKmh :: f64 where "AssumedSpeedKmh = Fin 25"

definition HaversineEstimator_Estimate :: "'w ext \<Rightarrow> f64 \<Rightarrow> estimator" where
  "HaversineEstimator_Estimate X SpeedKmh from to =
     (let speed = (if f_le SpeedKmh (Fin 0) then AssumedSpeedKmh else SpeedKmh);
          distKm = GreatCircleDistanceKm X (Lat from, Lng from) (Lat to, Lng to);
          hours = f_div distKm speed
      in Inr (f_to_i64 (f64_oor X) (f_mul hours (f_of_int hour))))"

definition NewHaversineEstimator :: "'w ext \<Rightarrow> estimator" where
  "NewHaversineEstimator X = HaversineEstimator_Estimate X AssumedSpeedKmh"

text \<open>\<open>InMemoryCongestionProvider\<close> is a map from cells to factors.\<close>

type_synonym congestion = "cell \<rightharpoonup> f64"

definition NewInMemoryCongestionProvider :: congestion where
  "NewInMemoryCongestionProvider = Map.empty"

definition congestion_Set :: "congestion \<Rightarrow> cell \<Rightarrow> f64 \<Rightarrow> congestion" where
  "congestion_Set p c factor = p(c \<mapsto> factor)"

definition CongestionFactor :: "congestion \<Rightarrow> cell \<Rightarrow> f64" where
  "CongestionFactor p c =
     (case p c of Some f \<Rightarrow> if f_lt (Fin 0) f then f else Fin 1 | None \<Rightarrow> Fin 1)"

definition CongestionAwareEstimator_Estimate ::
  "'w ext \<Rightarrow> estimator \<Rightarrow> (cell \<Rightarrow> f64) \<Rightarrow> int \<Rightarrow> estimator" where
  "CongestionAwareEstimator_Estimate X Base Provider Resolution from to =
     (case Base from to of Inl e \<Rightarrow> Inl e | Inr base \<Rightarrow>
      case CellFor X (Lat from) (Lng from) Resolution of Inl e \<Rightarrow> Inl (Errorf ''cell for origin'' e) | Inr c \<Rightarrow>
      let factor = (if f_le (Provider c) (Fin 0) then Fin 1 else Provider c)
      in Inr (f_to_i64 (f64_oor X) (f_mul (f_of_int base) factor)))"

definition NewCongestionAwareEstimator :: "'w ext \<Rightarrow> congestion \<Rightarrow> int \<Rightarrow> estimator" where
  "NewCongestionAwareEstimator X p resolution =
     CongestionAwareEstimator_Estimate X (NewHaversineEstimator X) (CongestionFactor p) resolution"

section \<open>Candidate search\<close>

record SearchConfig =
  MinCandidates :: int
  MaxK :: int

definition DefaultSearchConfig :: SearchConfig where
  "DefaultSearchConfig = \<lparr>MinCandidates = 5, MaxK = 4\<rparr>"

text \<open>The interface \<open>DriverLookup\<close>: \<open>DriversInCell\<close> and \<open>GetDrivers\<close>.\<close>

type_synonym 'w lookup_cell = "cell \<Rightarrow> ('w, string list) io"
type_synonym 'w lookup_many = "string list \<Rightarrow> ('w, string \<rightharpoonup> DriverRecord) io"

definition available_of :: "string list \<Rightarrow> (string \<rightharpoonup> DriverRecord) \<Rightarrow> DriverRecord list" where
  "available_of ids drivers = filter (\<lambda>r. dr_State r = DriverAvailable) (List.map_filter drivers ids)"

text \<open>The inner loop over the cells of one disk.\<close>

fun scan_cells :: "'w lookup_cell \<Rightarrow> 'w lookup_many \<Rightarrow> cell list \<Rightarrow> cell set \<Rightarrow> DriverRecord list
    \<Rightarrow> ('w, cell set \<times> DriverRecord list) io" where
  "scan_cells in_cell get_many [] scanned candidates = io_return (scanned, candidates)"
| "scan_cells in_cell get_many (c # cs) scanned candidates =
     (if c \<in> scanned then scan_cells in_cell get_many cs scanned candidates
      else io_bind (io_wrap ''drivers in cell'' (in_cell c)) (\<lambda>ids.
        if ids = [] then scan_cells in_cell get_many cs (insert c scanned) candidates
        else io_bind (io_wrap ''get drivers in cell'' (get_many ids)) (\<lambda>drivers.
          scan_cells in_cell get_many cs (insert c scanned) (candidates @ available_of ids drivers))))"

text \<open>The outer loop, over the values of \<open>k\<close> still to come.\<close>

fun expand_rings :: "'w ext \<Rightarrow> 'w lookup_cell \<Rightarrow> 'w lookup_many \<Rightarrow> cell \<Rightarrow> SearchConfig \<Rightarrow> int list
    \<Rightarrow> cell set \<Rightarrow> DriverRecord list \<Rightarrow> ('w, DriverRecord list) io" where
  "expand_rings X in_cell get_many origin cfg [] scanned candidates = io_return candidates"
| "expand_rings X in_cell get_many origin cfg (k # ks) scanned candidates =
     io_bind (io_wrap ''k-ring'' (io_lift (KRing X origin k))) (\<lambda>disk.
     io_bind (scan_cells in_cell get_many disk scanned candidates) (\<lambda>(scanned, candidates).
     if int (length candidates) \<ge> MinCandidates cfg then io_return candidates
     else expand_rings X in_cell get_many origin cfg ks scanned candidates))"

definition FindCandidates ::
  "'w ext \<Rightarrow> 'w lookup_cell \<Rightarrow> 'w lookup_many \<Rightarrow> cell \<Rightarrow> SearchConfig \<Rightarrow> ('w, DriverRecord list) io" where
  "FindCandidates X in_cell get_many origin cfg =
     expand_rings X in_cell get_many origin cfg [0 .. MaxK cfg] {} []"

section \<open>Ranking\<close>

record RankConfig =
  FairnessWeight :: f64

definition DefaultRankConfig :: RankConfig where
  "DefaultRankConfig = \<lparr>FairnessWeight = Fin 1\<rparr>"

record RankedCandidate =
  rc_Driver :: DriverRecord
  rc_ETA :: int
  rc_Score :: f64

text \<open>\<open>d.Seconds()\<close> and \<open>d.Minutes()\<close>; integer division truncates.\<close>

definition Seconds :: "int \<Rightarrow> f64" where
  "Seconds d = f_add (f_of_int (d sdiv second)) (f_div (f_of_int (d smod second)) (Fin 1000000000))"

definition Minutes :: "int \<Rightarrow> f64" where
  "Minutes d = f_add (f_of_int (d sdiv minute)) (f_div (f_of_int (d smod minute)) (Fin 60000000000))"

definition idle_minutes :: "int \<Rightarrow> DriverRecord \<Rightarrow> f64" where
  "idle_minutes now d =
     (if AvailableSince d = zero_time then Fin 0
      else let m = Minutes (time_sub now (AvailableSince d)) in if f_lt m (Fin 0) then Fin 0 else m)"

definition rank_score :: "RankConfig \<Rightarrow> int \<Rightarrow> f64 \<Rightarrow> f64" where
  "rank_score cfg eta idle = f_sub (Seconds eta) (f_mul (FairnessWeight cfg) idle)"

fun score_all :: "estimator \<Rightarrow> Location \<Rightarrow> RankConfig \<Rightarrow> int \<Rightarrow> DriverRecord list \<Rightarrow> RankedCandidate list result" where
  "score_all est rider cfg now [] = Inr []"
| "score_all est rider cfg now (d # ds) =
     (case est \<lparr>Lat = dr_Lat d, Lng = dr_Lng d\<rparr> rider of
        Inl e \<Rightarrow> Inl (Errorf ''estimate eta for driver'' e)
      | Inr eta \<Rightarrow>
          map_sum (\<lambda>e. e) (\<lambda>rs. \<lparr>rc_Driver = d, rc_ETA = eta, rc_Score = rank_score cfg eta (idle_minutes now d)\<rparr> # rs)
            (score_all est rider cfg now ds))"

definition ranked_less :: "RankedCandidate \<Rightarrow> RankedCandidate \<Rightarrow> bool" where
  "ranked_less a b =
     (if \<not> f_eq (rc_Score a) (rc_Score b) then f_lt (rc_Score a) (rc_Score b)
      else DriverID (rc_Driver a) < DriverID (rc_Driver b))"

text \<open>
  \<open>sort.SliceStable\<close> as insertion sort: the algorithm it runs on up to 20 elements, and
  for a strict weak order the only stable sorting of the input, whatever the length.
\<close>

definition insert_last :: "('a \<Rightarrow> 'a \<Rightarrow> bool) \<Rightarrow> 'a \<Rightarrow> 'a list \<Rightarrow> 'a list" where
  "insert_last lt x ys =
     rev (dropWhile (\<lambda>y. lt x y) (rev ys)) @ x # rev (takeWhile (\<lambda>y. lt x y) (rev ys))"

definition SliceStable :: "('a \<Rightarrow> 'a \<Rightarrow> bool) \<Rightarrow> 'a list \<Rightarrow> 'a list" where
  "SliceStable lt xs = foldl (\<lambda>ys x. insert_last lt x ys) [] xs"

definition Rank :: "estimator \<Rightarrow> Location \<Rightarrow> DriverRecord list \<Rightarrow> RankConfig \<Rightarrow> int \<Rightarrow> RankedCandidate list result" where
  "Rank est rider candidates cfg now =
     map_sum (\<lambda>e. e) (SliceStable ranked_less) (score_all est rider cfg now candidates)"

definition Match :: "'w ext \<Rightarrow> 'w lookup_cell \<Rightarrow> 'w lookup_many \<Rightarrow> estimator \<Rightarrow> cell \<Rightarrow> Location
    \<Rightarrow> SearchConfig \<Rightarrow> RankConfig \<Rightarrow> ('w, RankedCandidate list) io" where
  "Match X in_cell get_many est origin rider searchCfg rankCfg =
     io_bind (io_wrap ''find candidates'' (FindCandidates X in_cell get_many origin searchCfg)) (\<lambda>candidates w.
       (Rank est rider candidates rankCfg (wall X w), w))"

section \<open>Floats are a linear order, NaN apart\<close>

instantiation f64 :: linorder
begin

definition less_eq_f64 :: "f64 \<Rightarrow> f64 \<Rightarrow> bool" where
  "less_eq_f64 x y \<longleftrightarrow> x = NaN \<or> f_le x y"

definition less_f64 :: "f64 \<Rightarrow> f64 \<Rightarrow> bool" where
  "less_f64 x y \<longleftrightarrow> x \<le> y \<and> \<not> y \<le> (x::f64)"

instance
proof
  fix x y z :: f64
  show "x < y \<longleftrightarrow> x \<le> y \<and> \<not> y \<le> x" by (rule less_f64_def)
  show "x \<le> x" by (simp add: less_eq_f64_def)
  show "x \<le> y \<Longrightarrow> y \<le> z \<Longrightarrow> x \<le> z" using f_le_trans by (auto simp: less_eq_f64_def)
  show "x \<le> y \<Longrightarrow> y \<le> x \<Longrightarrow> x = y" by (auto simp: less_eq_f64_def intro: f_le_antisym)
  show "x \<le> y \<or> y \<le> x" using f_le_total by (auto simp: less_eq_f64_def)
qed

end

lemma f_lt_less: "x \<noteq> NaN \<Longrightarrow> y \<noteq> NaN \<Longrightarrow> f_lt x y \<longleftrightarrow> x < y"
  using f_le_total by (auto simp: f_lt_iff less_f64_def less_eq_f64_def)

section \<open>Stable insertion sort\<close>

text \<open>On a list on which the comparison is that of a key, the result is \<open>sort_key\<close>.\<close>

lemma insert_last_set: "set (insert_last lt x ys) = insert x (set ys)"
proof -
  have "set (dropWhile P zs) \<union> set (takeWhile P zs) = set zs" for P and zs :: "'a list"
    by (metis set_append sup_commute takeWhile_dropWhile_id)
  then have "set (dropWhile (lt x) (rev ys)) \<union> set (takeWhile (lt x) (rev ys)) = set ys" by simp
  then show ?thesis by (auto simp: insert_last_def)
qed

lemma insert_last_mset: "mset (insert_last lt x ys) = add_mset x (mset ys)"
proof -
  have "mset (dropWhile P zs) + mset (takeWhile P zs) = mset zs" for P and zs :: "'a list"
    by (metis add.commute mset_append takeWhile_dropWhile_id)
  then have "mset (dropWhile (lt x) (rev ys)) + mset (takeWhile (lt x) (rev ys)) = mset ys" by simp
  then show ?thesis by (simp add: insert_last_def)
qed

lemma sorted_split:
  fixes key :: "'a \<Rightarrow> 'k::linorder"
  assumes "sorted (map key ys)" and "\<And>y. y \<in> set ys \<Longrightarrow> lt x y \<longleftrightarrow> key x < key y"
  shows "rev (dropWhile (lt x) (rev ys)) = filter (\<lambda>y. key y \<le> key x) ys \<and>
    rev (takeWhile (lt x) (rev ys)) = filter (\<lambda>y. key x < key y) ys"
  using assms
proof (induction ys rule: rev_induct)
  case (snoc y ys)
  have s: "sorted (map key ys)" "\<And>z. z \<in> set ys \<Longrightarrow> key z \<le> key y"
    using snoc.prems(1) by (auto simp: sorted_append)
  show ?case
  proof (cases "lt x y")
    case True
    then have "key x < key y" using snoc.prems(2) by simp
    then show ?thesis using True snoc.IH s(1) snoc.prems(2) by (simp add: not_le)
  next
    case False
    then have le: "\<And>z. z \<in> set (ys @ [y]) \<Longrightarrow> key z \<le> key x" using snoc.prems(2) s(2) by fastforce
    then have "filter (\<lambda>y. key y \<le> key x) (ys @ [y]) = ys @ [y]" by (intro filter_True) simp
    moreover have "filter (\<lambda>y. key x < key y) (ys @ [y]) = []"
      using le by (intro filter_False) (simp add: not_less)
    ultimately show ?thesis using False by simp
  qed
qed simp

lemma insert_last_sorted:
  fixes key :: "'a \<Rightarrow> 'k::linorder"
  assumes "sorted (map key ys)" and "\<And>y. y \<in> set ys \<Longrightarrow> lt x y \<longleftrightarrow> key x < key y"
  shows "sorted (map key (insert_last lt x ys))"
    and "filter (\<lambda>y. key y = k) (insert_last lt x ys) = filter (\<lambda>y. key y = k) (ys @ [x])"
proof -
  have i: "insert_last lt x ys = filter (\<lambda>y. key y \<le> key x) ys @ x # filter (\<lambda>y. key x < key y) ys"
    unfolding insert_last_def using sorted_split [of key ys lt x] assms by simp
  show "sorted (map key (insert_last lt x ys))"
    unfolding i using assms(1) by (auto simp: sorted_append sorted_filter)
  have "filter (\<lambda>y. key y \<le> key x \<and> key y = k) ys = (if k \<le> key x then filter (\<lambda>y. key y = k) ys else [])"
    "filter (\<lambda>y. key x < key y \<and> key y = k) ys = (if key x < k then filter (\<lambda>y. key y = k) ys else [])"
    by (auto intro: filter_cong filter_False)
  then show "filter (\<lambda>y. key y = k) (insert_last lt x ys) = filter (\<lambda>y. key y = k) (ys @ [x])"
    unfolding i by (auto simp: conj_commute)
qed

theorem SliceStable_sort_key:
  fixes key :: "'a \<Rightarrow> 'k::linorder"
  assumes "\<And>x y. x \<in> set xs \<Longrightarrow> y \<in> set xs \<Longrightarrow> lt x y \<longleftrightarrow> key x < key y"
  shows "SliceStable lt xs = sort_key key xs"
proof -
  have "mset (SliceStable lt xs) = mset xs \<and> sorted (map key (SliceStable lt xs)) \<and>
      (\<forall>k. filter (\<lambda>y. key y = k) (SliceStable lt xs) = filter (\<lambda>y. key y = k) xs)"
    using assms
  proof (induction xs rule: rev_induct)
    case (snoc x xs)
    let ?s = "SliceStable lt xs"
    have ih: "mset ?s = mset xs" "sorted (map key ?s)" "\<forall>k. filter (\<lambda>y. key y = k) ?s = filter (\<lambda>y. key y = k) xs"
      using snoc by simp_all
    have "\<And>y. y \<in> set ?s \<Longrightarrow> lt x y \<longleftrightarrow> key x < key y"
      using snoc.prems mset_eq_setD [OF ih(1)] by simp
    from insert_last_sorted [of key ?s lt x, OF ih(2) this] ih(1,3)
    show ?case by (simp add: SliceStable_def insert_last_mset)
  qed (simp add: SliceStable_def)
  then show ?thesis
    by (intro properties_for_sort_key [symmetric]) (auto simp: eq_commute)
qed

section \<open>What candidate search relies on\<close>

lemma upto_take: "int n \<le> m + 1 \<Longrightarrow> set (take n [0 .. m]) = {k. 0 \<le> k \<and> k < int n}"
proof (induction n)
  case (Suc n)
  then have "n < length [0 .. m]" by simp
  then have "set (take (Suc n) [0 .. m]) = insert (int n) (set (take n [0 .. m]))"
    by (simp add: take_Suc_conv_app_nth)
  then show ?case using Suc by auto
qed simp

text \<open>
  \<open>good\<close> worlds, in which both methods succeed; \<open>located w c\<close>, the live drivers of cell
  \<open>c\<close>; \<open>rec_of w i\<close>, the record of driver \<open>i\<close>. The methods report these and keep them.
\<close>

locale driver_lookup =
  fixes in_cell :: "cell \<Rightarrow> ('w, string list) io"
    and get_many :: "string list \<Rightarrow> ('w, string \<rightharpoonup> DriverRecord) io"
    and good :: "'w \<Rightarrow> bool"
    and located :: "'w \<Rightarrow> cell \<Rightarrow> string set"
    and rec_of :: "'w \<Rightarrow> string \<rightharpoonup> DriverRecord"
  assumes in_cell_reports: "good w \<Longrightarrow> \<exists>ids. fst (in_cell c w) = Inr ids \<and> distinct ids \<and> set ids = located w c"
    and in_cell_keeps: "good w \<Longrightarrow> good (snd (in_cell c w)) \<and> located (snd (in_cell c w)) = located w \<and>
          rec_of (snd (in_cell c w)) = rec_of w"
    and get_many_reports: "good w \<Longrightarrow> fst (get_many ids w) = Inr (\<lambda>i. if i \<in> set ids then rec_of w i else None)"
    and get_many_keeps: "good w \<Longrightarrow> good (snd (get_many ids w)) \<and> located (snd (get_many ids w)) = located w \<and>
          rec_of (snd (get_many ids w)) = rec_of w"
begin

text \<open>The available drivers located in a set of cells.\<close>

definition supplied :: "'w \<Rightarrow> cell set \<Rightarrow> DriverRecord set" where
  "supplied w C = {r. dr_State r = DriverAvailable \<and> (\<exists>c \<in> C. \<exists>i \<in> located w c. rec_of w i = Some r)}"

definition same_supply :: "'w \<Rightarrow> 'w \<Rightarrow> bool" where
  "same_supply w w' \<longleftrightarrow> good w' \<and> located w' = located w \<and> rec_of w' = rec_of w"

lemma same_supply_supplied: "same_supply w w' \<Longrightarrow> supplied w' C = supplied w C"
  by (simp add: same_supply_def supplied_def)

lemma available_of_set:
  "set (available_of ids (\<lambda>i. if i \<in> set ids then rec_of w i else None)) =
     {r. dr_State r = DriverAvailable \<and> (\<exists>i \<in> set ids. rec_of w i = Some r)}"
  by (force simp: available_of_def List.map_filter_def)

text \<open>One cell not seen before: its available drivers are appended.\<close>

lemma scan_cell:
  assumes "good w" "c \<notin> scanned"
  obtains new w' where "scan_cells in_cell get_many (c # cs) scanned cands w =
      scan_cells in_cell get_many cs (insert c scanned) (cands @ new) w'"
    and "same_supply w w'" "set new = supplied w {c}"
proof -
  obtain ids w1 where ids: "in_cell c w = (Inr ids, w1)" "set ids = located w c" and s1: "same_supply w w1"
    using in_cell_reports [OF assms(1), of c] in_cell_keeps [OF assms(1), of c]
    by (cases "in_cell c w") (auto simp: same_supply_def)
  let ?new = "available_of ids (\<lambda>i. if i \<in> set ids then rec_of w i else None)"
  have new: "set ?new = supplied w {c}" unfolding available_of_set unfolding ids(2) by (auto simp: supplied_def)
  show thesis
  proof (cases "ids = []")
    case True
    then show thesis using that [of ?new w1] s1 new ids(1) assms(2) by (simp add: available_of_def List.map_filter_def)
  next
    case False
    have "fst (get_many ids w1) = Inr (\<lambda>i. if i \<in> set ids then rec_of w i else None)" "same_supply w (snd (get_many ids w1))"
      using s1 get_many_reports [of w1 ids] get_many_keeps [of w1 ids] by (auto simp: same_supply_def)
    then show thesis using that [of ?new "snd (get_many ids w1)"] new ids(1) assms(2) False by (simp add: io_known)
  qed
qed

lemma scan_cells_run:
  assumes "good w"
  shows "\<exists>cands' w'. scan_cells in_cell get_many cs scanned cands w = (Inr (scanned \<union> set cs, cands @ cands'), w') \<and>
    same_supply w w' \<and> set cands' = supplied w (set cs - scanned)"
  using assms
proof (induction cs arbitrary: scanned cands w)
  case Nil
  then show ?case by (simp add: same_supply_def supplied_def)
next
  case (Cons c cs)
  show ?case
  proof (cases "c \<in> scanned")
    case True
    then have "set (c # cs) - scanned = set cs - scanned" "scanned \<union> set (c # cs) = scanned \<union> set cs" by auto
    then show ?thesis using Cons.IH [OF Cons.prems, of scanned cands] True by simp
  next
    case False
    obtain new w2 where w2: "scan_cells in_cell get_many (c # cs) scanned cands w =
        scan_cells in_cell get_many cs (insert c scanned) (cands @ new) w2"
      and s2: "same_supply w w2" and new: "set new = supplied w {c}"
      using scan_cell [OF Cons.prems False] .
    have un: "supplied w (set (c # cs) - scanned) = set new \<union> supplied w (set cs - insert c scanned)"
      unfolding new using False by (auto simp: supplied_def)
    have "good w2" using s2 by (simp add: same_supply_def)
    from Cons.IH [OF this, of "insert c scanned" "cands @ new"] obtain cands' w' where
      "scan_cells in_cell get_many cs (insert c scanned) (cands @ new) w2 = (Inr (insert c scanned \<union> set cs, (cands @ new) @ cands'), w')"
      "same_supply w2 w'" "set cands' = supplied w2 (set cs - insert c scanned)" by blast
    then show ?thesis
      unfolding w2 un using s2 same_supply_supplied [OF s2]
      by (intro exI [of _ "new @ cands'"] exI [of _ w']) (auto simp: same_supply_def)
  qed
qed

lemma few_before:
  assumes "int (card (supplied w (S \<union> d k))) < M"
    and "\<forall>m. 0 < m \<longrightarrow> m < n \<longrightarrow> int (card (supplied w (S \<union> d k \<union> (\<Union>k \<in> set (take m ks). d k)))) < M" "0 < m" "m < Suc n"
  shows "int (card (supplied w (S \<union> (\<Union>k \<in> set (take m (k # ks)). d k)))) < M"
proof (cases "m = 1")
  case False
  then obtain m' where "m = Suc m'" "0 < m'" using assms(3) by (cases m) auto
  then show ?thesis using assms(2,4) by (simp add: Un_assoc)
qed (use assms(1) in simp)

lemma expand_rings_run:
  assumes "good w" and "\<forall>k \<in> set ks. KRing X origin k = Inr (disk k)" and "set cands = supplied w scanned"
  shows "\<exists>n cands' w'. n \<le> length ks \<and>
    expand_rings X in_cell get_many origin cfg ks scanned cands w = (Inr cands', w') \<and> same_supply w w' \<and>
    set cands' = supplied w (scanned \<union> (\<Union>k \<in> set (take n ks). set (disk k))) \<and>
    (n < length ks \<longrightarrow> 0 < n \<and> MinCandidates cfg \<le> int (length cands')) \<and>
    (\<forall>m. 0 < m \<longrightarrow> m < n \<longrightarrow>
       int (card (supplied w (scanned \<union> (\<Union>k \<in> set (take m ks). set (disk k))))) < MinCandidates cfg)"
  using assms
proof (induction ks arbitrary: scanned cands w)
  case Nil
  then show ?case by (simp add: same_supply_def)
next
  case (Cons k ks)
  let ?sc = "scanned \<union> set (disk k)"
  obtain c1 w1 where s: "scan_cells in_cell get_many (disk k) scanned cands w = (Inr (?sc, cands @ c1), w1)"
    and s1: "same_supply w w1" and c1: "set c1 = supplied w (set (disk k) - scanned)"
    using scan_cells_run [OF Cons.prems(1)] by blast
  have k: "KRing X origin k = Inr (disk k)" using Cons.prems(2) by simp
  have e: "expand_rings X in_cell get_many origin cfg (k # ks) scanned cands w =
      (if MinCandidates cfg \<le> int (length (cands @ c1)) then (Inr (cands @ c1), w1)
       else expand_rings X in_cell get_many origin cfg ks ?sc (cands @ c1) w1)"
    using s by (simp add: k io_bind_def)
  have set1: "set (cands @ c1) = supplied w ?sc" using Cons.prems(3) c1 by (auto simp: supplied_def)
  show ?case
  proof (cases "MinCandidates cfg \<le> int (length (cands @ c1))")
    case True
    show ?thesis
      by (intro exI [of _ 1] exI [of _ "cands @ c1"] exI [of _ w1])
        (use e True s1 set1 in simp)
  next
    case False
    have g1: "good w1" "set (cands @ c1) = supplied w1 ?sc"
      using s1 set1 same_supply_supplied [OF s1] by (simp_all add: same_supply_def)
    obtain n cs w' where n: "n \<le> length ks"
      and r: "expand_rings X in_cell get_many origin cfg ks ?sc (cands @ c1) w1 = (Inr cs, w')"
      and s2: "same_supply w1 w'" and cs: "set cs = supplied w1 (?sc \<union> (\<Union>k \<in> set (take n ks). set (disk k)))"
      and stop: "n < length ks \<longrightarrow> 0 < n \<and> MinCandidates cfg \<le> int (length cs)"
      and few: "\<forall>m. 0 < m \<longrightarrow> m < n \<longrightarrow> int (card (supplied w1 (?sc \<union> (\<Union>k \<in> set (take m ks). set (disk k))))) < MinCandidates cfg"
      using Cons.IH [OF g1(1) _ g1(2)] Cons.prems(2) by auto
    have "card (supplied w ?sc) \<le> length (cands @ c1)" unfolding set1 [symmetric] by (rule card_length)
    then have first: "int (card (supplied w ?sc)) < MinCandidates cfg" using False by simp
    note few' = few_before [where d = "\<lambda>k. set (disk k)", OF first few [unfolded same_supply_supplied [OF s1]]]
    show ?thesis
      by (intro exI [of _ "Suc n"] exI [of _ cs] exI [of _ w'])
        (use e False r n s1 s2 cs stop few' same_supply_supplied [OF s1] in \<open>auto simp: same_supply_def Un_assoc\<close>)
  qed
qed

lemma FindCandidates_run:
  assumes "good w" and "0 \<le> MaxK cfg" and "\<forall>k. 0 \<le> k \<longrightarrow> k \<le> MaxK cfg \<longrightarrow> KRing X origin k = Inr (disk k)"
  obtains k cands w' where "0 \<le> k" "k \<le> MaxK cfg" "FindCandidates X in_cell get_many origin cfg w = (Inr cands, w')"
    and "same_supply w w'" "set cands = supplied w (\<Union>j \<in> {0..k}. set (disk j))"
    and "k < MaxK cfg \<longrightarrow> MinCandidates cfg \<le> int (length cands)"
    and "\<forall>j. 0 \<le> j \<longrightarrow> j < k \<longrightarrow> int (card (supplied w (\<Union>i \<in> {0..j}. set (disk i)))) < MinCandidates cfg"
proof -
  have "\<forall>k \<in> set [0 .. MaxK cfg]. KRing X origin k = Inr (disk k)" using assms(3) by auto
  from expand_rings_run [OF assms(1) this, of "[]" "{}" cfg] obtain n cands w' where
    n: "n \<le> length [0 .. MaxK cfg]"
    and r: "FindCandidates X in_cell get_many origin cfg w = (Inr cands, w')" and s: "same_supply w w'"
    and c: "set cands = supplied w (\<Union>k \<in> set (take n [0 .. MaxK cfg]). set (disk k))"
    and stop: "n < length [0 .. MaxK cfg] \<longrightarrow> 0 < n \<and> MinCandidates cfg \<le> int (length cands)"
    and few: "\<forall>m. 0 < m \<longrightarrow> m < n \<longrightarrow>
      int (card (supplied w (\<Union>k \<in> set (take m [0 .. MaxK cfg]). set (disk k)))) < MinCandidates cfg"
    unfolding FindCandidates_def by (auto simp: supplied_def)
  have pos: "0 < n" using stop n assms(2) by (cases "n = length [0 .. MaxK cfg]") auto
  have tk: "set (take m [0 .. MaxK cfg]) = {0 .. int m - 1}" if "m \<le> n" for m
    using upto_take [of m "MaxK cfg"] that n assms(2) by auto
  show thesis
  proof (rule that [of "int n - 1", OF _ _ r s])
    show "set cands = supplied w (\<Union>j \<in> {0 .. int n - 1}. set (disk j))" using c tk [of n] by simp
    show "\<forall>j. 0 \<le> j \<longrightarrow> j < int n - 1 \<longrightarrow> int (card (supplied w (\<Union>i \<in> {0..j}. set (disk i)))) < MinCandidates cfg"
    proof (intro allI impI)
      fix j assume "0 \<le> j" "j < int n - 1"
      then show "int (card (supplied w (\<Union>i \<in> {0..j}. set (disk i)))) < MinCandidates cfg"
        using few [rule_format, of "nat (j + 1)"] tk [of "nat (j + 1)"] by (simp add: nat_less_iff)
    qed
  qed (use pos n stop assms(2) in auto)
qed

end

section \<open>The driver store provides it\<close>

text \<open>Every live record parses; the live members of a cell; the records.\<close>

definition drv_parsed :: "'w ext \<Rightarrow> rdb \<Rightarrow> bool" where
  "drv_parsed X d \<longleftrightarrow> drv_typed d \<and> (\<forall>i. alive d i \<longrightarrow> (\<exists>r. driver_at X d i = Inr r))"

definition live_members :: "'w ext \<Rightarrow> rdb \<Rightarrow> cell \<Rightarrow> string set" where
  "live_members X d c = {i \<in> members d (CellString X c). alive d i}"

definition record_of :: "'w ext \<Rightarrow> rdb \<Rightarrow> string \<rightharpoonup> DriverRecord" where
  "record_of X d i = (case driver_at X d i of Inr r \<Rightarrow> Some r | Inl _ \<Rightarrow> None)"

lemma driver_at_frame:
  "live d' (driverKey i) = live d (driverKey i) \<Longrightarrow> driver_at X d' i = driver_at X d i \<and> alive d' i = alive d i"
proof -
  assume l: "live d' (driverKey i) = live d (driverKey i)"
  then have "hash_field d' (driverKey i) = hash_field d (driverKey i)" by (intro ext) (simp add: hash_field_def)
  then show ?thesis using l by (simp add: driver_at_def alive_def)
qed

lemma quiet_driver_lookup:
  assumes "quiet_redis X"
  shows "driver_lookup (DriversInCell X) (GetDrivers X) (\<lambda>w. drv_parsed X (db X w))
    (\<lambda>w. live_members X (db X w)) (\<lambda>w. record_of X (db X w))"
proof
  fix w c ids
  assume g: "drv_parsed X (db X w)"
  then have t: "drv_typed (db X w)" by (simp add: drv_parsed_def)
  show "\<exists>ids. fst (DriversInCell X c w) = Inr ids \<and> distinct ids \<and> set ids = live_members X (db X w) c"
    using quiet_redis.DriversInCell_quiet(1) [OF assms t, of c] by (simp add: live_members_def)
  let ?d = "db X w" and ?d' = "db X (snd (DriversInCell X c w))"
  obtain xs where d': "?d' = ?d \<or>
      set xs = {i \<in> members ?d (CellString X c). \<not> alive ?d i} \<and> ?d' = redis_effect (SREM (cellKey X c) xs) ?d"
    using quiet_redis.DriversInCell_quiet(2) [OF assms t, of c] by blast
  have l: "live ?d' (driverKey i) = live ?d (driverKey i)" for i
    using d' by (elim disjE conjE) (simp_all add: effect_frame cellKey_def)
  have t': "drv_typed ?d'" using d' t by (elim disjE conjE) (simp_all add: cellKey_def)
  have m: "{i \<in> members ?d' c'. alive ?d i} = {i \<in> members ?d c'. alive ?d i}" for c'
    using d' by (elim disjE conjE) (auto simp: cellKey_def t)
  show "drv_parsed X ?d' \<and> live_members X ?d' = live_members X ?d \<and> record_of X ?d' = record_of X ?d"
  proof -
    have a: "driver_at X ?d' i = driver_at X ?d i" "alive ?d' i = alive ?d i" for i
      by (auto simp: driver_at_frame [OF l])
    show ?thesis using g t' m by (auto simp: a drv_parsed_def live_members_def record_of_def fun_eq_iff)
  qed
  have "\<forall>i \<in> set ids. hash_field ?d (driverKey i) \<noteq> Map.empty \<longrightarrow> (\<exists>r. driver_at X ?d i = Inr r)"
    using g alive_if_field unfolding drv_parsed_def by (metis (no_types, lifting) not_None_eq)
  moreover have "drivers_found X ?d ids = (\<lambda>i. if i \<in> set ids then record_of X ?d i else None)"
    by (intro ext) (auto simp: drivers_found_def record_of_def driver_at_def Let_def)
  ultimately show "fst (GetDrivers X ids w) = Inr (\<lambda>i. if i \<in> set ids then record_of X ?d i else None)"
    using quiet_redis.GetDrivers_quiet [OF assms t] by simp
  have "db X (snd (GetDrivers X ids w)) = ?d"
    using quiet_redis.GetDrivers_replies(2) [OF assms t] by (cases "ids = []") (simp_all add: GetDrivers_def)
  then show "drv_parsed X (db X (snd (GetDrivers X ids w))) \<and>
      live_members X (db X (snd (GetDrivers X ids w))) = live_members X ?d \<and>
      record_of X (db X (snd (GetDrivers X ids w))) = record_of X ?d"
    using g by simp
qed

sublocale quiet_redis \<subseteq> found: driver_lookup "DriversInCell X" "GetDrivers X" "\<lambda>w. drv_parsed X (db X w)"
  "\<lambda>w. live_members X (db X w)" "\<lambda>w. record_of X (db X w)"
  by (rule quiet_driver_lookup) unfold_locales

interpretation mem_lookup: driver_lookup "DriversInCell mem_world" "GetDrivers mem_world"
  "\<lambda>w. drv_parsed mem_world (db mem_world w)" "\<lambda>w. live_members mem_world (db mem_world w)"
  "\<lambda>w. record_of mem_world (db mem_world w)"
  by (rule quiet_driver_lookup [OF mem.quiet_redis_axioms])

section \<open>Properties of candidate search\<close>

text \<open>The available drivers that a keyspace indexes in a set of cells.\<close>

definition available_in :: "'w ext \<Rightarrow> rdb \<Rightarrow> cell set \<Rightarrow> DriverRecord set" where
  "available_in X d C = {r. dr_State r = DriverAvailable \<and>
     (\<exists>c \<in> C. \<exists>i. i \<in> members d (CellString X c) \<and> alive d i \<and> record_of X d i = Some r)}"

text \<open>
  C24. Candidate search: it returns exactly the available live drivers indexed in the disk of
  some radius \<open>k\<close>, which is the largest radius allowed or gives enough candidates, while
  every smaller disk holds too few; it changes no driver.
\<close>

theorem FindCandidates_correct:
  assumes "quiet_redis X" and "drv_parsed X (db X w)"
    and "0 \<le> MaxK cfg" and "\<forall>k. 0 \<le> k \<longrightarrow> k \<le> MaxK cfg \<longrightarrow> KRing X origin k = Inr (disk k)"
  shows "\<exists>k cands w'. 0 \<le> k \<and> k \<le> MaxK cfg \<and>
    FindCandidates X (DriversInCell X) (GetDrivers X) origin cfg w = (Inr cands, w') \<and>
    set cands = available_in X (db X w) (\<Union>j \<in> {0..k}. set (disk j)) \<and>
    (k < MaxK cfg \<longrightarrow> MinCandidates cfg \<le> int (length cands)) \<and>
    (\<forall>j. 0 \<le> j \<longrightarrow> j < k \<longrightarrow>
       int (card (available_in X (db X w) (\<Union>i \<in> {0..j}. set (disk i)))) < MinCandidates cfg) \<and>
    (\<forall>i. record_of X (db X w') i = record_of X (db X w) i)"
proof -
  note L = quiet_driver_lookup [OF assms(1)]
  have sup: "driver_lookup.supplied (\<lambda>w. live_members X (db X w)) (\<lambda>w. record_of X (db X w)) w C = available_in X (db X w) C" for C
    by (auto simp: driver_lookup.supplied_def [OF L] available_in_def live_members_def)
  obtain k cands w' where
    "0 \<le> k" "k \<le> MaxK cfg" "FindCandidates X (DriversInCell X) (GetDrivers X) origin cfg w = (Inr cands, w')"
    and s: "driver_lookup.same_supply (\<lambda>w. drv_parsed X (db X w)) (\<lambda>w. live_members X (db X w)) (\<lambda>w. record_of X (db X w)) w w'"
    and "set cands = available_in X (db X w) (\<Union>j \<in> {0..k}. set (disk j))"
    "k < MaxK cfg \<longrightarrow> MinCandidates cfg \<le> int (length cands)"
    "\<forall>j. 0 \<le> j \<longrightarrow> j < k \<longrightarrow> int (card (available_in X (db X w) (\<Union>i \<in> {0..j}. set (disk i)))) < MinCandidates cfg"
    using driver_lookup.FindCandidates_run [OF L assms(2-4), unfolded sup] by blast
  moreover have "\<forall>i. record_of X (db X w') i = record_of X (db X w) i"
    using s by (simp add: driver_lookup.same_supply_def [OF L])
  ultimately show ?thesis by blast
qed

definition demo_record :: "string \<Rightarrow> driver_state \<Rightarrow> DriverRecord" where
  "demo_record i st = \<lparr>DriverID = i, dr_Lat = Fin 12, dr_Lng = Fin 77, dr_Cell = 1012, dr_State = st,
     UpdatedAt = 1000 * second, AvailableSince = 990 * second\<rparr>"

lemma demo_driver_at:
  "driver_at mem_world (demo_driver i st) i = Inr (demo_record i st)"
  "alive (demo_driver i st) j \<longleftrightarrow> j = i"
proof -
  have p: "mem_parse ''12/1'' = Inr (Fin 12)" "mem_parse ''77/1'' = Inr (Fin 77)"
    "parse_int64 ''1000'' = Inr 1000" "parse_int64 ''990'' = Inr 990" "mem_cell_parse ''1012'' = 1012"
    by code_simp+
  have h: "hash_field (demo_driver i st) (driverKey i) = [''lat'' \<mapsto> ''12/1'', ''lng'' \<mapsto> ''77/1'', ''cell'' \<mapsto> ''1012'', ''state'' \<mapsto> st,
     ''updated_at'' \<mapsto> ''1000'', ''available_since'' \<mapsto> ''990'']"
    by (intro ext) (simp add: hash_field_def demo_driver_def)
  show "driver_at mem_world (demo_driver i st) i = Inr (demo_record i st)"
    unfolding driver_at_def Let_def h
    by (simp add: parseDriverRecord_def field_def mem_world_def p demo_record_def from_unix_def)
  show "alive (demo_driver i st) j \<longleftrightarrow> j = i"
    by (auto simp: alive_def demo_driver_def)
qed

lemma demo_driver_parsed: "drv_parsed mem_world (demo_driver i st)"
  using demo_driver_typed [of i st] by (auto simp: drv_parsed_def demo_driver_at index_inv_def)

lemma demo_available:
  assumes "1012 \<in> C"
  shows "available_in mem_world (demo_driver i DriverAvailable) C = {demo_record i DriverAvailable}"
proof -
  have n: "CellString mem_world 1012 = ''1012''" by (simp add: mem_world_def mem_cell_name_def, code_simp)
  have "i \<in> members (demo_driver i DriverAvailable) ''1012''" by (simp add: members_def demo_driver_def)
  then show ?thesis
    using assms n by (force simp: available_in_def record_of_def demo_driver_at demo_record_def)
qed

theorem FindCandidates_correct_witness:
  "\<exists>cands w'. FindCandidates mem_world (DriversInCell mem_world) (GetDrivers mem_world) 1012 DefaultSearchConfig
      (demo_driver ''d1'' DriverAvailable) = (Inr cands, w') \<and> set cands = {demo_record ''d1'' DriverAvailable}"
proof -
  let ?w = "demo_driver ''d1'' DriverAvailable"
  let ?disk = "\<lambda>k. map (\<lambda>i. 1012 + of_int i) (0 # concat (map (\<lambda>i. [i, - i]) [1 .. k])) :: cell list"
  have d: "db mem_world w = w" for w by (simp add: mem_world_def)
  have p: "drv_parsed mem_world (db mem_world ?w)" by (simp add: d demo_driver_parsed)
  have k: "\<forall>k. 0 \<le> k \<longrightarrow> k \<le> MaxK DefaultSearchConfig \<longrightarrow> KRing mem_world 1012 k = Inr (?disk k)"
    by (simp add: KRing_def mem_world_def mem_disk_def)
  have m: "0 \<le> MaxK DefaultSearchConfig" by (simp add: DefaultSearchConfig_def)
  obtain k cands w' where kk: "0 \<le> k"
    and r: "FindCandidates mem_world (DriversInCell mem_world) (GetDrivers mem_world) 1012 DefaultSearchConfig ?w = (Inr cands, w')"
    and s: "set cands = available_in mem_world (db mem_world ?w) (\<Union>j \<in> {0..k}. set (?disk j))"
    using FindCandidates_correct [OF mem.quiet_redis_axioms p m k] by blast
  have "1012 \<in> (\<Union>j \<in> {0..k}. set (?disk j))" using kk by (auto intro!: bexI [of _ 0])
  then have "set cands = {demo_record ''d1'' DriverAvailable}" using s demo_available unfolding d by simp
  then show ?thesis using r by blast
qed

section \<open>Properties of the ranking\<close>

definition eta_of :: "estimator \<Rightarrow> Location \<Rightarrow> DriverRecord \<Rightarrow> int result" where
  "eta_of est rider d = est \<lparr>Lat = dr_Lat d, Lng = dr_Lng d\<rparr> rider"

definition entry_of :: "estimator \<Rightarrow> Location \<Rightarrow> RankConfig \<Rightarrow> int \<Rightarrow> DriverRecord \<Rightarrow> RankedCandidate" where
  "entry_of est rider cfg now d =
     (let eta = (case eta_of est rider d of Inr t \<Rightarrow> t | Inl _ \<Rightarrow> 0)
      in \<lparr>rc_Driver = d, rc_ETA = eta, rc_Score = rank_score cfg eta (idle_minutes now d)\<rparr>)"

definition rank_key :: "RankedCandidate \<Rightarrow> f64 \<times> string" where
  "rank_key r = (rc_Score r, DriverID (rc_Driver r))"

lemma score_all_ok:
  "(\<forall>d \<in> set ds. \<exists>t. eta_of est rider d = Inr t) \<Longrightarrow>
     score_all est rider cfg now ds = Inr (map (entry_of est rider cfg now) ds)"
  by (induction ds) (auto simp: eta_of_def entry_of_def)

lemma score_all_fails:
  "d \<in> set ds \<Longrightarrow> eta_of est rider d = Inl e \<Longrightarrow> \<exists>e'. score_all est rider cfg now ds = Inl (Errorf ''estimate eta for driver'' e')"
  by (induction ds) (auto simp: eta_of_def split: sum.split)

lemma ranked_less_key:
  assumes "rc_Score a \<noteq> NaN" "rc_Score b \<noteq> NaN"
  shows "ranked_less a b \<longleftrightarrow> rank_key a < rank_key b"
  using assms by (auto simp: ranked_less_def rank_key_def f_eq_iff f_lt_less less_prod_def)

lemma sort_rank:
  assumes "\<And>r. r \<in> set rs \<Longrightarrow> rc_Score r \<noteq> NaN"
  shows "SliceStable ranked_less rs = sort_key rank_key rs"
  using assms by (intro SliceStable_sort_key ranked_less_key) auto

lemma sort_key_unique:
  assumes "mset xs = mset ys" "inj_on key (set xs)" "distinct xs"
  shows "sort_key key xs = sort_key key ys"
proof (rule map_sorted_distinct_set_unique [of key])
  have s: "set xs = set ys" and d: "distinct ys"
    using assms(1,3) mset_eq_setD mset_eq_imp_distinct_iff by blast+
  show "inj_on key (set (sort_key key xs) \<union> set (sort_key key ys))" using assms(2) s by simp
  show "distinct (map key (sort_key key xs))" "distinct (map key (sort_key key ys))"
    using assms(2,3) s d by (simp_all add: distinct_map)
  show "set (sort_key key xs) = set (sort_key key ys)" using s by simp
qed simp_all

lemma sdiv_abs: "0 < m \<Longrightarrow> \<bar>n sdiv m\<bar> \<le> \<bar>n :: int\<bar>" "0 < m \<Longrightarrow> \<bar>n smod m\<bar> \<le> \<bar>n :: int\<bar>"
proof -
  assume m: "0 < m"
  have s: "\<bar>sgn n * x\<bar> \<le> \<bar>x\<bar>" for x :: int by (simp add: abs_mult abs_sgn_eq)
  have d: "\<bar>\<bar>n\<bar> div m\<bar> \<le> \<bar>n\<bar>" using m div_by_1 zdiv_mono2 [of "\<bar>n\<bar>" 1 m] by (simp add: pos_imp_zdiv_nonneg_iff)
  then show "\<bar>n sdiv m\<bar> \<le> \<bar>n\<bar>" using m s [of "\<bar>n\<bar> div m"] by (simp add: signed_divide_int_def)
  have "\<bar>\<bar>n\<bar> mod m\<bar> \<le> \<bar>n\<bar>" using m by (simp add: zmod_le_nonneg_dividend)
  then show "\<bar>n smod m\<bar> \<le> \<bar>n\<bar>" using m s [of "\<bar>n\<bar> mod m"] by (simp add: signed_modulo_int_def)
qed

text \<open>A duration of type \<open>int64\<close> as a number of seconds or minutes.\<close>

lemma unit_finite:
  assumes "in_i64 d" "0 < m" "1 \<le> q"
  obtains y where "f_add (f_of_int (d sdiv m)) (f_div (f_of_int (d smod m)) (Fin q)) = Fin y"
proof -
  have d: "\<bar>d\<bar> \<le> 2 ^ 63" using assms(1) by (auto simp: in_i64_def)
  obtain a where a: "f_of_int (d sdiv m) = Fin a" "\<bar>a\<bar> \<le> 2 powi 63"
    using rnd_bounded [OF abs_of_int_powi, of "d sdiv m"] d sdiv_abs(1) [OF assms(2), of d] by (auto simp: f_of_int_def)
  obtain b where b: "f_of_int (d smod m) = Fin b" "\<bar>b\<bar> \<le> 2 powi 63"
    using rnd_bounded [OF abs_of_int_powi, of "d smod m"] d sdiv_abs(2) [OF assms(2), of d] by (auto simp: f_of_int_def)
  have "\<bar>b / q\<bar> \<le> \<bar>b\<bar>" using assms(3) by (simp add: abs_divide divide_le_eq mult_le_cancel_left1)
  then have "\<bar>b / q\<bar> \<le> 2 powi 63" using b(2) by linarith
  from rnd_bounded [OF this] obtain e where e: "rnd (b / q) = Fin e" "\<bar>e\<bar> \<le> 2 powi 63" by auto
  have "\<bar>a + e\<bar> \<le> 2 * 2 powi 63" using a(2) e(2) by linarith
  also have "(2::rat) * 2 powi 63 = 2 powi 64" by simp
  finally obtain y where "rnd (a + e) = Fin y" using rnd_bounded [of "a + e" 64] by auto
  then show thesis using that assms(3) by (simp add: a b e)
qed

text \<open>So a score is a number, whatever the estimate and the time.\<close>

lemma rank_score_number:
  assumes "in_i64 eta" "FairnessWeight cfg = Fin w"
  shows "rank_score cfg eta (idle_minutes now d) \<noteq> NaN"
proof -
  obtain s where s: "Seconds eta = Fin s" unfolding Seconds_def
    using unit_finite [OF assms(1), of second 1000000000] by (auto simp: second_def)
  have "in_i64 (time_sub now (AvailableSince d))" by (simp add: time_sub_def in_i64_def)
  then obtain m where m: "Minutes (time_sub now (AvailableSince d)) = Fin m"
    unfolding Minutes_def using unit_finite [of _ minute 60000000000] by (auto simp: minute_def second_def)
  obtain i where "idle_minutes now d = Fin i"
  proof (cases "AvailableSince d = zero_time \<or> f_lt (Fin m) (Fin 0)")
    case True
    then have "idle_minutes now d = Fin 0" by (auto simp: idle_minutes_def m)
    then show ?thesis by (rule that)
  qed (rule that, simp add: idle_minutes_def m)
  moreover have "f_sub (Fin s) (rnd z) \<noteq> NaN" for z by (cases "rnd z") (use rnd_not_NaN [of z] in \<open>auto simp: f_sub_def\<close>)
  ultimately show ?thesis by (simp add: rank_score_def assms(2) s)
qed

text \<open>The result, when every estimate succeeds and no score is a NaN.\<close>

definition rankable :: "estimator \<Rightarrow> Location \<Rightarrow> RankConfig \<Rightarrow> int \<Rightarrow> DriverRecord list \<Rightarrow> bool" where
  "rankable est rider cfg now ds \<longleftrightarrow>
     (\<forall>d \<in> set ds. \<exists>t. eta_of est rider d = Inr t) \<and> (\<forall>d \<in> set ds. rc_Score (entry_of est rider cfg now d) \<noteq> NaN)"

lemma Rank_sort:
  assumes "rankable est rider cfg now ds"
  shows "Rank est rider ds cfg now = Inr (sort_key rank_key (map (entry_of est rider cfg now) ds))"
proof -
  have "score_all est rider cfg now ds = Inr (map (entry_of est rider cfg now) ds)"
    by (rule score_all_ok) (use assms in \<open>simp add: rankable_def\<close>)
  moreover have "SliceStable ranked_less (map (entry_of est rider cfg now) ds) = sort_key rank_key (map (entry_of est rider cfg now) ds)"
    using assms by (intro sort_rank) (auto simp: rankable_def)
  ultimately show ?thesis by (simp add: Rank_def)
qed

lemma rank_sorted:
  assumes "\<forall>r \<in> set rs. rc_Score r \<noteq> NaN"
  shows "sorted_wrt (\<lambda>a b. f_lt (rc_Score a) (rc_Score b) \<or>
    rc_Score a = rc_Score b \<and> DriverID (rc_Driver a) \<le> DriverID (rc_Driver b)) (sort_key rank_key rs)"
proof -
  have "sorted_wrt (\<lambda>a b. rank_key a \<le> rank_key b) (sort_key rank_key rs)"
    using sorted_sort_key [of rank_key] by (simp add: sorted_map)
  then show ?thesis
    by (rule sorted_wrt_mono_rel [rotated]) (use assms in \<open>auto simp: rank_key_def less_eq_prod_def f_lt_less\<close>)
qed

lemma rank_order_free:
  assumes "mset ds' = mset ds" "distinct (map DriverID ds)"
  shows "sort_key rank_key (map (entry_of est rider cfg now) ds') = sort_key rank_key (map (entry_of est rider cfg now) ds)"
proof -
  let ?en = "entry_of est rider cfg now"
  have drv: "rc_Driver (?en d) = d" for d by (simp add: entry_of_def Let_def)
  have d: "distinct ds" "inj_on DriverID (set ds)" using assms(2) by (simp_all add: distinct_map)
  have "inj_on ?en (set ds)" using drv by (metis inj_on_inverseI)
  then have "distinct (map ?en ds)" using d(1) by (simp add: distinct_map)
  moreover have "inj_on rank_key (set (map ?en ds))" using d(2) by (auto simp: inj_on_def rank_key_def drv)
  moreover have "mset (map ?en ds) = mset (map ?en ds')" using assms(1) by simp
  ultimately show ?thesis using sort_key_unique [of "map ?en ds" "map ?en ds'" rank_key] by simp
qed

text \<open>
  C34. Ranking: when every estimate succeeds, the result holds every candidate once, with its
  estimate and score, in order of score and, for equal scores, of driver ID; one failed
  estimate fails the ranking. For candidates with different IDs the result does not
  depend on the order they arrive in.
\<close>

theorem Rank_correct:
  assumes "FairnessWeight cfg = Fin weight" and "\<forall>d \<in> set ds. \<forall>t. eta_of est rider d = Inr t \<longrightarrow> in_i64 t"
  shows "if \<exists>d \<in> set ds. \<exists>e. eta_of est rider d = Inl e
    then \<exists>e. Rank est rider ds cfg now = Inl (Errorf ''estimate eta for driver'' e)
    else \<exists>rs. Rank est rider ds cfg now = Inr rs \<and>
      mset rs = mset (map (entry_of est rider cfg now) ds) \<and>
      sorted_wrt (\<lambda>a b. f_lt (rc_Score a) (rc_Score b) \<or>
        rc_Score a = rc_Score b \<and> DriverID (rc_Driver a) \<le> DriverID (rc_Driver b)) rs \<and>
      (\<forall>ds'. mset ds' = mset ds \<and> distinct (map DriverID ds) \<longrightarrow> Rank est rider ds' cfg now = Inr rs)"
proof (cases "\<exists>d \<in> set ds. \<exists>e. eta_of est rider d = Inl e")
  case True
  then obtain e' where "score_all est rider cfg now ds = Inl (Errorf ''estimate eta for driver'' e')"
    using score_all_fails by blast
  with True show ?thesis by (simp add: Rank_def)
next
  case False
  let ?en = "entry_of est rider cfg now"
  have t: "\<forall>d \<in> set ds. \<exists>t. eta_of est rider d = Inr t" using False by (metis sum.exhaust)
  then have ok: "rankable est rider cfg now ds'" if "set ds' = set ds" for ds'
    using rank_score_number [OF _ assms(1)] assms(2) that by (auto simp: rankable_def entry_of_def)
  have perm: "\<forall>ds'. mset ds' = mset ds \<and> distinct (map DriverID ds) \<longrightarrow> Rank est rider ds' cfg now = Inr (sort_key rank_key (map ?en ds))"
    using Rank_sort [OF ok] rank_order_free mset_eq_setD by metis
  have "\<exists>rs. Rank est rider ds cfg now = Inr rs \<and> mset rs = mset (map ?en ds) \<and>
      sorted_wrt (\<lambda>a b. f_lt (rc_Score a) (rc_Score b) \<or>
        rc_Score a = rc_Score b \<and> DriverID (rc_Driver a) \<le> DriverID (rc_Driver b)) rs \<and>
      (\<forall>ds'. mset ds' = mset ds \<and> distinct (map DriverID ds) \<longrightarrow> Rank est rider ds' cfg now = Inr rs)"
    using ok [OF refl] by (intro exI [of _ "sort_key rank_key (map ?en ds)"] conjI perm rank_sorted Rank_sort) (simp_all add: rankable_def)
  with False show ?thesis by (simp only: if_False)
qed

theorem Rank_correct_witness:
  "\<exists>rs. Rank (\<lambda>from to. Inr (120 * second)) \<lparr>Lat = Fin 12, Lng = Fin 77\<rparr>
      [demo_record ''d2'' DriverAvailable, demo_record ''d1'' DriverAvailable] \<lparr>FairnessWeight = Fin 0\<rparr> (990 * second) = Inr rs \<and>
    Rank (\<lambda>from to. Inr (120 * second)) \<lparr>Lat = Fin 12, Lng = Fin 77\<rparr>
      [demo_record ''d1'' DriverAvailable, demo_record ''d2'' DriverAvailable] \<lparr>FairnessWeight = Fin 0\<rparr> (990 * second) = Inr rs"
proof -
  let ?ds = "[demo_record ''d2'' DriverAvailable, demo_record ''d1'' DriverAvailable]"
  let ?ds' = "[demo_record ''d1'' DriverAvailable, demo_record ''d2'' DriverAvailable]"
  let ?est = "\<lambda>from to. Inr (120 * second) :: int result"
  have w: "FairnessWeight \<lparr>FairnessWeight = Fin 0\<rparr> = Fin 0" by simp
  have n: "\<forall>d \<in> set ?ds. \<forall>t. eta_of ?est r d = Inr t \<longrightarrow> in_i64 t" for r
    by (simp add: eta_of_def second_def in_i64_def)
  have p: "mset ?ds' = mset ?ds \<and> distinct (map DriverID ?ds)" by (simp add: demo_record_def)
  let ?at = "\<lparr>Lat = Fin 12, Lng = Fin 77\<rparr>"
  have "\<not> (\<exists>d \<in> set ?ds. \<exists>e. eta_of ?est ?at d = Inl e)" by (simp add: eta_of_def)
  then obtain rs where "Rank ?est ?at ?ds \<lparr>FairnessWeight = Fin 0\<rparr> (990 * second) = Inr rs"
    and "\<forall>ds'. mset ds' = mset ?ds \<and> distinct (map DriverID ?ds) \<longrightarrow> Rank ?est ?at ds' \<lparr>FairnessWeight = Fin 0\<rparr> (990 * second) = Inr rs"
    using Rank_correct [OF w n, of ?at] by (simp only: if_False) blast
  then show ?thesis using p by blast
qed

section \<open>Properties of the estimates\<close>

lemma rnd_between:
  assumes "of_int a \<le> x" "x \<le> of_int b" "\<bar>a\<bar> < 2 ^ 53" "\<bar>b\<bar> < 2 ^ 53"
  obtains y where "rnd x = Fin y" "of_int a \<le> y" "y \<le> of_int b"
proof -
  have "f_le (Fin (of_int a)) (rnd x)" "f_le (rnd x) (Fin (of_int b))"
    using rnd_mono [OF assms(1)] rnd_mono [OF assms(2)]
    unfolding rnd_int [OF assms(3)] rnd_int [OF assms(4)] .
  then show thesis using that by (cases "rnd x") auto
qed

lemma to_i64_between:
  assumes "of_int a \<le> x" "x \<le> of_int b" "0 \<le> a" "b < 2 ^ 53"
  shows "\<exists>t. f_to_i64 oor (rnd x) = t \<and> a \<le> t \<and> t \<le> b"
proof -
  have "a \<le> b" using assms(1,2) by linarith
  then obtain y where y: "rnd x = Fin y" "of_int a \<le> y" "y \<le> of_int b"
    using rnd_between [OF assms(1,2)] assms(3,4) by auto
  then have f: "a \<le> \<lfloor>y\<rfloor>" "\<lfloor>y\<rfloor> \<le> b" by (simp_all add: le_floor_iff) linarith
  have "0 \<le> y" using y(2) assms(3) by (meson of_int_0_le_iff order_trans)
  then have "trunc_rat y = \<lfloor>y\<rfloor>" by (simp add: trunc_rat_def)
  moreover have "in_i64 z" if "a \<le> z" "z \<le> b" for z using that assms(3,4) by (simp add: in_i64_def)
  then have "in_i64 \<lfloor>y\<rfloor>" using f by blast
  ultimately show ?thesis using y(1) f by simp
qed

lemma scaled_between:
  assumes "0 \<le> base" "base < 2 ^ 53" "0 < f" "of_int base * f \<le> 2 ^ 53 - 1"
  shows "1 \<le> f \<Longrightarrow> base \<le> f_to_i64 oor (rnd (of_int base * f))"
    and "f \<le> 1 \<Longrightarrow> f_to_i64 oor (rnd (of_int base * f)) \<le> base"
proof -
  have nn: "0 \<le> (of_int base :: rat)" using assms(1) by simp
  show "base \<le> f_to_i64 oor (rnd (of_int base * f))" if "1 \<le> f"
  proof -
    have "of_int base * 1 \<le> of_int base * f" using that nn by (intro mult_left_mono)
    then show ?thesis using to_i64_between [of base "of_int base * f" "2 ^ 53 - 1" oor] assms by auto
  qed
  show "f_to_i64 oor (rnd (of_int base * f)) \<le> base" if "f \<le> 1"
  proof -
    have "of_int base * f \<le> of_int base * 1" using that nn by (intro mult_left_mono) auto
    moreover have "0 \<le> of_int base * f" using nn assms(3) by simp
    ultimately show ?thesis using to_i64_between [of 0 "of_int base * f" base oor] assms by auto
  qed
qed

text \<open>
  Congestion: in a cell without a recorded (positive) factor the estimate is the
  baseline; a factor of at least 1 never shortens it and one of at most 1 never
  lengthens it. (Durations below \<open>2 ^ 53\<close> nanoseconds, 104 days, where \<open>float64\<close> is exact.)
\<close>

theorem congestion_adjusts:
  assumes "Base src dst = Inr base" and "0 \<le> base \<and> base < 2 ^ 53"
    and "CellFor X (Lat src) (Lng src) res = Inr c"
  shows "let est = CongestionAwareEstimator_Estimate X Base (CongestionFactor p) res src dst in
    ((\<forall>f. p c = Some f \<longrightarrow> \<not> f_lt (Fin 0) f) \<longrightarrow> est = Inr base) \<and>
    (\<forall>f. p c = Some (Fin f) \<longrightarrow> 0 < f \<longrightarrow> of_int base * f \<le> 2 ^ 53 - 1 \<longrightarrow>
      (\<exists>t. est = Inr t \<and> (1 \<le> f \<longrightarrow> base \<le> t) \<and> (f \<le> 1 \<longrightarrow> t \<le> base)))"
proof -
  let ?est = "CongestionAwareEstimator_Estimate X Base (CongestionFactor p) res src dst"
  have b: "f_of_int base = Fin (of_int base)" using assms(2) by (intro f_of_int_exact) auto
  have e: "?est = Inr (f_to_i64 (f64_oor X) (rnd (of_int base * f)))"
    if "CongestionFactor p c = Fin f" "0 < f" for f
    using that by (simp add: CongestionAwareEstimator_Estimate_def assms(1,3) b)
  have i: "in_i64 base" using assms(2) by (simp add: in_i64_def)
  have free: "?est = Inr base" if "\<forall>f. p c = Some f \<longrightarrow> \<not> f_lt (Fin 0) f"
  proof -
    have "CongestionFactor p c = Fin 1" using that by (simp add: CongestionFactor_def split: option.splits)
    moreover have "rnd (of_int base) = Fin (of_int base)" using b by (simp add: f_of_int_def)
    ultimately show ?thesis using e [of 1] assms(2) i by (simp add: trunc_rat_def)
  qed
  have "\<exists>t. ?est = Inr t \<and> (1 \<le> f \<longrightarrow> base \<le> t) \<and> (f \<le> 1 \<longrightarrow> t \<le> base)"
    if f: "p c = Some (Fin f)" "0 < f" "of_int base * f \<le> 2 ^ 53 - 1" for f
  proof -
    have "CongestionFactor p c = Fin f" using f(1,2) by (simp add: CongestionFactor_def f_lt_def)
    from e [OF this f(2)] scaled_between [OF _ _ f(2,3), of "f64_oor X"] assms(2) show ?thesis by simp
  qed
  then show ?thesis using free by (simp add: Let_def)
qed

theorem congestion_adjusts_witness:
  "let p = congestion_Set NewInMemoryCongestionProvider 1012 (Fin 2);
       est = CongestionAwareEstimator_Estimate mem_world (\<lambda>_ _. Inr (60 * second)) (CongestionFactor p) 8
         \<lparr>Lat = Fin 12, Lng = Fin 77\<rparr> \<lparr>Lat = Fin 13, Lng = Fin 77\<rparr>
   in \<exists>t. est = Inr t \<and> 60 * second \<le> t"
proof -
  let ?p = "congestion_Set NewInMemoryCongestionProvider 1012 (Fin 2)"
  have c: "CellFor mem_world (Lat \<lparr>Lat = Fin 12, Lng = Fin 77\<rparr>) (Lng \<lparr>Lat = Fin 12, Lng = Fin 77\<rparr>) 8 = Inr 1012"
    by (simp add: CellFor_def mem_world_def)
  have b: "0 \<le> 60 * second \<and> 60 * second < 2 ^ 53" by (simp add: second_def)
  have p: "?p 1012 = Some (Fin 2)" by (simp add: congestion_Set_def)
  have "of_int (60 * second) * (2 :: rat) \<le> 2 ^ 53 - 1" by (simp add: second_def)
  then show ?thesis
    using congestion_adjusts [where Base = "\<lambda>_ _. Inr (60 * second)" and p = ?p, OF refl b c] p
    by (simp add: Let_def)
qed

end
