(* ===== verification/Offers.thy ===== *)
theory Offers
  imports Matching Metrics "HOL-Library.Sublist"
begin

text \<open>
  \<open>internal/offers\<close>: the hub that hands a driver's answer to the waiting dispatch, the
  offer/reoffer loop \<open>Dispatcher.Run\<close>, and the \<open>Reconciler\<close> that resumes trips left
  behind. A dispatch runs on a node: the world its stores act on, the hub in its memory,
  and the events it has published so far. What happens while it blocks is a parameter:
  which answers reach the hub within the offer window, and whether a sleep ends because
  the context was cancelled.
\<close>

section \<open>The response hub\<close>

datatype Response = NoResponse | Accepted | Declined

text \<open>
  Per trip a channel of capacity one, holding at most one answer. \<open>Respond\<close> releases the lock
  between finding the channel and sending on it; here it is one step, at the moment of the
  sending to a channel that is still there. What that leaves out is an answer sent on a channel whose wait has
  ended since it was found, which the code reports as delivered and nobody reads.
\<close>

type_synonym ResponseHub = "string \<rightharpoonup> Response option"

definition NewResponseHub :: ResponseHub where "NewResponseHub = Map.empty"

definition hub_open :: "string \<Rightarrow> ResponseHub \<Rightarrow> ResponseHub" where
  "hub_open tripID h = h(tripID \<mapsto> None)"

definition hub_close :: "string \<Rightarrow> ResponseHub \<Rightarrow> ResponseHub" where
  "hub_close tripID h = h(tripID := None)"

definition Respond :: "string \<Rightarrow> Response \<Rightarrow> ResponseHub \<Rightarrow> bool \<times> ResponseHub" where
  "Respond tripID resp h =
     (case h tripID of
        None \<Rightarrow> (False, h)
      | Some None \<Rightarrow> (True, h(tripID \<mapsto> Some resp))
      | Some (Some _) \<Rightarrow> (False, h))"

section \<open>The node a dispatch runs on\<close>

record 'w node =
  world :: 'w
  hub :: ResponseHub
  published :: "event list"
  metrics :: metrics

record 'w waits =
  arrivals :: "string \<Rightarrow> int \<Rightarrow> 'w \<Rightarrow> (string \<times> Response) list \<times> 'w"
  pause :: "int \<Rightarrow> 'w \<Rightarrow> bool \<times> 'w"

definition on_world :: "('w, 'a) io \<Rightarrow> ('w node, 'a) io" where
  "on_world m = (\<lambda>n. case m (world n) of (r, w) \<Rightarrow> (r, n\<lparr>world := w\<rparr>))"

section \<open>The dispatcher\<close>

record Config =
  OfferWindow :: int
  MaxRounds :: int
  BaseBackoff :: int
  MaxBackoff :: int

definition DefaultConfig :: Config where
  "DefaultConfig = \<lparr>OfferWindow = 15 * second, MaxRounds = 5, BaseBackoff = 1 * second, MaxBackoff = 10 * second\<rparr>"

definition offerRecordGrace :: int where "offerRecordGrace = 10 * second"

definition publish :: "('w \<Rightarrow> event) \<Rightarrow> ('w node, unit) io" where
  "publish ev = (\<lambda>n. (Inr (), n\<lparr>published := published n @ [ev (world n)]\<rparr>))"

definition publishTrip :: "'w ext \<Rightarrow> string \<Rightarrow> cell \<Rightarrow> trip_state \<Rightarrow> string \<Rightarrow> ('w node, unit) io" where
  "publishTrip X tripID c state driverID = publish (\<lambda>w. TripLifecycle
     \<lparr>tl_TripID = tripID, tl_State = state, tl_Cell = CellString X c, tl_DriverID = driverID, tl_Timestamp = wall X w\<rparr>)"

definition publishOffer :: "'w ext \<Rightarrow> string \<Rightarrow> string \<Rightarrow> int \<Rightarrow> cell \<Rightarrow> offer_state \<Rightarrow> ('w node, unit) io" where
  "publishOffer X tripID driverID rno c state = publish (\<lambda>w. OfferLifecycle
     \<lparr>oe_TripID = tripID, oe_DriverID = driverID, oe_Round = rno, oe_State = state,
      oe_Cell = CellString X c, oe_Timestamp = wall X w\<rparr>)"

definition recordOutcome :: "bool \<Rightarrow> int \<Rightarrow> ('w node, unit) io" where
  "recordOutcome matched roundsAttempted = (\<lambda>n. (Inr (), n\<lparr>metrics := count_outcome matched roundsAttempted (metrics n)\<rparr>))"

definition deliver :: "(string \<times> Response) list \<Rightarrow> ResponseHub \<Rightarrow> ResponseHub" where
  "deliver as h = fold (\<lambda>(t, r) h. snd (Respond t r h)) as h"

definition awaitResponse :: "'w waits \<Rightarrow> Config \<Rightarrow> string \<Rightarrow> ('w node, Response) io" where
  "awaitResponse W cfg tripID = (\<lambda>n.
     case arrivals W tripID (OfferWindow cfg) (world n) of (as, w) \<Rightarrow>
     let h = deliver as (hub_open tripID (hub n)) in
     (Inr (case h tripID of Some (Some r) \<Rightarrow> r | _ \<Rightarrow> NoResponse),
      n\<lparr>world := w, hub := hub_close tripID h\<rparr>))"

definition sleep :: "'w waits \<Rightarrow> int \<Rightarrow> ('w node, unit) io" where
  "sleep W d = (\<lambda>n. case pause W d (world n) of (elapsed, w) \<Rightarrow>
     (if elapsed then Inr () else Inl ContextDone, n\<lparr>world := w\<rparr>))"

text \<open>\<open>backoff *= 2; if backoff > MaxBackoff { backoff = MaxBackoff }\<close>\<close>

definition next_backoff :: "Config \<Rightarrow> int \<Rightarrow> int" where
  "next_backoff cfg backoff =
     (let b = wrap_i64 (backoff * 2) in if b > MaxBackoff cfg then MaxBackoff cfg else b)"

definition give_up :: "'w ext \<Rightarrow> string \<Rightarrow> cell \<Rightarrow> int \<Rightarrow> ('w node, bool \<times> string) io" where
  "give_up X tripID c roundsAttempted =
     io_bind (on_world (MarkUnfulfilled X tripID)) (\<lambda>_.
     io_bind (publishTrip X tripID c TripUnfulfilled '''') (\<lambda>_.
     io_bind (recordOutcome False roundsAttempted) (\<lambda>_.
     io_return (False, ''''))))"

definition is_illegal_driver :: "go_error \<Rightarrow> bool" where
  "is_illegal_driver e = (case e of ErrIllegalDriverTransition _ _ \<Rightarrow> True | _ \<Rightarrow> False)"

text \<open>\<open>SetState\<close> where an illegal transition is passed over.\<close>

definition SetState_tolerant :: "'w ext \<Rightarrow> string \<Rightarrow> driver_state \<Rightarrow> string \<Rightarrow> ('w node, unit) io" where
  "SetState_tolerant X driverID to msg =
     io_bind (io_try (on_world (SetState X driverID to))) (\<lambda>r.
     case r of Inl e \<Rightarrow> if is_illegal_driver e then io_return () else io_fail (Errorf msg e)
     | Inr _ \<Rightarrow> io_return ())"

definition accept_round :: "'w ext \<Rightarrow> string \<Rightarrow> cell \<Rightarrow> string \<Rightarrow> int \<Rightarrow> ('w node, bool \<times> string) io" where
  "accept_round X tripID c driverID rno =
     io_bind (io_wrap ''accept offer'' (on_world (SetOfferState X tripID driverID OfferAccepted))) (\<lambda>_.
     io_bind (publishOffer X tripID driverID rno c OfferAccepted) (\<lambda>_.
     io_bind (SetState_tolerant X driverID DriverEnRoute ''move driver en route'') (\<lambda>_.
     io_bind (io_wrap ''mark trip matched'' (on_world (MarkMatched X tripID driverID))) (\<lambda>_.
     io_bind (publishTrip X tripID c TripMatched driverID) (\<lambda>_.
     io_bind (recordOutcome True rno) (\<lambda>_.
     io_return (True, driverID)))))))"

definition close_round :: "'w ext \<Rightarrow> string \<Rightarrow> cell \<Rightarrow> string \<Rightarrow> int \<Rightarrow> Response \<Rightarrow> ('w node, unit) io" where
  "close_round X tripID c driverID rno resp =
     io_bind
       (if resp = Declined
        then io_bind (io_wrap ''decline offer'' (on_world (SetOfferState X tripID driverID OfferDeclined))) (\<lambda>_.
             publishOffer X tripID driverID rno c OfferDeclined)
        else io_bind (io_try (on_world (SetOfferState X tripID driverID OfferTimedOut))) (\<lambda>r.
             case r of Inl e \<Rightarrow> if e \<noteq> ErrOfferNotFound then io_fail (Errorf ''time out offer'' e)
                              else publishOffer X tripID driverID rno c OfferTimedOut
             | Inr _ \<Rightarrow> publishOffer X tripID driverID rno c OfferTimedOut))
       (\<lambda>_. SetState_tolerant X driverID DriverAvailable ''release driver'')"

fun offer_loop :: "'w ext \<Rightarrow> 'w waits \<Rightarrow> Config \<Rightarrow> string \<Rightarrow> cell \<Rightarrow> string list \<Rightarrow> int \<Rightarrow> int
    \<Rightarrow> ('w node, bool \<times> string) io" where
  "offer_loop X W cfg tripID c [] rounds backoff = give_up X tripID c rounds"
| "offer_loop X W cfg tripID c (driverID # ids) rounds backoff =
     (if \<not> rounds < MaxRounds cfg then give_up X tripID c rounds
      else io_bind (io_try (on_world (SetState X driverID DriverOffered))) (\<lambda>r.
        case r of
          Inl e \<Rightarrow> if is_illegal_driver e then offer_loop X W cfg tripID c ids rounds backoff
                   else io_fail (Errorf ''offer to driver'' e)
        | Inr _ \<Rightarrow>
            io_bind (io_wrap ''create offer round''
              (on_world (CreateOffer X tripID driverID (rounds + 1) (OfferWindow cfg + offerRecordGrace)))) (\<lambda>_.
            io_bind (publishOffer X tripID driverID (rounds + 1) c OfferPending) (\<lambda>_.
            io_bind (awaitResponse W cfg tripID) (\<lambda>resp.
            if resp = Accepted then accept_round X tripID c driverID (rounds + 1)
            else io_bind (close_round X tripID c driverID (rounds + 1) resp) (\<lambda>_.
              if ids \<noteq> [] \<and> rounds + 1 < MaxRounds cfg
              then io_bind (sleep W backoff) (\<lambda>_.
                   offer_loop X W cfg tripID c ids (rounds + 1) (next_backoff cfg backoff))
              else offer_loop X W cfg tripID c ids (rounds + 1) backoff))))))"

definition Run :: "'w ext \<Rightarrow> 'w waits \<Rightarrow> Config \<Rightarrow> string \<Rightarrow> cell \<Rightarrow> RankedCandidate list \<Rightarrow> ('w node, bool \<times> string) io" where
  "Run X W cfg tripID originCell candidates =
     io_bind (io_wrap ''get trip'' (on_world (GetTrip X tripID))) (\<lambda>trip.
     let loop = offer_loop X W cfg tripID originCell (map (DriverID \<circ> rc_Driver) candidates) 0 (BaseBackoff cfg) in
     if tr_State trip = TripRequested then
       (if candidates = [] then give_up X tripID originCell 0
        else io_bind (io_wrap ''mark trip offered'' (on_world (SetTripState X tripID TripOffered))) (\<lambda>_.
             io_bind (publishTrip X tripID originCell TripOffered '''') (\<lambda>_. loop)))
     else if tr_State trip = TripOffered then
       (if candidates = [] then give_up X tripID originCell 0 else loop)
     else io_fail (ErrorMsg ''trip is in terminal state, cannot dispatch''))"

section \<open>The reconciler\<close>

record 'w Reconciler =
  rc_lookup_cell :: "'w lookup_cell"
  rc_lookup_many :: "'w lookup_many"
  rc_Waits :: "'w waits"
  rc_Cfg :: Config
  rc_Estimator :: estimator
  rc_Resolution :: int
  rc_SearchCfg :: SearchConfig
  rc_RankCfg :: RankConfig

definition resumeIfStuck :: "'w ext \<Rightarrow> 'w Reconciler \<Rightarrow> string \<Rightarrow> ('w node, bool) io" where
  "resumeIfStuck X R tripID =
     io_bind (io_try (on_world (GetOffer X tripID))) (\<lambda>offer.
     case offer of
       Inr _ \<Rightarrow> io_return False
     | Inl e \<Rightarrow>
         if e \<noteq> ErrOfferNotFound then io_fail (Errorf ''get offer'' e)
         else io_bind (io_wrap ''get trip'' (on_world (GetTrip X tripID))) (\<lambda>trip.
           if tr_State trip \<noteq> TripOffered then io_return False
           else io_bind (io_wrap ''cell for trip origin''
                  (io_lift (CellFor X (OriginLat trip) (OriginLng trip) (rc_Resolution R)))) (\<lambda>origin.
             io_bind (io_wrap ''find candidates''
                  (on_world (FindCandidates X (rc_lookup_cell R) (rc_lookup_many R) origin (rc_SearchCfg R)))) (\<lambda>candidates.
             io_bind (io_wrap ''rank candidates'' (\<lambda>n. (Rank (rc_Estimator R)
                  \<lparr>Lat = OriginLat trip, Lng = OriginLng trip\<rparr> candidates (rc_RankCfg R) (wall X (world n)), n))) (\<lambda>ranked.
             io_bind (io_wrap ''run dispatcher'' (Run X (rc_Waits R) (rc_Cfg R) tripID origin ranked)) (\<lambda>_.
             io_return True))))))"

text \<open>The loop of \<open>Sweep\<close>; it stops at the first error and returns what it recovered so far with it.\<close>

fun sweep_trips :: "'w ext \<Rightarrow> 'w Reconciler \<Rightarrow> string list \<Rightarrow> nat \<Rightarrow> ('w node, nat \<times> go_error option) io" where
  "sweep_trips X R [] recovered = io_return (recovered, None)"
| "sweep_trips X R (tripID # ids) recovered =
     io_bind (io_try (resumeIfStuck X R tripID)) (\<lambda>r.
     case r of
       Inl e \<Rightarrow> io_return (recovered, Some (Errorf ''resume trip'' e))
     | Inr resumed \<Rightarrow> sweep_trips X R ids (if resumed then Suc recovered else recovered))"

definition Sweep :: "'w ext \<Rightarrow> 'w Reconciler \<Rightarrow> ('w node, nat \<times> go_error option) io" where
  "Sweep X R =
     io_bind (io_try (on_world (OfferedTrips X))) (\<lambda>r.
     case r of
       Inl e \<Rightarrow> io_return (0, Some (Errorf ''list offered trips'' e))
     | Inr tripIDs \<Rightarrow> sweep_trips X R tripIDs 0)"

section \<open>Rounds\<close>

text \<open>The offers opened, as the published events tell them: driver and round.\<close>

fun opened :: "event \<Rightarrow> (string \<times> int) option" where
  "opened (OfferLifecycle e) = (if oe_State e = OfferPending then Some (oe_DriverID e, oe_Round e) else None)"
| "opened _ = None"

definition offers_made :: "'w node \<Rightarrow> (string \<times> int) list" where
  "offers_made n = List.map_filter opened (published n)"

lemma on_world_simps [simp]:
  "published (snd (on_world m n)) = published n" "hub (snd (on_world m n)) = hub n"
  "world (snd (on_world m n)) = snd (m (world n))" "fst (on_world m n) = fst (m (world n))"
  by (simp_all add: on_world_def split_beta)

lemma on_world_made [simp]: "offers_made (snd (on_world m n)) = offers_made n"
  by (simp add: offers_made_def)

lemma publish_simps [simp]:
  "fst (publish ev n) = Inr ()" "world (snd (publish ev n)) = world n" "hub (snd (publish ev n)) = hub n"
  "published (snd (publish ev n)) = published n @ [ev (world n)]"
  by (simp_all add: publish_def)

lemma recordOutcome_simps [simp]:
  "fst (recordOutcome m k n) = Inr ()" "world (snd (recordOutcome m k n)) = world n"
  "hub (snd (recordOutcome m k n)) = hub n" "published (snd (recordOutcome m k n)) = published n"
  "metrics (snd (recordOutcome m k n)) = count_outcome m k (metrics n)"
  by (simp_all add: recordOutcome_def)

lemma publish_fst [simp]:
  "fst (publishOffer X t i rno c st n) = Inr ()" "fst (publishTrip X t c st i n) = Inr ()"
  "world (snd (publishOffer X t i rno c st n)) = world n" "world (snd (publishTrip X t c st i n)) = world n"
  by (simp_all add: publishOffer_def publishTrip_def)

lemma publishTrip_made [simp]: "offers_made (snd (publishTrip X t c st i n)) = offers_made n"
  by (simp add: offers_made_def publishTrip_def List.map_filter_def)

text \<open>
  \<open>emits p m Q\<close>: whenever \<open>m\<close> runs, the events it adds that \<open>p\<close> picks, together with its result,
  satisfy \<open>Q\<close>. Such statements compose along the code.
\<close>

definition emits :: "(event \<Rightarrow> 'e option) \<Rightarrow> ('w node, 'a) io \<Rightarrow> ('a result \<Rightarrow> 'e list \<Rightarrow> bool) \<Rightarrow> bool" where
  "emits p m Q \<longleftrightarrow>
     (\<forall>n. \<exists>es. List.map_filter p (published (snd (m n))) = List.map_filter p (published n) @ es \<and> Q (fst (m n)) es)"

abbreviation mute :: "(event \<Rightarrow> 'e option) \<Rightarrow> ('w node, 'a) io \<Rightarrow> bool" where
  "mute p m \<equiv> emits p m (\<lambda>r es. es = [])"

lemma emits_mono: "emits p m Q \<Longrightarrow> (\<And>r es. Q r es \<Longrightarrow> Q' r es) \<Longrightarrow> emits p m Q'"
  unfolding emits_def by blast

lemma emits_bind:
  assumes "emits p m P" "\<And>x. emits p (f x) (Q x)"
    and "\<And>e es. P (Inl e) es \<Longrightarrow> R (Inl e) es" and "\<And>x r es es'. P (Inr x) es \<Longrightarrow> Q x r es' \<Longrightarrow> R r (es @ es')"
  shows "emits p (io_bind m f) R"
  unfolding emits_def
proof
  fix n
  let ?ev = "\<lambda>n. List.map_filter p (published n)"
  obtain es where es: "?ev (snd (m n)) = ?ev n @ es" "P (fst (m n)) es" using assms(1) unfolding emits_def by blast
  show "\<exists>es. ?ev (snd (io_bind m f n)) = ?ev n @ es \<and> R (fst (io_bind m f n)) es"
  proof (cases "fst (m n)")
    case (Inl e)
    then show ?thesis using es assms(3) by (auto simp: io_bind_err)
  next
    case (Inr x)
    obtain es' where "?ev (snd (f x (snd (m n)))) = ?ev (snd (m n)) @ es'" "Q x (fst (f x (snd (m n)))) es'"
      using assms(2) unfolding emits_def by blast
    then show ?thesis using es assms(4) Inr by (auto simp: io_bind_ok)
  qed
qed

text \<open>After a mute step only the rest counts.\<close>

lemma emits_after_mute:
  assumes "mute p m" "\<And>x. emits p (f x) R" "\<And>e. R (Inl e) []"
  shows "emits p (io_bind m f) R"
  by (rule emits_bind [OF assms(1,2)]) (auto simp: assms(3))

lemma mute_emits:
  assumes "mute p m" "\<And>r. Q r []"
  shows "emits p m Q"
  using assms(1) by (rule emits_mono) (simp add: assms(2))

lemma emits_if: "(c \<Longrightarrow> emits p a Q) \<Longrightarrow> (\<not> c \<Longrightarrow> emits p b Q) \<Longrightarrow> emits p (if c then a else b) Q"
  by simp

lemma emits_case: "(\<And>e. emits p (f e) Q) \<Longrightarrow> (\<And>x. emits p (g x) Q) \<Longrightarrow> emits p (case r of Inl e \<Rightarrow> f e | Inr x \<Rightarrow> g x) Q"
  by (cases r) auto

lemma mute_bind: "mute p m \<Longrightarrow> (\<And>x. mute p (f x)) \<Longrightarrow> mute p (io_bind m f)"
  by (rule emits_after_mute) auto

lemma mute_wrap [simp, intro]: "mute p m \<Longrightarrow> mute p (io_wrap s m)"
  by (simp add: emits_def)

lemma mute_steps [simp, intro]:
  "mute p (on_world m)" "mute p (io_try (on_world m))" "mute p (io_return x)" "mute p (io_fail e)"
  "mute p (awaitResponse W cfg t)" "mute p (sleep W d)" "mute p (recordOutcome matched k)"
  by (simp_all add: emits_def awaitResponse_def sleep_def Let_def split_beta)

lemma mute_tolerant [simp, intro]: "mute p (SetState_tolerant X i st msg)"
  unfolding SetState_tolerant_def by (intro mute_bind emits_case emits_if mute_steps)

text \<open>Which steps open an offer: only the publishing of a pending one.\<close>

lemma opened_steps [simp, intro]:
  "mute opened (publishTrip X t c st i)" "st \<noteq> OfferPending \<Longrightarrow> mute opened (publishOffer X t i rno c st)"
  "emits opened (publishOffer X t i rno c OfferPending) (\<lambda>r os. os = [(i, rno)])"
  by (simp_all add: emits_def publishTrip_def publishOffer_def List.map_filter_def)

lemma opened_parts [simp, intro]:
  "mute opened (give_up X t c k)" "mute opened (accept_round X t c i rno)" "mute opened (close_round X t c i rno resp)"
  unfolding give_up_def accept_round_def close_round_def
  by (auto intro!: mute_bind emits_if emits_case simp: offer_states)

text \<open>Offers are numbered from the next round on, to a subsequence of the candidates.\<close>

definition rounds_ok :: "Config \<Rightarrow> string list \<Rightarrow> int \<Rightarrow> (string \<times> int) list \<Rightarrow> bool" where
  "rounds_ok cfg ids rounds os \<longleftrightarrow>
     (\<exists>sub. subseq sub ids \<and> os = zip sub (map (\<lambda>j. rounds + 1 + int j) [0..<length sub]) \<and>
        (sub = [] \<or> rounds + int (length sub) \<le> MaxRounds cfg))"

lemma rounds_ok_Nil [simp]: "rounds_ok cfg ids rounds []"
  by (auto simp: rounds_ok_def intro!: exI [of _ "[]"])

lemma rounds_ok_skip: "rounds_ok cfg ids rounds os \<Longrightarrow> rounds_ok cfg (i # ids) rounds os"
  by (auto simp: rounds_ok_def)

lemma rounds_ok_Cons:
  assumes "rounds_ok cfg ids (rounds + 1) os" "rounds < MaxRounds cfg"
  shows "rounds_ok cfg (i # ids) rounds ((i, rounds + 1) # os)"
proof -
  obtain sub where s: "subseq sub ids" "os = zip sub (map (\<lambda>j. rounds + 1 + 1 + int j) [0..<length sub])"
    "sub = [] \<or> rounds + 1 + int (length sub) \<le> MaxRounds cfg"
    using assms(1) by (auto simp: rounds_ok_def)
  have "map (\<lambda>j. rounds + 1 + int j) [0..<length (i # sub)] = (rounds + 1) # map (\<lambda>j. rounds + 1 + 1 + int j) [0..<length sub]"
    by (simp add: upt_conv_Cons map_Suc_upt [symmetric] del: upt_Suc)
  then show ?thesis
    unfolding rounds_ok_def using s assms(2) by (intro exI [of _ "i # sub"]) auto
qed

lemma offer_loop_rounds: "emits opened (offer_loop X W cfg t c ids rounds backoff) (\<lambda>r. rounds_ok cfg ids rounds)"
proof (induction ids arbitrary: rounds backoff)
  case Nil
  show ?case by (simp add: mute_emits)
next
  case (Cons i ids)
  show ?case
  proof (cases "rounds < MaxRounds cfg")
    case False
    then show ?thesis by (simp add: mute_emits)
  next
    case True
    note IH = Cons.IH [of "rounds + 1"]
    have "emits opened (io_bind (awaitResponse W cfg t) (\<lambda>resp.
            if resp = Accepted then accept_round X t c i (rounds + 1)
            else io_bind (close_round X t c i (rounds + 1) resp) (\<lambda>_.
              if ids \<noteq> [] \<and> rounds + 1 < MaxRounds cfg
              then io_bind (sleep W backoff) (\<lambda>_. offer_loop X W cfg t c ids (rounds + 1) (next_backoff cfg backoff))
              else offer_loop X W cfg t c ids (rounds + 1) backoff))) (\<lambda>r. rounds_ok cfg ids (rounds + 1))" (is "emits _ ?round _")
      by (intro emits_after_mute emits_if IH rounds_ok_Nil mute_steps opened_parts mute_emits [OF opened_parts(2)])
    then have "emits opened (io_bind (publishOffer X t i (rounds + 1) c OfferPending) (\<lambda>_. ?round))
        (\<lambda>r. rounds_ok cfg (i # ids) rounds)"
      by (rule emits_bind [OF opened_steps(3)]) (auto intro: rounds_ok_Cons [OF _ True] rounds_ok_Cons [OF rounds_ok_Nil True])
    note wait = this
    have skip: "emits opened (offer_loop X W cfg t c ids rounds backoff) (\<lambda>r. rounds_ok cfg (i # ids) rounds)"
      by (rule emits_mono [OF Cons.IH]) (rule rounds_ok_skip)
    have rest: "emits opened m (\<lambda>r. rounds_ok cfg (i # ids) rounds)" if "mute opened m" for m :: "('a node, bool \<times> string) io"
      using that by (rule mute_emits) simp
    show ?thesis
      unfolding offer_loop.simps
      by (intro emits_if emits_case emits_after_mute [OF mute_steps(2)] emits_after_mute [OF mute_wrap [OF mute_steps(1)]]
          wait skip rest [OF opened_parts(1)] rest [OF mute_steps(4)] rounds_ok_Nil)
  qed
qed

lemma Run_made:
  "emits opened (Run X W cfg t c cands) (\<lambda>r. rounds_ok cfg (map (DriverID \<circ> rc_Driver) cands) 0)"
  unfolding Run_def Let_def
  by (intro emits_after_mute emits_if offer_loop_rounds rounds_ok_Nil mute_wrap mute_steps opened_steps
      mute_emits [OF opened_parts(1)] mute_emits [OF mute_steps(4)])

section \<open>Outcomes\<close>

text \<open>What a successful call to the trip store leaves behind, under interference.\<close>

context redis_server
begin

lemma call_hset_ok:
  assumes "fst (call_unit X (HSET k fvs) w) = Inr ()"
  shows "\<exists>m. hash_field (db X (snd (call_unit X (HSET k fvs) w))) k = put_fields fvs m"
proof (cases rule: request_cases [of "server_call X (HSET k fvs)" w])
  case (1 e)
  then show ?thesis using assms by (simp add: call_unit_def call_def io_bind_err)
next
  case (2 w1)
  have no: "fst (server_call X (HSET k fvs) w1) \<noteq> Inl e" for e
  proof
    assume "fst (server_call X (HSET k fvs) w1) = Inl e"
    then show False using assms by (simp add: call_unit_def call_def io_bind_err 2(2))
  qed
  have "hash_entry (live (db X w1) k)"
    using exec_reply [of "HSET k fvs" w1] no
    by (auto simp: server_call_fst hash_entry_def split: option.splits rval.splits reply.splits) blast+
  then have "hash_field (redis_effect (HSET k fvs) (db X w1)) k = put_fields fvs (hash_field (db X w1) k)"
    by (rule hash_field_hset_at)
  moreover have "snd (call_unit X (HSET k fvs) w) = snd (server_call X (HSET k fvs) w1)"
    using 2(2) by (simp add: call_unit_def call_def)
  ultimately show ?thesis by auto
qed

lemma transitionTo_ok:
  assumes env: "env_keeps (\<lambda>d. P (trip_field d t))"
    and P: "\<And>m. P (put_fields ((''state'', to) # extra) m)"
    and ok: "transitionTo X t to extra w = (Inr (), w')"
  shows "P (trip_field (db X w') t)"
proof -
  obtain st w1 where st: "transition_write X t st to extra w1 = (Inr (), w')"
    using ok unfolding transitionTo_def by (auto elim!: io_bind_cases split: option.splits)
  let ?h = "call_unit X (HSET (tripKey t) ((''state'', to) # extra))"
  obtain w2 where h: "?h w1 = (Inr (), w2)"
    and rest: "(if to = TripOffered then call_unit X (SADD offeredTripsKey t)
     else if to = TripMatched \<or> to = TripUnfulfilled then call_unit X (SREM offeredTripsKey [t])
     else io_return ()) w2 = (Inr (), w')"
    using st unfolding transition_write_def by (auto elim!: io_bind_cases)
  obtain m where "hash_field (db X w2) (tripKey t) = put_fields ((''state'', to) # extra) m"
    using call_hset_ok [of "tripKey t" "(''state'', to) # extra" w1] h by auto
  then have w2: "P (trip_field (db X w2) t)" using P [of m] by (simp add: trip_field_def)
  have keep: "P (trip_field (redis_effect c d) t)" if "P (trip_field d t)" "cmd_key c = offeredTripsKey" for c d
    using that by (simp add: trip_field_def hash_field_frame)
  have k: "P (trip_field (db X (snd (call_unit X c w2))) t)" if "cmd_key c = offeredTripsKey" for c
    using call_typed_inv(4) [OF env keep w2] that by blast
  from rest show ?thesis using k [of "SADD offeredTripsKey t"] k [of "SREM offeredTripsKey [t]"] w2
    by (auto split: if_splits)
qed

end

text \<open>A postcondition of every successful run.\<close>

definition ends :: "('n, 'a) io \<Rightarrow> ('a \<Rightarrow> 'n \<Rightarrow> bool) \<Rightarrow> bool" where
  "ends m Q \<longleftrightarrow> (\<forall>n r n'. m n = (Inr r, n') \<longrightarrow> Q r n')"

lemma ends_bind: "(\<And>x. ends (f x) Q) \<Longrightarrow> ends (io_bind m f) Q"
  unfolding ends_def by (metis io_bind_cases Inl_Inr_False)

lemma ends_fail [simp, intro]: "ends (io_fail e) Q"
  by (simp add: ends_def)

lemma ends_wrap: "ends m Q \<Longrightarrow> ends (io_wrap s m) Q"
  unfolding ends_def by (auto simp: io_wrap_def split: prod.splits sum.splits)

lemma ends_if: "(P \<Longrightarrow> ends a Q) \<Longrightarrow> (\<not> P \<Longrightarrow> ends b Q) \<Longrightarrow> ends (if P then a else b) Q"
  by simp

lemma ends_case:
  "(\<And>e. ends (f e) Q) \<Longrightarrow> (\<And>x. ends (g x) Q) \<Longrightarrow> ends (case r of Inl e \<Rightarrow> f e | Inr x \<Rightarrow> g x) Q"
  by (cases r) simp_all

lemma ends_mono: "ends m Q \<Longrightarrow> (\<And>r n. Q r n \<Longrightarrow> Q' r n) \<Longrightarrow> ends m Q'"
  unfolding ends_def by blast

definition trip_matched_with :: "string \<Rightarrow> string \<Rightarrow> rdb \<Rightarrow> bool" where
  "trip_matched_with t i d \<longleftrightarrow>
     trip_field d t ''state'' = Some TripMatched \<and> trip_field d t ''matched_driver_id'' = Some i"

definition trip_unfulfilled :: "string \<Rightarrow> rdb \<Rightarrow> bool" where
  "trip_unfulfilled t d \<longleftrightarrow> trip_field d t ''state'' = Some TripUnfulfilled"

definition last_trip_event :: "'w node \<Rightarrow> TripLifecycleEvent option" where
  "last_trip_event n = (if published n = [] then None
     else case last (published n) of TripLifecycle e \<Rightarrow> Some e | _ \<Rightarrow> None)"

definition outcome :: "'w ext \<Rightarrow> string \<Rightarrow> string list \<Rightarrow> bool \<times> string \<Rightarrow> 'w node \<Rightarrow> bool" where
  "outcome X t ids r n \<longleftrightarrow>
     (case r of (matched, i) \<Rightarrow>
        if matched then i \<in> set ids \<and> trip_matched_with t i (db X (world n)) \<and>
          (\<exists>e. last_trip_event n = Some e \<and> tl_TripID e = t \<and> tl_State e = TripMatched \<and> tl_DriverID e = i)
        else i = '''' \<and> trip_unfulfilled t (db X (world n)) \<and>
          (\<exists>e. last_trip_event n = Some e \<and> tl_TripID e = t \<and> tl_State e = TripUnfulfilled \<and> tl_DriverID e = ''''))"

context redis_server
begin

lemma give_up_ends:
  assumes "env_keeps (trip_unfulfilled t)"
  shows "ends (give_up X t c k) (outcome X t ids)"
  unfolding ends_def
proof (intro allI impI)
  fix n r n'
  assume g: "give_up X t c k n = (Inr r, n')"
  obtain n1 where m: "on_world (MarkUnfulfilled X t) n = (Inr (), n1)"
    and p: "io_bind (publishTrip X t c TripUnfulfilled '''') (\<lambda>_. io_bind (recordOutcome False k) (\<lambda>_. io_return (False, ''''))) n1 = (Inr r, n')"
    using g unfolding give_up_def by (auto elim!: io_bind_cases)
  have "transitionTo X t TripUnfulfilled [] (world n) = (Inr (), world n1)"
    using m by (auto simp: on_world_def MarkUnfulfilled_def split: prod.splits)
  from transitionTo_ok [where P = "\<lambda>f. f ''state'' = Some TripUnfulfilled", OF _ _ this] assms
  have "trip_unfulfilled t (db X (world n1))" by (simp add: trip_unfulfilled_def [abs_def])
  then show "outcome X t ids r n'"
    using p by (auto simp: io_bind_def publishTrip_def publish_def recordOutcome_def outcome_def last_trip_event_def)
qed

lemma accept_round_ends:
  assumes "env_keeps (trip_matched_with t i)" and "i \<in> set ids"
  shows "ends (accept_round X t c i rno) (outcome X t ids)"
proof -
  have "ends (io_bind (io_wrap ''mark trip matched'' (on_world (MarkMatched X t i))) (\<lambda>_.
     io_bind (publishTrip X t c TripMatched i) (\<lambda>_. io_bind (recordOutcome True rno) (\<lambda>_. io_return (True, i))))) (outcome X t ids)"
    unfolding ends_def
  proof (intro allI impI)
    fix n r n'
    assume g: "io_bind (io_wrap ''mark trip matched'' (on_world (MarkMatched X t i))) (\<lambda>_.
     io_bind (publishTrip X t c TripMatched i) (\<lambda>_. io_bind (recordOutcome True rno) (\<lambda>_. io_return (True, i)))) n = (Inr r, n')"
    obtain n1 where m: "io_wrap ''mark trip matched'' (on_world (MarkMatched X t i)) n = (Inr (), n1)"
      and p: "io_bind (publishTrip X t c TripMatched i) (\<lambda>_. io_bind (recordOutcome True rno) (\<lambda>_. io_return (True, i))) n1 = (Inr r, n')"
      using g by (auto elim!: io_bind_cases)
    have "transitionTo X t TripMatched [(''matched_driver_id'', i)] (world n) = (Inr (), world n1)"
      using m by (auto simp: io_wrap_def on_world_def MarkMatched_def split: prod.splits sum.splits)
    from transitionTo_ok [where P = "\<lambda>f. f ''state'' = Some TripMatched \<and> f ''matched_driver_id'' = Some i", OF _ _ this] assms(1)
    have "trip_matched_with t i (db X (world n1))" by (simp add: trip_matched_with_def [abs_def])
    then show "outcome X t ids r n'"
      using p assms(2) by (auto simp: io_bind_def publishTrip_def publish_def recordOutcome_def outcome_def last_trip_event_def)
  qed
  then show ?thesis unfolding accept_round_def by (rule ends_bind [OF ends_bind [OF ends_bind]])
qed

lemma offer_loop_ends:
  assumes "env_keeps (trip_unfulfilled t)" "\<And>i. i \<in> set ids \<Longrightarrow> env_keeps (trip_matched_with t i)"
  shows "ends (offer_loop X W cfg t c ids rounds backoff) (outcome X t ids)"
  using assms(2)
proof (induction ids arbitrary: rounds backoff)
  case Nil
  show ?case using give_up_ends [OF assms(1)] by simp
next
  case (Cons i ids)
  have "outcome X t ids r n \<Longrightarrow> outcome X t (i # ids) r n" for r n
    by (auto simp: outcome_def)
  then have IH: "ends (offer_loop X W cfg t c ids rounds backoff) (outcome X t (i # ids))" for rounds backoff
    using Cons.IH Cons.prems ends_mono by (metis list.set_intros(2))
  have g: "ends (give_up X t c k) (outcome X t (i # ids))" for k by (rule give_up_ends [OF assms(1)])
  have a: "ends (accept_round X t c i rno) (outcome X t (i # ids))" for rno
    using accept_round_ends Cons.prems by simp
  show ?case
    unfolding offer_loop.simps by (intro ends_if ends_bind ends_case ends_fail g a IH)
qed

lemma Run_ends:
  assumes "env_keeps (trip_unfulfilled t)" "\<And>i. env_keeps (trip_matched_with t i)"
  shows "ends (Run X W cfg t c cands) (outcome X t (map (DriverID \<circ> rc_Driver) cands))"
proof -
  note g = give_up_ends [OF assms(1)] and l = offer_loop_ends [OF assms(1,2)]
  show ?thesis unfolding Run_def Let_def by (intro ends_if ends_bind ends_fail g l)
qed

end

section \<open>What a wait hears\<close>

lemma Respond_other: "t' \<noteq> t \<Longrightarrow> snd (Respond t' r h) t = h t"
  by (simp add: Respond_def split: option.splits)

lemma Respond_same: "snd (Respond t r h) t = (case h t of Some None \<Rightarrow> Some (Some r) | x \<Rightarrow> x)"
  by (simp add: Respond_def split: option.splits)

lemma deliver_full: "h t = Some (Some r) \<Longrightarrow> deliver as h t = Some (Some r)"
proof (induction "as" arbitrary: h)
  case (Cons a as)
  have "snd (Respond (fst a) (snd a) h) t = Some (Some r)"
    using Cons.prems by (cases "fst a = t") (simp_all add: Respond_same Respond_other)
  then show ?case using Cons.IH by (simp add: deliver_def split_beta)
qed (simp add: deliver_def)

lemma deliver_first:
  "h t = Some None \<Longrightarrow> deliver as h t = Some (map_option snd (find (\<lambda>a. fst a = t) as))"
proof (induction "as" arbitrary: h)
  case (Cons a as)
  let ?h = "snd (Respond (fst a) (snd a) h)"
  have d: "deliver (a # as) h = deliver as ?h" by (simp add: deliver_def split_beta)
  show ?case
  proof (cases "fst a = t")
    case True
    then have "?h t = Some (Some (snd a))" using Cons.prems by (simp add: Respond_same)
    then show ?thesis using True d by (simp add: deliver_full)
  next
    case False
    then have "?h t = Some None" using Cons.prems by (simp add: Respond_other)
    then show ?thesis using False d Cons.IH by simp
  qed
qed (simp add: deliver_def)

text \<open>The first of the answers that arrive for the trip.\<close>

definition heard_answer :: "string \<Rightarrow> (string \<times> Response) list \<Rightarrow> Response" where
  "heard_answer t as = (case find (\<lambda>a. fst a = t) as of Some a \<Rightarrow> snd a | None \<Rightarrow> NoResponse)"

lemma awaitResponse_heard:
  "fst (awaitResponse W cfg t n) = Inr (heard_answer t (fst (arrivals W t (OfferWindow cfg) (world n))))"
proof -
  let ?as = "fst (arrivals W t (OfferWindow cfg) (world n))"
  have "deliver ?as (hub_open t (hub n)) t = Some (map_option snd (find (\<lambda>a. fst a = t) ?as))"
    by (rule deliver_first) (simp add: hub_open_def)
  then show ?thesis by (simp add: awaitResponse_def heard_answer_def Let_def split_beta split: option.splits)
qed

section \<open>Dispatch in a calm world\<close>

text \<open>Nobody else acts on the keyspace, nothing expires and no context is cancelled.\<close>

definition calm :: "'w ext \<Rightarrow> 'w waits \<Rightarrow> bool" where
  "calm X W \<longleftrightarrow> (\<forall>d w. fst (pause W d w) \<and> db X (snd (pause W d w)) = db X w) \<and>
     (\<forall>t d w. db X (snd (arrivals W t d w)) = db X w)"

definition dispatch_typed :: "rdb \<Rightarrow> bool" where
  "dispatch_typed d \<longleftrightarrow> drv_typed d \<and> trip_typed d \<and> offer_typed d"

definition driver_state_of :: "rdb \<Rightarrow> string \<Rightarrow> driver_state option" where
  "driver_state_of d i = hash_field d (driverKey i) ''state''"

lemma set_driver_state_facts:
  assumes "dispatch_typed d"
  shows "dispatch_typed (set_driver_state i to now d)"
    and "driver_state_of (set_driver_state i to now d) j = (if j = i then Some to else driver_state_of d j)"
    and "trip_field (set_driver_state i to now d) t = trip_field d t"
    and "offer_field (set_driver_state i to now d) t = offer_field d t"
  using assms
  by (simp_all add: dispatch_typed_def set_driver_state_def trip_typed_frame offer_typed_frame driver_state_of_def
      hash_field_hset state_fields_def trip_field_def offer_field_def hash_field_frame)

lemma open_offer_frame:
  assumes "dispatch_typed d" "0 < ttl"
  shows "dispatch_typed (open_offer t i rno created ttl ttl' d)"
    and "driver_state_of (open_offer t i rno created ttl ttl' d) j = driver_state_of d j"
    and "trip_field (open_offer t i rno created ttl ttl' d) t' = trip_field d t'"
  using assms
  by (simp_all add: dispatch_typed_def open_offer_def trip_typed_frame drv_typed_frame driver_state_of_def
      trip_field_def hash_field_frame)

lemma close_offer_frame:
  assumes "dispatch_typed d"
  shows "dispatch_typed (close_offer t i to d)"
    and "driver_state_of (close_offer t i to d) j = driver_state_of d j"
    and "trip_field (close_offer t i to d) t' = trip_field d t'"
  using assms
  by (simp_all add: dispatch_typed_def close_offer_def trip_typed_frame drv_typed_frame driver_state_of_def
      trip_field_def hash_field_frame)

lemma move_trip_frame:
  assumes "dispatch_typed d"
  shows "dispatch_typed (move_trip t to extra d)"
    and "driver_state_of (move_trip t to extra d) j = driver_state_of d j"
    and "offer_field (move_trip t to extra d) t' = offer_field d t'"
proof -
  show "dispatch_typed (move_trip t to extra d)"
    using assms move_trip_facts(1) [of d t "to" extra]
    by (simp add: dispatch_typed_def)
      (simp add: move_trip_def index_trip_def put_trip_def drv_typed_frame offer_typed_frame)
  show "driver_state_of (move_trip t to extra d) j = driver_state_of d j"
    "offer_field (move_trip t to extra d) t' = offer_field d t'"
    by (simp_all add: driver_state_of_def offer_field_def move_trip_def index_trip_def put_trip_def hash_field_frame)
qed

lemma open_offer_at:
  assumes "offer_typed d" "0 < ttl" "in_i64 rno" "in_i64 created"
  shows "offer_at (open_offer t i rno (itoa created) ttl ttl' d) t = Inr \<lparr>or_TripID = t, or_DriverID = i,
    or_Round = rno, or_State = OfferPending, or_CreatedAt = from_unix created\<rparr>"
  using assms open_offer_facts(2) [OF assms(1,2), of t i rno "itoa created" ttl' t]
  by (simp add: offer_at_def offer_fields_def parseOfferRecord_def field_def)

text \<open>One step of the node, in terms of the keyspace.\<close>

lemma on_world_ok: "fst (m (world n)) = Inr x \<Longrightarrow> on_world m n = (Inr x, n\<lparr>world := snd (m (world n))\<rparr>)"
  by (simp add: prod_eq_iff on_world_def split_beta)

text \<open>
  Where a dispatch of \<open>t\<close> stands: the state of its trip, which can be read, and of every driver, and whether an offer
  to driver \<open>i\<close> is pending.
\<close>

definition stands :: "'w ext \<Rightarrow> string \<Rightarrow> trip_state \<Rightarrow> (string \<rightharpoonup> driver_state) \<Rightarrow> 'w node \<Rightarrow> bool" where
  "stands X t st \<sigma> n \<longleftrightarrow> dispatch_typed (db X (world n)) \<and> trip_state_of (db X (world n)) t = Some st \<and>
     driver_state_of (db X (world n)) = \<sigma> \<and> (\<exists>rec. trip_at X (db X (world n)) t = Inr rec)"

definition offer_open :: "'w ext \<Rightarrow> string \<Rightarrow> string \<Rightarrow> 'w node \<Rightarrow> bool" where
  "offer_open X t i n \<longleftrightarrow>
     (\<exists>rec. offer_at (db X (world n)) t = Inr rec \<and> or_DriverID rec = i \<and> or_State rec = OfferPending)"

text \<open>Steps that leave the keyspace as it is.\<close>

definition of_keyspace :: "'w ext \<Rightarrow> ('w node \<Rightarrow> bool) \<Rightarrow> bool" where
  "of_keyspace X P \<longleftrightarrow> (\<forall>n n'. db X (world n) = db X (world n') \<longrightarrow> P n \<longrightarrow> P n')"

lemma of_keyspace [simp, intro]:
  "of_keyspace X (stands X t st \<sigma>)" "of_keyspace X (\<lambda>n. stands X t st \<sigma> n \<and> offer_open X t i n)"
  by (simp_all add: of_keyspace_def stands_def offer_open_def)

lemma goes_still:
  assumes "of_keyspace X P"
  shows "goes P (publishTrip Y t c st i) () P" "goes P (publishOffer Y t i rno c ost) () P"
    "goes P (recordOutcome matched k) () P" "calm X W \<Longrightarrow> goes P (sleep W d) () P"
  using assms by (auto intro!: postI simp: of_keyspace_def sleep_def calm_def split_beta)

text \<open>Which answers a dispatch of \<open>t\<close> can hear, depending on the driver its offer is open for.\<close>

definition answering :: "'w ext \<Rightarrow> 'w waits \<Rightarrow> string \<Rightarrow> (string \<Rightarrow> Response \<Rightarrow> bool) \<Rightarrow> bool" where
  "answering X W t A \<longleftrightarrow> (\<forall>win w rec. offer_at (db X w) t = Inr rec \<longrightarrow> or_State rec = OfferPending \<longrightarrow>
     A (or_DriverID rec) (heard_answer t (fst (arrivals W t win w))))"

lemma any_answer [simp]: "answering X W t (\<lambda>_ _. True)"
  by (simp add: answering_def)

lemma calm_await:
  assumes "calm X W" "answering X W t A"
    and "\<And>resp. A i resp \<Longrightarrow> post (\<lambda>n. stands X t st \<sigma> n \<and> offer_open X t i n) (f resp) Q"
  shows "post (\<lambda>n. stands X t st \<sigma> n \<and> offer_open X t i n) (io_bind (awaitResponse W cfg t) f) Q"
proof (rule postI)
  fix n assume P: "stands X t st \<sigma> n \<and> offer_open X t i n"
  let ?r = "heard_answer t (fst (arrivals W t (OfferWindow cfg) (world n)))" and ?n = "snd (awaitResponse W cfg t n)"
  have "A i ?r" using P assms(2) unfolding offer_open_def answering_def by blast
  moreover have "db X (world ?n) = db X (world n)" using assms(1) by (simp add: awaitResponse_def calm_def Let_def split_beta)
  then have "stands X t st \<sigma> ?n \<and> offer_open X t i ?n" using P by (simp add: stands_def offer_open_def)
  ultimately have "Q (fst (f ?r ?n)) (snd (f ?r ?n))" by (rule postD [OF assms(3)])
  then show "Q (fst (io_bind (awaitResponse W cfg t) f n)) (snd (io_bind (awaitResponse W cfg t) f n))"
    by (simp add: io_bind_ok [OF awaitResponse_heard])
qed

lemma move_trip_state:
  "dispatch_typed d \<Longrightarrow> ''state'' \<notin> fst ` set extra \<Longrightarrow> trip_state_of (move_trip t to extra d) t = Some to"
  by (simp add: trip_state_of_def move_trip_facts dispatch_typed_def put_fields_other)

lemma move_trip_readable:
  assumes "dispatch_typed d" "trip_at X d t = Inr rec" "set extra \<subseteq> {''matched_driver_id''} \<times> UNIV"
  shows "\<exists>rec. trip_at X (move_trip t to extra d) t = Inr rec"
proof -
  have f: "f \<notin> fst ` set extra" if "f \<noteq> ''matched_driver_id''" for f using assms(3) that by auto
  have "trip_typed d" using assms(1) by (simp add: dispatch_typed_def)
  note m = move_trip_facts(2) [OF this, of t "to" extra t]
  have "put_fields extra ((trip_field d t)(''state'' \<mapsto> to)) ''state'' = Some to" by (simp add: put_fields_other [OF f])
  then have "put_fields extra ((trip_field d t)(''state'' \<mapsto> to)) \<noteq> Map.empty" by (metis option.distinct(1))
  then show ?thesis
    using assms(2) by (auto simp: trip_at_def m parseTripRecord_def field_def put_fields_other [OF f] split: if_splits sum.splits)
qed

lemma trip_at_state: "trip_at X d t = Inr trip \<Longrightarrow> trip_state_of d t = None \<and> tr_State trip = '''' \<or> trip_state_of d t = Some (tr_State trip)"
  by (auto simp: trip_at_def parseTripRecord_def field_def trip_state_of_def split: if_splits sum.splits option.splits)

context quiet_store
begin

text \<open>The driver store: claiming, releasing, refusing.\<close>

lemma set_goes:
  assumes "\<sigma> i = Some s" "driver_edge s to"
  shows "goes (stands X t st \<sigma>) (on_world (SetState X i to)) () (stands X t st (\<sigma>(i \<mapsto> to)))"
proof (rule postI)
  fix n assume s: "stands X t st \<sigma> n"
  have ty: "dispatch_typed (db X (world n))" "drv_typed (db X (world n))" using s by (simp_all add: stands_def dispatch_typed_def)
  have old: "hash_field (db X (world n)) (driverKey i) ''state'' = Some s"
    using s assms(1) by (simp add: stands_def driver_state_of_def fun_eq_iff)
  obtain now where "db X (snd (SetState X i to (world n))) = set_driver_state i to now (db X (world n))"
    using SetState_quiet(2) [OF ty(2), of i "to"] old assms(2) by auto
  then show "fst (on_world (SetState X i to) n) = Inr () \<and> stands X t st (\<sigma>(i \<mapsto> to)) (snd (on_world (SetState X i to) n))"
    using SetState_quiet(1) [OF ty(2), of i "to"] old assms(2) s set_driver_state_facts [OF ty(1), of i "to" now]
    by (auto simp: stands_def trip_state_of_def trip_at_def)
qed

lemma set_refused:
  assumes "case \<sigma> i of None \<Rightarrow> e = ErrDriverNotFound | Some s \<Rightarrow> \<not> driver_edge s to \<and> e = ErrIllegalDriverTransition s to"
  shows "post (stands X t st \<sigma>) (on_world (SetState X i to)) (\<lambda>r n. r = Inl e \<and> stands X t st \<sigma> n)"
proof (rule postI)
  fix n assume s: "stands X t st \<sigma> n"
  then have "drv_typed (db X (world n))" "hash_field (db X (world n)) (driverKey i) ''state'' = \<sigma> i"
    by (auto simp: stands_def dispatch_typed_def driver_state_of_def fun_eq_iff)
  from SetState_quiet [OF this(1), of i "to"] this(2) s assms
  show "fst (on_world (SetState X i to) n) = Inl e \<and> stands X t st \<sigma> (snd (on_world (SetState X i to) n))"
    by (auto simp: stands_def split: option.splits)
qed

lemma tolerant_goes:
  assumes "\<sigma> i = Some s" "driver_edge s to"
  shows "goes (stands X t st \<sigma>) (SetState_tolerant X i to msg) () (stands X t st (\<sigma>(i \<mapsto> to)))"
  unfolding SetState_tolerant_def
  by (rule goes_bind [OF goes_try [OF set_goes [where \<sigma> = \<sigma>, OF assms]]]) (simp add: goes_return)

text \<open>The offer store: opening a round, closing it.\<close>

lemma open_goes:
  assumes "0 < ttl" "in_i64 rno"
  shows "goes (stands X t st \<sigma>) (on_world (CreateOffer X t i rno ttl)) () (\<lambda>n. stands X t st \<sigma> n \<and> offer_open X t i n)"
proof (rule postI)
  fix n assume s: "stands X t st \<sigma> n"
  have ty: "dispatch_typed (db X (world n))" "offer_typed (db X (world n))" using s by (simp_all add: stands_def dispatch_typed_def)
  show "fst (on_world (CreateOffer X t i rno ttl) n) = Inr () \<and>
      stands X t st \<sigma> (snd (on_world (CreateOffer X t i rno ttl) n)) \<and> offer_open X t i (snd (on_world (CreateOffer X t i rno ttl) n))"
    using CreateOffer_quiet [OF ty(2), of t i rno ttl] open_offer_frame [OF ty(1) ttl_pos [OF assms(1)], of t i rno]
      open_offer_at [OF ty(2) ttl_pos [OF assms(1)] assms(2) clock_range, of t i] s
    by (auto simp: stands_def offer_open_def trip_state_of_def trip_at_def)
qed

lemma resolve_goes:
  assumes "to \<in> {OfferAccepted, OfferDeclined, OfferTimedOut}"
  shows "goes (\<lambda>n. stands X t st \<sigma> n \<and> offer_open X t i n) (on_world (SetOfferState X t i to)) () (stands X t st \<sigma>)"
proof (rule postI)
  fix n assume n: "stands X t st \<sigma> n \<and> offer_open X t i n"
  have ty: "dispatch_typed (db X (world n))" "offer_typed (db X (world n))" using n by (simp_all add: stands_def dispatch_typed_def)
  have "offer_edge OfferPending to" using assms by (auto simp: offer_edge_iff)
  then show "fst (on_world (SetOfferState X t i to) n) = Inr () \<and> stands X t st \<sigma> (snd (on_world (SetOfferState X t i to) n))"
    using SetOfferState_quiet [OF ty(2), of t i "to"] close_offer_frame [OF ty(1), of t i "to"] n
    by (auto simp: stands_def offer_open_def trip_state_of_def trip_at_def)
qed

text \<open>The trip store.\<close>

lemma move_goes:
  assumes "trip_edge st to" "set extra \<subseteq> {''matched_driver_id''} \<times> UNIV"
  shows "goes (stands X t st \<sigma>) (on_world (transitionTo X t to extra)) () (stands X t to \<sigma>)"
proof (rule postI)
  fix n assume s: "stands X t st \<sigma> n"
  have ty: "dispatch_typed (db X (world n))" "trip_typed (db X (world n))" using s by (simp_all add: stands_def dispatch_typed_def)
  have st: "''state'' \<notin> fst ` set extra" using assms(2) by auto
  show "fst (on_world (transitionTo X t to extra) n) = Inr () \<and> stands X t to \<sigma> (snd (on_world (transitionTo X t to extra) n))"
    using transitionTo_quiet [OF ty(2), of t "to" extra] move_trip_frame [OF ty(1), of t "to" extra]
      move_trip_state [OF ty(1) st, of t "to"] move_trip_readable [OF ty(1) _ assms(2), where t = t] s assms(1)
    by (auto simp: stands_def)
qed

lemmas trip_goes = move_goes [where ?to = TripOffered and extra = "[]", folded SetTripState_def]
  move_goes [where ?to = TripUnfulfilled and extra = "[]", folded MarkUnfulfilled_def]
  move_goes [where ?to = TripMatched and extra = "[(''matched_driver_id'', i)]" for i, folded MarkMatched_def]

lemmas still = goes_still(1,2) [where X = X and Y = X] goes_still(3,4) [where X = X]

end

text \<open>The parts of a dispatch. The winner, if any, is on the way; nobody else's state changes.\<close>

fun won :: "bool \<times> string \<Rightarrow> (string \<rightharpoonup> driver_state) \<Rightarrow> (string \<rightharpoonup> driver_state)" where
  "won (matched, i) \<sigma> = (if matched then \<sigma>(i \<mapsto> DriverEnRoute) else \<sigma>)"

text \<open>
  The results a dispatch can have with \<open>k\<close> rounds left, when \<open>A\<close> says which answers the drivers
  can give: the candidates that are available are asked in turn until one accepts.
\<close>

fun results :: "(string \<Rightarrow> Response \<Rightarrow> bool) \<Rightarrow> (string \<rightharpoonup> driver_state) \<Rightarrow> int \<Rightarrow> string list \<Rightarrow> (bool \<times> string) set" where
  "results A \<sigma> k [] = {(False, '''')}"
| "results A \<sigma> k (i # ids) =
     (if \<not> 0 < k then {(False, '''')}
      else if \<sigma> i \<noteq> Some DriverAvailable then results A \<sigma> k ids
      else (if A i Accepted then {(True, i)} else {}) \<union>
        (if \<exists>r. r \<noteq> Accepted \<and> A i r then results A \<sigma> (k - 1) ids else {}))"

text \<open>When every driver has one answer, that is the first to accept among those asked.\<close>

lemma results_first:
  "results (\<lambda>i r. r = ans i) \<sigma> k ids =
     {case find (\<lambda>i. ans i = Accepted) (take (nat k) (filter (\<lambda>i. \<sigma> i = Some DriverAvailable) ids)) of
        Some i \<Rightarrow> (True, i) | None \<Rightarrow> (False, '''')}"
proof (induction ids arbitrary: k)
  case (Cons i ids)
  show ?case
  proof (cases "0 < k")
    case True
    then have "nat k = Suc (nat (k - 1))" by simp
    then show ?thesis using True Cons by (cases "\<sigma> i = Some DriverAvailable") auto
  qed simp
qed simp

definition settled :: "'w ext \<Rightarrow> string \<Rightarrow> (string \<rightharpoonup> driver_state) \<Rightarrow> (bool \<times> string) set \<Rightarrow> (bool \<times> string) result \<Rightarrow> 'w node \<Rightarrow> bool" where
  "settled X t \<sigma> S r n \<longleftrightarrow> (\<exists>x \<in> S. r = Inr x \<and> stands X t (if fst x then TripMatched else TripUnfulfilled) (won x \<sigma>) n)"

lemma settledI:
  "goes P m (True, i) (stands X t TripMatched (\<sigma>(i \<mapsto> DriverEnRoute))) \<Longrightarrow> (True, i) \<in> S \<Longrightarrow> post P m (settled X t \<sigma> S)"
  "goes P m (False, i) (stands X t TripUnfulfilled \<sigma>) \<Longrightarrow> (False, i) \<in> S \<Longrightarrow> post P m (settled X t \<sigma> S)"
  unfolding settled_def by (auto elim!: post_mono)

lemma settled_mono: "post P m (settled X t \<sigma> S) \<Longrightarrow> S \<subseteq> S' \<Longrightarrow> post P m (settled X t \<sigma> S')"
  unfolding settled_def by (erule post_mono) blast

context quiet_store
begin

lemma give_up_calm:
  assumes "st = TripRequested \<or> st = TripOffered" "(False, '''') \<in> S"
  shows "post (stands X t st \<sigma>) (give_up X t c k) (settled X t \<sigma> S)"
proof -
  have "trip_edge st TripUnfulfilled" using assms(1) by (auto simp: trip_edge_iff)
  then show ?thesis
    unfolding give_up_def
    by (intro goes_bind [OF trip_goes(2)] goes_bind [OF still(1)] goes_bind [OF still(3)]
        settledI(2) [where i = "''''", OF _ assms(2)] goes_return) simp_all
qed

lemma accept_calm:
  assumes "\<sigma> i = Some DriverOffered"
  shows "goes (\<lambda>n. stands X t TripOffered \<sigma> n \<and> offer_open X t i n) (accept_round X t c i rno) (True, i)
    (stands X t TripMatched (\<sigma>(i \<mapsto> DriverEnRoute)))"
proof -
  have e: "driver_edge DriverOffered DriverEnRoute" "trip_edge TripOffered TripMatched"
    by (simp_all add: driver_edge_iff trip_edge_iff)
  show ?thesis
    unfolding accept_round_def
    by (intro goes_bind [OF goes_wrap [OF resolve_goes]] goes_bind [OF still(2)]
        goes_bind [OF tolerant_goes [where \<sigma> = \<sigma>, OF assms e(1)]] goes_bind [OF goes_wrap [OF trip_goes(3) [OF e(2)]]]
        goes_bind [OF still(1)] goes_bind [OF still(3)] goes_return) simp_all
qed

lemma close_calm:
  assumes "\<sigma> i = Some DriverOffered"
  shows "goes (\<lambda>n. stands X t TripOffered \<sigma> n \<and> offer_open X t i n) (close_round X t c i rno resp) ()
    (stands X t TripOffered (\<sigma>(i \<mapsto> DriverAvailable)))"
proof -
  have e: "driver_edge DriverOffered DriverAvailable" by (simp add: driver_edge_iff)
  note release = tolerant_goes [where \<sigma> = \<sigma>, OF assms e]
  show ?thesis
  proof (cases "resp = Declined")
    case True
    then show ?thesis unfolding close_round_def
      by (simp, intro goes_bind [OF goes_bind [OF goes_wrap [OF resolve_goes] still(2)] release]) simp_all
  next
    case False
    have "goes (\<lambda>n. stands X t TripOffered \<sigma> n \<and> offer_open X t i n)
        (io_bind (io_try (on_world (SetOfferState X t i OfferTimedOut))) (\<lambda>r.
             case r of Inl e \<Rightarrow> if e \<noteq> ErrOfferNotFound then io_fail (Errorf ''time out offer'' e)
                              else publishOffer X t i rno c OfferTimedOut
             | Inr _ \<Rightarrow> publishOffer X t i rno c OfferTimedOut)) () (stands X t TripOffered \<sigma>)"
      by (rule goes_bind [OF goes_try [OF resolve_goes]]) (simp, simp, intro still of_keyspace)
    from goes_bind [OF this release] False show ?thesis unfolding close_round_def by simp
  qed
qed

text \<open>What the loop does with the answer to a round; \<open>IH\<close> is about the rounds after it.\<close>

lemma answered_calm:
  assumes "calm X W" "\<sigma> i = Some DriverAvailable" "rounds < MaxRounds cfg" "A i resp"
    and IH: "\<And>b. post (stands X t TripOffered \<sigma>) (offer_loop X W cfg t c ids (rounds + 1) b)
      (settled X t \<sigma> (results A \<sigma> (MaxRounds cfg - rounds - 1) ids))"
  shows "post (\<lambda>n. stands X t TripOffered (\<sigma>(i \<mapsto> DriverOffered)) n \<and> offer_open X t i n)
    (if resp = Accepted then accept_round X t c i (rounds + 1)
     else io_bind (close_round X t c i (rounds + 1) resp) (\<lambda>_.
       if ids \<noteq> [] \<and> rounds + 1 < MaxRounds cfg
       then io_bind (sleep W backoff) (\<lambda>_. offer_loop X W cfg t c ids (rounds + 1) (next_backoff cfg backoff))
       else offer_loop X W cfg t c ids (rounds + 1) backoff)) (settled X t \<sigma> (results A \<sigma> (MaxRounds cfg - rounds) (i # ids)))"
proof (cases "resp = Accepted")
  case True
  have o: "(\<sigma>(i \<mapsto> DriverOffered)) i = Some DriverOffered" by simp
  show ?thesis
    unfolding if_P [OF True]
  proof (rule settledI(1))
    show "(True, i) \<in> results A \<sigma> (MaxRounds cfg - rounds) (i # ids)" using True assms(2-4) by simp
  qed (use accept_calm [where \<sigma> = "\<sigma>(i \<mapsto> DriverOffered)", OF o] in simp)
next
  case False
  let ?\<sigma> = "\<sigma>(i \<mapsto> DriverOffered)"
  have o: "?\<sigma> i = Some DriverOffered" and undo: "?\<sigma>(i \<mapsto> DriverAvailable) = \<sigma>" using assms(2) by auto
  have "results A \<sigma> (MaxRounds cfg - rounds - 1) ids \<subseteq> results A \<sigma> (MaxRounds cfg - rounds) (i # ids)"
    using False assms(2-4) by auto
  note rest = settled_mono [OF IH this]
  have "post (stands X t TripOffered \<sigma>)
      (if go then io_bind (sleep W backoff) (\<lambda>_. offer_loop X W cfg t c ids (rounds + 1) (next_backoff cfg backoff))
       else offer_loop X W cfg t c ids (rounds + 1) backoff) (settled X t \<sigma> (results A \<sigma> (MaxRounds cfg - rounds) (i # ids)))" for go
    by (cases go) (simp_all only: if_True if_False rest goes_bind [OF still(4) [OF of_keyspace(1) assms(1)] rest])
  then show ?thesis
    unfolding if_not_P [OF False] by (rule goes_bind [OF close_calm [where \<sigma> = ?\<sigma>, OF o, unfolded undo]])
qed

text \<open>A round offered to an available driver.\<close>

lemma asked_calm:
  assumes "calm X W" "answering X W t A" "0 < OfferWindow cfg + offerRecordGrace" "rounds < MaxRounds cfg"
    and av: "\<sigma> i = Some DriverAvailable" and rn: "in_i64 (rounds + 1)"
    and IH: "\<And>b. post (stands X t TripOffered \<sigma>) (offer_loop X W cfg t c ids (rounds + 1) b)
      (settled X t \<sigma> (results A \<sigma> (MaxRounds cfg - rounds - 1) ids))"
  shows "post (stands X t TripOffered \<sigma>) (offer_loop X W cfg t c (i # ids) rounds backoff)
    (settled X t \<sigma> (results A \<sigma> (MaxRounds cfg - rounds) (i # ids)))"
proof -
  have e: "driver_edge DriverAvailable DriverOffered" by (simp add: driver_edge_iff)
  let ?answered = "\<lambda>resp. if resp = Accepted then accept_round X t c i (rounds + 1)
       else io_bind (close_round X t c i (rounds + 1) resp) (\<lambda>_.
         if ids \<noteq> [] \<and> rounds + 1 < MaxRounds cfg
         then io_bind (sleep W backoff) (\<lambda>_. offer_loop X W cfg t c ids (rounds + 1) (next_backoff cfg backoff))
         else offer_loop X W cfg t c ids (rounds + 1) backoff)"
  have "post (stands X t TripOffered (\<sigma>(i \<mapsto> DriverOffered)))
      (io_bind (io_wrap ''create offer round'' (on_world (CreateOffer X t i (rounds + 1) (OfferWindow cfg + offerRecordGrace)))) (\<lambda>_.
        io_bind (publishOffer X t i (rounds + 1) c OfferPending) (\<lambda>_. io_bind (awaitResponse W cfg t) ?answered)))
      (settled X t \<sigma> (results A \<sigma> (MaxRounds cfg - rounds) (i # ids)))"
    by (intro goes_bind [OF goes_wrap [OF open_goes [OF assms(3) rn]]] goes_bind [OF still(2)] of_keyspace
        calm_await [OF assms(1,2)] answered_calm [where \<sigma> = \<sigma>, OF assms(1) av assms(4) _ IH])
  then show ?thesis
    unfolding offer_loop.simps(2) using assms(4)
    by (simp only: not_True_eq_False if_False) (rule goes_bind [OF goes_try [OF set_goes [where \<sigma> = \<sigma>, OF av e]]], simp only: sum.case)
qed

lemma offer_loop_calm:
  assumes "calm X W" and "answering X W t A" and ttl: "0 < OfferWindow cfg + offerRecordGrace" and "in_i64 (MaxRounds cfg)"
    and "\<forall>i \<in> set ids. \<sigma> i \<noteq> None" and "0 \<le> rounds"
  shows "post (stands X t TripOffered \<sigma>) (offer_loop X W cfg t c ids rounds backoff)
    (settled X t \<sigma> (results A \<sigma> (MaxRounds cfg - rounds) ids))"
  using assms(5,6)
proof (induction ids arbitrary: rounds backoff)
  case Nil
  then show ?case by (simp add: give_up_calm)
next
  case (Cons i ids)
  obtain s where s: "\<sigma> i = Some s" using Cons.prems(1) by auto
  let ?S = "results A \<sigma> (MaxRounds cfg - rounds) (i # ids)"
  consider "\<not> rounds < MaxRounds cfg" | "rounds < MaxRounds cfg" "\<not> driver_edge s DriverOffered"
    | "rounds < MaxRounds cfg" "driver_edge s DriverOffered" by blast
  then show ?case
  proof cases
    case 1
    then show ?thesis by (simp add: give_up_calm)
  next
    case 2
    have "post (stands X t TripOffered \<sigma>) (on_world (SetState X i DriverOffered))
        (\<lambda>r n. r = Inl (ErrIllegalDriverTransition s DriverOffered) \<and> stands X t TripOffered \<sigma> n)"
      by (rule set_refused) (simp add: s 2)
    moreover have "?S = results A \<sigma> (MaxRounds cfg - rounds) ids" using s 2 by (auto simp: driver_edge_iff driver_states)
    moreover have "post (stands X t TripOffered \<sigma>) (offer_loop X W cfg t c ids rounds backoff)
        (settled X t \<sigma> (results A \<sigma> (MaxRounds cfg - rounds) ids))" using Cons by simp
    ultimately show ?thesis
      unfolding offer_loop.simps(2) using 2(1)
      by (simp only: not_True_eq_False if_False) (rule goes_bind, erule goes_try, simp add: is_illegal_driver_def del: results.simps)
  next
    case 3
    have "\<sigma> i = Some DriverAvailable" using s 3(2) by (auto simp: driver_edge_iff driver_states)
    moreover have "in_i64 (rounds + 1)" using Cons.prems(2) 3(1) assms(4) by (simp add: in_i64_def)
    moreover have "post (stands X t TripOffered \<sigma>) (offer_loop X W cfg t c ids (rounds + 1) b)
        (settled X t \<sigma> (results A \<sigma> (MaxRounds cfg - rounds - 1) ids))" for b
      using Cons.IH [of "rounds + 1" b] Cons.prems by (simp add: diff_diff_eq)
    ultimately show ?thesis by (intro asked_calm assms(1-3) 3(1))
  qed
qed

lemma get_goes:
  "goes (\<lambda>n. stands X t st \<sigma> n \<and> trip_at X (db X (world n)) t = Inr trip) (on_world (GetTrip X t)) trip (stands X t st \<sigma>)"
  by (rule postI) (auto simp: stands_def dispatch_typed_def GetTrip_quiet)

lemma Run_calm:
  assumes "calm X W" "answering X W t A" "0 < OfferWindow cfg + offerRecordGrace" "in_i64 (MaxRounds cfg)"
    and "tr_State trip = TripRequested \<or> tr_State trip = TripOffered"
    and known: "\<forall>c \<in> set cands. \<sigma> (DriverID (rc_Driver c)) \<noteq> None"
  shows "post (\<lambda>n. stands X t (tr_State trip) \<sigma> n \<and> trip_at X (db X (world n)) t = Inr trip) (Run X W cfg t c cands)
    (settled X t \<sigma> (results A \<sigma> (MaxRounds cfg) (map (DriverID \<circ> rc_Driver) cands)))"
proof -
  let ?S = "results A \<sigma> (MaxRounds cfg) (map (DriverID \<circ> rc_Driver) cands)"
  have loop: "post (stands X t TripOffered \<sigma>) (offer_loop X W cfg t c (map (DriverID \<circ> rc_Driver) cands) 0 b) (settled X t \<sigma> ?S)" for b
    using offer_loop_calm [OF assms(1-4), of "map (DriverID \<circ> rc_Driver) cands" \<sigma> 0 c b] assms(6) by simp
  have none: "cands = [] \<Longrightarrow> (False, '''') \<in> ?S" by simp
  have ne: "TripOffered \<noteq> TripRequested" by (simp add: trip_states)
  have up: "trip_edge TripRequested TripOffered" by (simp add: trip_edge_iff)
  have "post (stands X t (tr_State trip) \<sigma>)
      (if tr_State trip = TripRequested then
         (if cands = [] then give_up X t c 0
          else io_bind (io_wrap ''mark trip offered'' (on_world (SetTripState X t TripOffered))) (\<lambda>_.
               io_bind (publishTrip X t c TripOffered '''') (\<lambda>_. offer_loop X W cfg t c ids 0 (BaseBackoff cfg))))
       else if tr_State trip = TripOffered then
         (if cands = [] then give_up X t c 0 else offer_loop X W cfg t c ids 0 (BaseBackoff cfg))
       else io_fail e) (settled X t \<sigma> ?S)" if "ids = map (DriverID \<circ> rc_Driver) cands" for ids e
    using assms(5) that ne
    by (auto intro!: give_up_calm none goes_bind [OF goes_wrap [OF trip_goes(1) [OF up]]] goes_bind [OF still(1)] loop)
  then show ?thesis unfolding Run_def Let_def by (intro goes_bind [OF goes_wrap [OF get_goes]]) simp
qed

lemma Run_settles:
  assumes "calm X W" "answering X W t A" "0 < OfferWindow cfg + offerRecordGrace" "in_i64 (MaxRounds cfg)"
    and "dispatch_typed (db X (world n))" "trip_at X (db X (world n)) t = Inr trip"
    and "tr_State trip = TripRequested \<or> tr_State trip = TripOffered"
    and "\<forall>c \<in> set cands. driver_state_of (db X (world n)) (DriverID (rc_Driver c)) \<noteq> None"
  shows "settled X t (driver_state_of (db X (world n)))
    (results A (driver_state_of (db X (world n))) (MaxRounds cfg) (map (DriverID \<circ> rc_Driver) cands))
    (fst (Run X W cfg t c cands n)) (snd (Run X W cfg t c cands n))"
proof -
  have "trip_state_of (db X (world n)) t = Some (tr_State trip)" using trip_at_state [OF assms(6)] assms(7) by (auto simp: trip_states)
  then show ?thesis
    using assms(5,6) by (intro postD [OF Run_calm [OF assms(1-4,7,8)]]) (simp add: stands_def)
qed

end

section \<open>Properties of the dispatcher\<close>

text \<open>
  C28. Rounds: whatever the store answers and the drivers do, a dispatch opens at most
  \<open>MaxRounds\<close> offers, numbered from 1, to candidates in the order of their ranking and
  to each entry of the list at most once.
\<close>

theorem Run_rounds:
  "\<exists>sub. subseq sub (map (DriverID \<circ> rc_Driver) candidates) \<and> int (length sub) \<le> max 0 (MaxRounds cfg) \<and>
     offers_made (snd (Run X W cfg t c candidates n)) =
       offers_made n @ zip sub (map (\<lambda>j. 1 + int j) [0..<length sub])"
proof -
  obtain os where "offers_made (snd (Run X W cfg t c candidates n)) = offers_made n @ os"
    "rounds_ok cfg (map (DriverID \<circ> rc_Driver) candidates) 0 os"
    using Run_made unfolding emits_def offers_made_def by blast
  then show ?thesis by (auto simp: rounds_ok_def)
qed

text \<open>
  C4. Outcome: when a dispatch returns without an error, the trip is in the state it
  reports: \<open>MATCHED\<close> with the driver it returns, who was one of the candidates, or
  \<open>UNFULFILLED\<close>; the last event published says the same. This holds with requests and
  replies lost and other clients acting in between, as long as they respect outcomes.
\<close>

theorem Run_outcome:
  assumes "redis_server X env"
    and "\<forall>d d'. env d d' \<longrightarrow> trip_unfulfilled t d \<longrightarrow> trip_unfulfilled t d'"
    and "\<forall>i d d'. env d d' \<longrightarrow> trip_matched_with t i d \<longrightarrow> trip_matched_with t i d'"
    and "Run X W cfg t c candidates n = (Inr (matched, i), n')"
  shows "if matched
    then i \<in> DriverID ` rc_Driver ` set candidates \<and> trip_matched_with t i (db X (world n')) \<and>
      (\<exists>e. last_trip_event n' = Some e \<and> tl_TripID e = t \<and> tl_State e = TripMatched \<and> tl_DriverID e = i)
    else i = '''' \<and> trip_unfulfilled t (db X (world n')) \<and>
      (\<exists>e. last_trip_event n' = Some e \<and> tl_TripID e = t \<and> tl_State e = TripUnfulfilled)"
proof -
  have "redis_server.env_keeps env (trip_unfulfilled t)" "\<And>i. redis_server.env_keeps env (trip_matched_with t i)"
    using assms(2,3) by (auto simp: redis_server.env_keeps_def [OF assms(1)])
  then have "outcome X t (map (DriverID \<circ> rc_Driver) candidates) (matched, i) n'"
    using redis_server.Run_ends [OF assms(1), of t W cfg c candidates] assms(4) unfolding ends_def by blast
  then show ?thesis by (auto simp: outcome_def image_image split: if_splits)
qed

text \<open>
  C6. A dispatch comes to an end: in a calm world with known candidates it returns
  without an error, the winner, if any, is \<open>EN_ROUTE\<close>, and every other driver is in the
  state it was in before: nobody stays \<open>OFFERED\<close>.
\<close>

theorem Run_total:
  assumes "quiet_store X" and "calm X W"
    and "0 < OfferWindow cfg + offerRecordGrace \<and> in_i64 (MaxRounds cfg)"
    and "dispatch_typed (db X (world n))" and "trip_at X (db X (world n)) t = Inr trip"
    and "tr_State trip \<in> {TripRequested, TripOffered}"
    and "\<forall>k \<in> set candidates. driver_state_of (db X (world n)) (DriverID (rc_Driver k)) \<noteq> None"
  shows "\<exists>matched i n'. Run X W cfg t c candidates n = (Inr (matched, i), n') \<and>
    (\<forall>j. driver_state_of (db X (world n')) j =
       (if matched \<and> j = i then Some DriverEnRoute else driver_state_of (db X (world n)) j))"
proof -
  have "\<exists>S. settled X t (driver_state_of (db X (world n))) S (fst (Run X W cfg t c candidates n)) (snd (Run X W cfg t c candidates n))"
    using quiet_store.Run_settles [OF assms(1,2) any_answer _ _ assms(4,5) _ assms(7)] assms(3,6) by blast
  then show ?thesis by (cases "Run X W cfg t c candidates n") (auto simp: settled_def stands_def)
qed

text \<open>
  C5. The first driver to accept gets the trip: in a calm world where every driver has an
  answer, a dispatch asks the candidates that are available, in the order of their
  ranking, at most \<open>MaxRounds\<close> of them, and returns the first whose answer is to accept; the
  trip is then \<open>MATCHED\<close> and that driver \<open>EN_ROUTE\<close>. If nobody accepts, it returns no driver
  and the trip is \<open>UNFULFILLED\<close>. No other driver's state changes.
\<close>

theorem Run_first_acceptor:
  assumes "quiet_store X" and "calm X W" and "0 < OfferWindow cfg + offerRecordGrace \<and> in_i64 (MaxRounds cfg)"
    and "dispatch_typed (db X (world n))" and "trip_at X (db X (world n)) t = Inr trip"
    and "tr_State trip \<in> {TripRequested, TripOffered}"
    and "\<forall>k \<in> set candidates. driver_state_of (db X (world n)) (DriverID (rc_Driver k)) \<noteq> None"
    and "\<forall>win w rec. offer_at (db X w) t = Inr rec \<and> or_State rec = OfferPending \<longrightarrow>
      heard_answer t (fst (arrivals W t win w)) = ans (or_DriverID rec)"
  shows "let \<sigma> = driver_state_of (db X (world n));
      asked = take (nat (MaxRounds cfg)) (filter (\<lambda>i. \<sigma> i = Some DriverAvailable) (map (DriverID \<circ> rc_Driver) candidates));
      result = Run X W cfg t c candidates n; d = db X (world (snd result))
    in case find (\<lambda>i. ans i = Accepted) asked of
        Some i \<Rightarrow> fst result = Inr (True, i) \<and> trip_state_of d t = Some TripMatched \<and> driver_state_of d = \<sigma>(i \<mapsto> DriverEnRoute)
      | None \<Rightarrow> fst result = Inr (False, '''') \<and> trip_state_of d t = Some TripUnfulfilled \<and> driver_state_of d = \<sigma>"
proof -
  have "answering X W t (\<lambda>i r. r = ans i)" using assms(8) by (simp add: answering_def)
  from quiet_store.Run_settles [OF assms(1,2) this _ _ assms(4,5) _ assms(7), of cfg c] assms(3,6) show ?thesis
    unfolding results_first settled_def by (auto simp: Let_def stands_def split: option.splits)
qed

section \<open>A concrete dispatch\<close>

text \<open>Trip \<open>t1\<close> and driver \<open>d1\<close> of the store demos, on one node whose drivers accept.\<close>

definition demo_dispatch :: "trip_state \<Rightarrow> driver_state \<Rightarrow> rdb" where
  "demo_dispatch tst dst = \<lparr>rnow = 1000 * second, live = live (demo_driver ''d1'' dst) ++ live (demo_trip tst)\<rparr>"

definition demo_node :: "trip_state \<Rightarrow> driver_state \<Rightarrow> rdb node" where
  "demo_node tst dst = \<lparr>world = demo_dispatch tst dst, hub = NewResponseHub, published = [], metrics = no_metrics\<rparr>"

definition all_accept :: "'w waits" where
  "all_accept = \<lparr>arrivals = (\<lambda>t d w. ([(t, Accepted)], w)), pause = (\<lambda>d w. (True, w))\<rparr>"

definition demo_ranked :: "RankedCandidate list" where
  "demo_ranked = [\<lparr>rc_Driver = demo_record ''d1'' DriverAvailable, rc_ETA = 120 * second, rc_Score = Fin 120\<rparr>]"

lemma all_accept_calm [simp]: "calm X all_accept"
  by (simp add: calm_def all_accept_def)

lemma demo_trip_none [simp]:
  "live (demo_trip st) (driverKey i) = None" "live (demo_trip st) (cell_set_key c) = None"
  "live (demo_trip st) (offerKey t) = None" "live (demo_trip st) (driverOfferKey i) = None"
  by (simp_all add: demo_trip_def)

lemma demo_driver_none [simp]:
  "live (demo_driver i st) (tripKey t) = None" "live (demo_driver i st) (idemKey k) = None"
  "live (demo_driver i st) offeredTripsKey = None"
  "live (demo_driver i st) (offerKey t) = None" "live (demo_driver i st) (driverOfferKey j) = None"
  by (simp_all add: demo_driver_def)

lemma demo_dispatch_live:
  "live (demo_dispatch tst dst) (driverKey i) = live (demo_driver ''d1'' dst) (driverKey i)"
  "live (demo_dispatch tst dst) (cell_set_key c) = live (demo_driver ''d1'' dst) (cell_set_key c)"
  "live (demo_dispatch tst dst) (tripKey t) = live (demo_trip tst) (tripKey t)"
  "live (demo_dispatch tst dst) (idemKey k) = live (demo_trip tst) (idemKey k)"
  "live (demo_dispatch tst dst) offeredTripsKey = live (demo_trip tst) offeredTripsKey"
  "live (demo_dispatch tst dst) (offerKey t) = None" "live (demo_dispatch tst dst) (driverOfferKey i) = None"
  by (simp_all add: demo_dispatch_def map_add_def split: option.splits)

lemma demo_dispatch_typed: "dispatch_typed (demo_dispatch tst dst)"
  using demo_driver_typed [of "''d1''" dst] demo_trip_facts(1) [of tst]
  by (simp add: dispatch_typed_def drv_typed_def trip_typed_def offer_typed_def demo_dispatch_live index_inv_def)

lemma demo_dispatch_facts:
  "driver_state_of (demo_dispatch tst dst) ''d1'' = Some dst"
  "trip_field (demo_dispatch tst dst) ''t1'' = trip_field (demo_trip tst) ''t1''"
  "offer_field (demo_dispatch tst dst) t = Map.empty"
  "trip_state_of (demo_dispatch tst dst) ''t1'' = Some tst"
proof -
  show "driver_state_of (demo_dispatch tst dst) ''d1'' = Some dst"
    by (simp add: driver_state_of_def hash_field_def demo_dispatch_live) (simp add: demo_driver_def)
  show t: "trip_field (demo_dispatch tst dst) ''t1'' = trip_field (demo_trip tst) ''t1''"
    by (intro ext) (simp add: trip_field_def hash_field_def demo_dispatch_live)
  show "offer_field (demo_dispatch tst dst) t = Map.empty"
    by (intro ext) (simp add: offer_field_def hash_field_def demo_dispatch_live)
  show "trip_state_of (demo_dispatch tst dst) ''t1'' = Some tst"
    by (simp add: trip_state_of_def t demo_trip_facts)
qed

lemma demo_trip_at:
  "trip_at mem_world (demo_dispatch tst dst) ''t1'' = Inr \<lparr>TripID = ''t1'', RiderID = ''r1'', OriginLat = Fin 12,
     OriginLng = Fin 77, tr_State = tst, IdempotencyKey = ''k1'', MatchedDriverID = '''', tr_CreatedAt = 990 * second\<rparr>"
proof -
  have p: "mem_parse ''12/1'' = Inr (Fin 12)" "mem_parse ''77/1'' = Inr (Fin 77)" "parse_int64 ''990'' = Inr 990"
    by code_simp+
  have f: "trip_field (demo_trip tst) ''t1'' = [''rider_id'' \<mapsto> ''r1'', ''origin_lat'' \<mapsto> ''12/1'', ''origin_lng'' \<mapsto> ''77/1'',
      ''state'' \<mapsto> tst, ''idempotency_key'' \<mapsto> ''k1'', ''created_at'' \<mapsto> ''990'']"
    by (intro ext) (simp add: trip_field_def hash_field_def demo_trip_def)
  show ?thesis
    unfolding trip_at_def demo_dispatch_facts f
    by (simp add: parseTripRecord_def field_def mem_world_def p from_unix_def)
qed

lemma demo_run:
  assumes "tst = TripRequested \<or> tst = TripOffered"
  obtains r n' where "Run mem_world all_accept DefaultConfig ''t1'' 1012 demo_ranked (demo_node tst dst) = (Inr r, n')"
proof -
  have d: "db mem_world (world (demo_node tst dst)) = demo_dispatch tst dst" by (simp add: mem_world_def demo_node_def)
  have c: "0 < OfferWindow DefaultConfig + offerRecordGrace" "in_i64 (MaxRounds DefaultConfig)"
    by (simp_all add: DefaultConfig_def offerRecordGrace_def second_def in_i64_def)
  have k: "\<forall>k \<in> set demo_ranked. driver_state_of (demo_dispatch tst dst) (DriverID (rc_Driver k)) \<noteq> None"
    using demo_dispatch_facts(1) by (simp add: demo_ranked_def demo_record_def)
  have "\<exists>S. settled mem_world ''t1'' (driver_state_of (demo_dispatch tst dst)) S
      (fst (Run mem_world all_accept DefaultConfig ''t1'' 1012 demo_ranked (demo_node tst dst)))
      (snd (Run mem_world all_accept DefaultConfig ''t1'' 1012 demo_ranked (demo_node tst dst)))"
    using mem.Run_settles [OF all_accept_calm any_answer c, of "demo_node tst dst" "''t1''" _ demo_ranked 1012]
      demo_dispatch_typed demo_trip_at assms k unfolding d by fastforce
  then show thesis
    using that by (cases "Run mem_world all_accept DefaultConfig ''t1'' 1012 demo_ranked (demo_node tst dst)") (auto simp: settled_def)
qed

theorem Run_outcome_witness:
  "\<exists>matched i n'. Run mem_world all_accept DefaultConfig ''t1'' 1012 demo_ranked (demo_node TripRequested DriverAvailable)
      = (Inr (matched, i), n') \<and>
    (matched \<longrightarrow> i = ''d1'' \<and> trip_matched_with ''t1'' i (world n')) \<and> (\<not> matched \<longrightarrow> trip_unfulfilled ''t1'' (world n'))"
proof -
  obtain matched i n' where r: "Run mem_world all_accept DefaultConfig ''t1'' 1012 demo_ranked (demo_node TripRequested DriverAvailable)
      = (Inr (matched, i), n')"
    using demo_run [of TripRequested DriverAvailable] by auto
  have e: "redis_server mem_world (=)" by (rule quiet_redis.axioms(1) [OF mem.quiet_redis_axioms])
  have d: "db mem_world w = w" for w by (simp add: mem_world_def)
  have "DriverID ` rc_Driver ` set demo_ranked = {''d1''}" by (simp add: demo_ranked_def demo_record_def)
  then show ?thesis using Run_outcome [OF e _ _ r] r d by (auto split: if_splits)
qed

theorem Run_total_witness:
  "\<exists>matched i n'. Run mem_world all_accept DefaultConfig ''t1'' 1012 demo_ranked (demo_node TripRequested DriverAvailable)
      = (Inr (matched, i), n') \<and>
    driver_state_of (world n') ''d1'' = (if matched \<and> i = ''d1'' then Some DriverEnRoute else Some DriverAvailable)"
proof -
  let ?n = "demo_node TripRequested DriverAvailable"
  have d: "db mem_world (world ?n) = demo_dispatch TripRequested DriverAvailable" "db mem_world w = w" for w
    by (simp_all add: mem_world_def demo_node_def)
  have c: "0 < OfferWindow DefaultConfig + offerRecordGrace \<and> in_i64 (MaxRounds DefaultConfig)"
    by (simp add: DefaultConfig_def offerRecordGrace_def second_def in_i64_def)
  have k: "\<forall>k \<in> set demo_ranked. driver_state_of (db mem_world (world ?n)) (DriverID (rc_Driver k)) \<noteq> None"
    using demo_dispatch_facts(1) by (simp add: demo_ranked_def demo_record_def d(1))
  have t: "dispatch_typed (db mem_world (world ?n))"
    "trip_at mem_world (db mem_world (world ?n)) ''t1'' = Inr \<lparr>TripID = ''t1'', RiderID = ''r1'', OriginLat = Fin 12,
     OriginLng = Fin 77, tr_State = TripRequested, IdempotencyKey = ''k1'', MatchedDriverID = '''', tr_CreatedAt = 990 * second\<rparr>"
    unfolding d(1) by (rule demo_dispatch_typed demo_trip_at)+
  show ?thesis
  proof -
    obtain matched i n' where r: "Run mem_world all_accept DefaultConfig ''t1'' 1012 demo_ranked ?n = (Inr (matched, i), n')"
      and s: "\<forall>j. driver_state_of (db mem_world (world n')) j =
        (if matched \<and> j = i then Some DriverEnRoute else driver_state_of (db mem_world (world ?n)) j)"
      using Run_total [OF mem.quiet_store_axioms all_accept_calm c t _ k, of 1012] by auto
    have "driver_state_of (world n') ''d1'' = (if matched \<and> i = ''d1'' then Some DriverEnRoute else Some DriverAvailable)"
      using s [rule_format, of "''d1''"] unfolding d(1) unfolding d(2) demo_dispatch_facts(1) by auto
    with r show ?thesis by blast
  qed
qed

theorem Run_first_acceptor_witness:
  "\<exists>n'. Run mem_world all_accept DefaultConfig ''t1'' 1012 demo_ranked (demo_node TripRequested DriverAvailable) = (Inr (True, ''d1''), n') \<and>
     trip_state_of (world n') ''t1'' = Some TripMatched \<and> driver_state_of (world n') ''d1'' = Some DriverEnRoute"
proof -
  let ?n = "demo_node TripRequested DriverAvailable"
  have d: "db mem_world (world ?n) = demo_dispatch TripRequested DriverAvailable" "db mem_world w = w" for w
    by (simp_all add: mem_world_def demo_node_def)
  have c: "0 < OfferWindow DefaultConfig + offerRecordGrace \<and> in_i64 (MaxRounds DefaultConfig)"
    by (simp add: DefaultConfig_def offerRecordGrace_def second_def in_i64_def)
  have k: "\<forall>k \<in> set demo_ranked. driver_state_of (db mem_world (world ?n)) (DriverID (rc_Driver k)) \<noteq> None"
    using demo_dispatch_facts(1) by (simp add: demo_ranked_def demo_record_def d(1))
  have t: "dispatch_typed (db mem_world (world ?n))"
    "trip_at mem_world (db mem_world (world ?n)) ''t1'' = Inr \<lparr>TripID = ''t1'', RiderID = ''r1'', OriginLat = Fin 12,
     OriginLng = Fin 77, tr_State = TripRequested, IdempotencyKey = ''k1'', MatchedDriverID = '''', tr_CreatedAt = 990 * second\<rparr>"
    unfolding d(1) by (rule demo_dispatch_typed demo_trip_at)+
  have a: "\<forall>win w rec. offer_at (db mem_world w) ''t1'' = Inr rec \<and> or_State rec = OfferPending \<longrightarrow>
      heard_answer ''t1'' (fst (arrivals all_accept ''t1'' win w)) = (\<lambda>i. Accepted) (or_DriverID rec)"
    by (simp add: all_accept_def heard_answer_def)
  have asked: "take (nat (MaxRounds DefaultConfig)) (filter (\<lambda>i. driver_state_of (db mem_world (world ?n)) i = Some DriverAvailable)
      (map (DriverID \<circ> rc_Driver) demo_ranked)) = [''d1'']"
    using demo_dispatch_facts(1) by (simp add: demo_ranked_def demo_record_def d(1) DefaultConfig_def)
  show ?thesis
    using Run_first_acceptor [OF mem.quiet_store_axioms all_accept_calm c t _ k a, of 1012]
    unfolding Let_def asked unfolding d(2)
    by (cases "Run mem_world all_accept DefaultConfig ''t1'' 1012 demo_ranked ?n") auto
qed

section \<open>Properties of the hub\<close>

text \<open>
  The first answer counts: within the offer window the dispatch receives the first
  answer given for its trip, whatever is answered for other trips and however often, and
  \<open>NoResponse\<close> if there is none. Before the hub is opened and after the wait, an answer
  for the trip is not delivered; waiters of other trips keep what they had, except for
  the answers given to them.
\<close>

theorem awaitResponse_first:
  "let as = fst (arrivals W t (OfferWindow cfg) (world n)); r = awaitResponse W cfg t n in
     fst r = Inr (case find (\<lambda>a. fst a = t) as of Some a \<Rightarrow> snd a | None \<Rightarrow> NoResponse) \<and>
     (\<forall>resp. Respond t resp (hub (snd r)) = (False, hub (snd r))) \<and>
     (\<forall>resp h. h t = None \<longrightarrow> Respond t resp h = (False, h)) \<and>
     (\<forall>t'. t' \<noteq> t \<longrightarrow> t' \<notin> fst ` set as \<longrightarrow> hub (snd r) t' = hub n t')"
proof -
  obtain as w where a: "arrivals W t (OfferWindow cfg) (world n) = (as, w)" by (cases "arrivals W t (OfferWindow cfg) (world n)")
  have f: "deliver as (hub_open t (hub n)) t = Some (map_option snd (find (\<lambda>a. fst a = t) as))"
    by (rule deliver_first) (simp add: hub_open_def)
  have o: "deliver as h t' = h t'" if "t' \<notin> fst ` set as" for t' h
    using that
  proof (induction "as" arbitrary: h)
    case (Cons a as)
    then have "deliver (a # as) h = deliver as (snd (Respond (fst a) (snd a) h))" "fst a \<noteq> t'"
      by (auto simp: deliver_def split_beta)
    then show ?case using Cons by (simp add: Respond_other)
  qed (simp add: deliver_def)
  show ?thesis
    unfolding awaitResponse_def a Let_def
    using f o by (auto simp: hub_close_def hub_open_def Respond_def split: option.splits)
qed

definition demo_answers :: "'w waits" where
  "demo_answers = \<lparr>arrivals = (\<lambda>t d w. ([(''t2'', Accepted), (''t1'', Declined), (''t1'', Accepted)], w)),
     pause = (\<lambda>d w. (True, w))\<rparr>"

theorem awaitResponse_first_witness:
  "let n = \<lparr>world = empty_db, hub = [''t2'' \<mapsto> None, ''t3'' \<mapsto> None], published = [], metrics = no_metrics\<rparr>;
       r = awaitResponse demo_answers DefaultConfig ''t1'' n in
     fst r = Inr Declined \<and> Respond ''t1'' Accepted (hub (snd r)) = (False, hub (snd r)) \<and>
     hub (snd r) ''t3'' = Some None"
proof -
  let ?n = "\<lparr>world = empty_db, hub = [''t2'' \<mapsto> None, ''t3'' \<mapsto> None], published = [], metrics = no_metrics\<rparr>"
  show ?thesis
    using awaitResponse_first [of demo_answers "''t1''" DefaultConfig ?n] by (simp add: demo_answers_def Let_def)
qed

section \<open>Backoff\<close>

fun backoff_after :: "Config \<Rightarrow> nat \<Rightarrow> int" where
  "backoff_after cfg 0 = BaseBackoff cfg"
| "backoff_after cfg (Suc k) = next_backoff cfg (backoff_after cfg k)"

text \<open>
  Backoff: starting between 0 and the ceiling, the delay before the \<open>k\<close>-th reoffer is
  the base doubled \<open>k\<close> times, cut off at the ceiling (for a ceiling below \<open>2 ^ 62\<close>
  nanoseconds doubling does not wrap around). With the default configuration an offer
  record outlives its window plus any delay that can follow it.
\<close>

theorem backoff_doubles:
  assumes "0 \<le> BaseBackoff cfg" and "BaseBackoff cfg \<le> MaxBackoff cfg" and "MaxBackoff cfg < 2 ^ 62"
  shows "backoff_after cfg k = min (BaseBackoff cfg * 2 ^ k) (MaxBackoff cfg) \<and>
    (\<forall>j < MaxRounds DefaultConfig - 1.
       OfferWindow DefaultConfig + backoff_after DefaultConfig (nat j) < OfferWindow DefaultConfig + offerRecordGrace)"
proof -
  have step: "next_backoff c b = min (b * 2) (MaxBackoff c)" if "0 \<le> b" "b \<le> MaxBackoff c" "MaxBackoff c < 2 ^ 62" for c b
  proof -
    have "in_i64 (b * 2)" using that by (simp add: in_i64_def)
    then show ?thesis by (simp add: next_backoff_def Let_def min_def)
  qed
  have gen: "backoff_after c k = min (BaseBackoff c * 2 ^ k) (MaxBackoff c)"
    if c: "0 \<le> BaseBackoff c" "BaseBackoff c \<le> MaxBackoff c" "MaxBackoff c < 2 ^ 62" for c k
  proof (induction k)
    case (Suc k)
    have p: "0 \<le> BaseBackoff c * 2 ^ k" using c(1) by simp
    then have "backoff_after c (Suc k) = min (min (BaseBackoff c * 2 ^ k) (MaxBackoff c) * 2) (MaxBackoff c)"
      using Suc step [of "min (BaseBackoff c * 2 ^ k) (MaxBackoff c)" c] c by simp
    then show ?case using p c by (simp add: min_def)
  qed (use c in simp)
  have "OfferWindow DefaultConfig + backoff_after DefaultConfig (nat j) < OfferWindow DefaultConfig + offerRecordGrace"
    if "j < MaxRounds DefaultConfig - 1" for j
  proof -
    have "nat j \<le> 3" using that by (simp add: DefaultConfig_def)
    then have "(2::int) ^ nat j \<le> 2 ^ 3" by (intro power_increasing) auto
    then have "BaseBackoff DefaultConfig * 2 ^ nat j \<le> 8 * second" by (simp add: DefaultConfig_def second_def)
    moreover have "backoff_after DefaultConfig (nat j) \<le> BaseBackoff DefaultConfig * 2 ^ nat j"
      using gen [of DefaultConfig "nat j"] by (simp add: DefaultConfig_def second_def)
    ultimately show ?thesis by (simp add: offerRecordGrace_def second_def)
  qed
  then show ?thesis using gen assms by blast
qed

theorem backoff_doubles_witness:
  "backoff_after DefaultConfig 3 = 8 * second \<and> backoff_after DefaultConfig 4 = 10 * second"
proof -
  have c: "0 \<le> BaseBackoff DefaultConfig" "BaseBackoff DefaultConfig \<le> MaxBackoff DefaultConfig"
    "MaxBackoff DefaultConfig < 2 ^ 62" by (simp_all add: DefaultConfig_def second_def)
  show ?thesis
    using backoff_doubles [OF c, of 3] backoff_doubles [OF c, of 4] by (simp add: DefaultConfig_def second_def)
qed

end
