(* ===== verification/Membership.thy ===== *)
theory Membership
  imports HashRing
begin

text \<open>
  \<open>internal/membership/membership.go\<close>: a hash ring kept in step with a gossiped member
  list. hashicorp/memberlist is third-party code. The model uses what its documentation
  promises of it: it keeps a list of the members known to be alive, each under its own
  name, and tells its event delegate every change of the list, once and in order. The
  changes it reports while \<open>Create\<close> and \<open>Join\<close> run, and their errors, are parameters.
\<close>

section \<open>Configuration and delegates\<close>

record member =
  m_Name :: string
  m_Meta :: string

record MembershipConfig =
  NodeName :: string
  BindAddr :: string
  BindPort :: int
  Seeds :: "string list"
  VirtualNodes :: int
  GRPCAddr :: string

record Membership =
  mb_list :: "member list"
  mb_ring :: ring

datatype gossip = Joined member | Left string | Updated member

text \<open>The event delegate: what each callback does to the ring.\<close>

definition NotifyJoin :: "(string \<Rightarrow> u64) \<Rightarrow> member \<Rightarrow> ring \<Rightarrow> ring" where
  "NotifyJoin sum64 n r = AddNode sum64 (m_Name n) r"

definition NotifyLeave :: "(string \<Rightarrow> u64) \<Rightarrow> string \<Rightarrow> ring \<Rightarrow> ring" where
  "NotifyLeave sum64 name r = RemoveNode sum64 name r"

definition NotifyUpdate :: "member \<Rightarrow> ring \<Rightarrow> ring" where
  "NotifyUpdate n r = r"

text \<open>The metadata a node gossips: its gRPC address, cut to memberlist's limit.\<close>

definition NodeMeta :: "string \<Rightarrow> int \<Rightarrow> string" where
  "NodeMeta grpcAddr limit = (if int (length grpcAddr) > limit then take (nat limit) grpcAddr else grpcAddr)"

text \<open>What \<open>New\<close> sets of memberlist's configuration; \<open>dflt\<close> is memberlist's default bind address.\<close>

record memberlist_config =
  ml_Name :: string
  ml_BindAddr :: string
  ml_BindPort :: int
  ml_AdvertisePort :: int
  ml_Meta :: "int \<Rightarrow> string"

definition memberlist_Config :: "string \<Rightarrow> MembershipConfig \<Rightarrow> memberlist_config" where
  "memberlist_Config dflt cfg = \<lparr>ml_Name = NodeName cfg, ml_BindAddr = (if BindAddr cfg \<noteq> [] then BindAddr cfg else dflt),
     ml_BindPort = BindPort cfg, ml_AdvertisePort = BindPort cfg, ml_Meta = NodeMeta (GRPCAddr cfg)\<rparr>"

text \<open>A change of memberlist's list together with the callback it makes.\<close>

fun notify :: "(string \<Rightarrow> u64) \<Rightarrow> gossip \<Rightarrow> Membership \<Rightarrow> Membership" where
  "notify sum64 (Joined n) mb = mb\<lparr>mb_list := mb_list mb @ [n], mb_ring := NotifyJoin sum64 n (mb_ring mb)\<rparr>"
| "notify sum64 (Left name) mb =
     mb\<lparr>mb_list := filter (\<lambda>n. m_Name n \<noteq> name) (mb_list mb), mb_ring := NotifyLeave sum64 name (mb_ring mb)\<rparr>"
| "notify sum64 (Updated n) mb =
     mb\<lparr>mb_list := map (\<lambda>k. if m_Name k = m_Name n then n else k) (mb_list mb), mb_ring := NotifyUpdate n (mb_ring mb)\<rparr>"

section \<open>Operations\<close>

text \<open>
  \<open>created\<close> and \<open>joined\<close> are what \<open>memberlist.Create\<close> and \<open>Join\<close> return: an error, or the
  changes they report before they return. memberlist's list holds the local node.
\<close>

definition membership_New :: "(string \<Rightarrow> u64) \<Rightarrow> int \<Rightarrow> MembershipConfig \<Rightarrow> gossip list result \<Rightarrow> gossip list result
    \<Rightarrow> Membership result" where
  "membership_New sum64 limit cfg created joined =
     (case created of
        Inl e \<Rightarrow> Inl (Errorf ''create memberlist'' e)
      | Inr evs \<Rightarrow>
          let self = \<lparr>m_Name = NodeName cfg, m_Meta = NodeMeta (GRPCAddr cfg) limit\<rparr>;
              mb = fold (notify sum64) evs \<lparr>mb_list = [self], mb_ring = ring_New (VirtualNodes cfg)\<rparr>;
              mb = mb\<lparr>mb_ring := AddNode sum64 (NodeName cfg) (mb_ring mb)\<rparr>
          in if Seeds cfg = [] then Inr mb
             else (case joined of
                 Inl e \<Rightarrow> Inl (Errorf ''join cluster'' e)
               | Inr evs' \<Rightarrow> Inr (fold (notify sum64) evs' mb)))"

definition Members :: "Membership \<Rightarrow> string list" where
  "Members mb = map m_Name (mb_list mb)"

definition PeerGRPCAddr :: "Membership \<Rightarrow> string \<Rightarrow> string \<times> bool" where
  "PeerGRPCAddr mb nodeID =
     (case find (\<lambda>n. m_Name n = nodeID) (mb_list mb) of Some n \<Rightarrow> (m_Meta n, True) | None \<Rightarrow> ('''', False))"

section \<open>Rings over a set of nodes\<close>

text \<open>The ring a set of nodes should have: each owns all its positions, nobody else any.\<close>

definition ring_over :: "(string \<Rightarrow> u64) \<Rightarrow> string set \<Rightarrow> ring \<Rightarrow> bool" where
  "ring_over s R r \<longleftrightarrow> ring_ok r \<and>
     (\<forall>h n. map_of (owners r) h = Some n \<longleftrightarrow> n \<in> R \<and> h \<in> replicas s n (virtualNodes r))"

lemma ring_over_New: "ring_over s {} (ring_New vn)"
  by (simp add: ring_over_def ring_ok_New) (simp add: ring_New_def)

lemma collision_freeD:
  "collision_free s v N \<Longrightarrow> n \<in> N \<Longrightarrow> m \<in> N \<Longrightarrow> h \<in> replicas s n v \<Longrightarrow> h \<in> replicas s m v \<Longrightarrow> n = m"
  unfolding collision_free_def by blast

lemma ring_over_AddNode:
  assumes "ring_over s R r" "collision_free s (virtualNodes r) N" "insert n R \<subseteq> N"
  shows "ring_over s (insert n R) (AddNode s n r)"
  unfolding ring_over_def
proof (intro conjI allI)
  show "ring_ok (AddNode s n r)" using assms(1) by (simp add: ring_over_def ring_ok_AddNode)
  fix h m
  have o: "map_of (owners r) h = Some k \<longleftrightarrow> k \<in> R \<and> h \<in> replicas s k (virtualNodes r)" for k
    using assms(1) by (simp add: ring_over_def)
  note c = collision_freeD [OF assms(2)]
  show "map_of (owners (AddNode s n r)) h = Some m \<longleftrightarrow>
      m \<in> insert n R \<and> h \<in> replicas s m (virtualNodes (AddNode s n r))"
  proof (cases "map_of (owners r) h")
    case None
    with o have "\<not> (k \<in> R \<and> h \<in> replicas s k (virtualNodes r))" for k by (metis option.distinct(1))
    with None show ?thesis by (auto simp: owners_AddNode)
  next
    case (Some k)
    then have "k \<in> R" "h \<in> replicas s k (virtualNodes r)" using o by simp_all
    with Some assms(3) show ?thesis using o [of m] c [of k m h] by (auto simp: owners_AddNode)
  qed
qed

lemma ring_over_RemoveNode:
  assumes "ring_over s R r"
  shows "ring_over s (R - {n}) (RemoveNode s n r)"
proof -
  have ok: "ring_ok r" and o: "\<And>h m. m \<in> R \<and> h \<in> replicas s m (virtualNodes r) \<longleftrightarrow> map_of (owners r) h = Some m"
    using assms by (simp_all add: ring_over_def)
  have "m \<in> R - {n} \<and> h \<in> replicas s m (virtualNodes r) \<longleftrightarrow> map_of (owners r) h = Some m \<and> m \<noteq> n" for h m
    using o [of m h] by auto
  moreover have "map_of (owners (RemoveNode s n r)) h = Some m \<longleftrightarrow> map_of (owners r) h = Some m \<and> m \<noteq> n" for h m
    using o [of n h] by (auto simp: owners_RemoveNode)
  ultimately show ?thesis using ok by (simp add: ring_over_def ring_ok_RemoveNode)
qed

lemma ring_over_agree:
  assumes "ring_over s R r" "ring_over s R r'" "virtualNodes r = virtualNodes r'"
  shows "Lookup s r key = Lookup s r' key"
  using assms by (intro Lookup_cong ext option_eqI) (simp_all add: ring_over_def)

lemma replicas_nonempty: "0 < v \<Longrightarrow> replicas s n v \<noteq> {}"
  by (simp add: replicas_def)

lemma ring_over_owner:
  assumes "ring_over s R r" "R \<noteq> {}"
  shows "snd (Lookup s r key)" "fst (Lookup s r key) \<in> R"
proof -
  let ?D = "dom (map_of (owners r))"
  have ok: "ring_ok r" and o: "\<And>h n. map_of (owners r) h = Some n \<longleftrightarrow> n \<in> R \<and> h \<in> replicas s n (virtualNodes r)"
    using assms(1) by (simp_all add: ring_over_def)
  obtain n where "n \<in> R" using assms(2) by blast
  moreover have "replicas s n (virtualNodes r) \<noteq> {}" using ok by (intro replicas_nonempty) (simp add: ring_ok_def)
  ultimately have ne: "?D \<noteq> {}" using o by blast
  then have L: "Lookup s r key = (the (map_of (owners r) (clockwise ?D (hashKey s key))), True)"
    by (simp add: Lookup_eq [OF ok])
  obtain m where "map_of (owners r) (clockwise ?D (hashKey s key)) = Some m" using clockwise_in [OF ne] by blast
  with L o show "snd (Lookup s r key)" "fst (Lookup s r key) \<in> R" by simp_all
qed

section \<open>The ring follows the members\<close>

text \<open>
  The changes memberlist may report on the node \<open>self\<close>: a new name joins, a member other
  than the local node leaves, a member's metadata changes. \<open>N\<close> bounds the names in use.
\<close>

fun legal :: "string \<Rightarrow> string set \<Rightarrow> Membership \<Rightarrow> gossip \<Rightarrow> bool" where
  "legal self N mb (Joined n) \<longleftrightarrow> m_Name n \<in> N \<and> m_Name n \<notin> set (Members mb)"
| "legal self N mb (Left name) \<longleftrightarrow> name \<in> set (Members mb) \<and> name \<noteq> self"
| "legal self N mb (Updated n) \<longleftrightarrow> m_Name n \<in> set (Members mb)"

inductive gossips :: "(string \<Rightarrow> u64) \<Rightarrow> string \<Rightarrow> string set \<Rightarrow> Membership \<Rightarrow> gossip list \<Rightarrow> Membership \<Rightarrow> bool"
  for s self N where
  gossips_Nil: "gossips s self N mb [] mb"
| gossips_Cons: "legal self N mb ev \<Longrightarrow> gossips s self N (notify s ev mb) evs mb' \<Longrightarrow> gossips s self N mb (ev # evs) mb'"

inductive_simps gossips_simps [simp]: "gossips s self N mb [] mb'" "gossips s self N mb (ev # evs) mb'"

lemma gossips_fold: "gossips s self N mb evs mb' \<Longrightarrow> mb' = fold (notify s) evs mb"
  by (induction rule: gossips.induct) simp_all

text \<open>\<open>D\<close> is empty, or the local node alone while it is not in its own ring yet.\<close>

definition tracks :: "(string \<Rightarrow> u64) \<Rightarrow> string \<Rightarrow> string set \<Rightarrow> string set \<Rightarrow> Membership \<Rightarrow> bool" where
  "tracks s self N D mb \<longleftrightarrow> distinct (Members mb) \<and> set (Members mb) \<subseteq> N \<and> self \<in> set (Members mb) \<and>
     ring_over s (set (Members mb) - D) (mb_ring mb)"

lemma Members_notify:
  "Members (notify s (Joined n) mb) = Members mb @ [m_Name n]"
  "Members (notify s (Left name) mb) = filter (\<lambda>k. k \<noteq> name) (Members mb)"
  "Members (notify s (Updated n) mb) = Members mb"
  by (simp_all add: Members_def filter_map comp_def)

lemma vnodes_notify [simp]: "virtualNodes (mb_ring (notify s ev mb)) = virtualNodes (mb_ring mb)"
  by (cases ev) (simp_all add: NotifyJoin_def NotifyLeave_def NotifyUpdate_def)

lemma tracks_notify:
  assumes "tracks s self N D mb" "legal self N mb ev" "collision_free s (virtualNodes (mb_ring mb)) N" "D \<subseteq> {self}"
  shows "tracks s self N D (notify s ev mb)"
proof (cases ev)
  case (Joined n)
  let ?R = "set (Members mb) - D"
  have "m_Name n \<notin> D" using assms by (auto simp: Joined tracks_def)
  moreover have "ring_over s (insert (m_Name n) ?R) (AddNode s (m_Name n) (mb_ring mb))"
    using assms by (intro ring_over_AddNode [of _ _ _ N]) (auto simp: Joined tracks_def)
  ultimately show ?thesis
    using assms unfolding Joined tracks_def Members_notify by (auto simp: NotifyJoin_def insert_Diff_if)
next
  case (Left name)
  have "ring_over s (set (Members mb) - D - {name}) (RemoveNode s name (mb_ring mb))"
    using assms by (intro ring_over_RemoveNode) (simp add: tracks_def)
  moreover have "set (Members mb) - D - {name} = {k \<in> set (Members mb). k \<noteq> name} - D" by auto
  ultimately show ?thesis
    using assms unfolding Left tracks_def Members_notify by (auto simp: NotifyLeave_def)
next
  case (Updated n)
  show ?thesis using assms unfolding Updated tracks_def Members_notify by (simp add: NotifyUpdate_def)
qed

lemma gossips_tracks:
  assumes "gossips s self N mb evs mb'" "tracks s self N D mb"
    "collision_free s (virtualNodes (mb_ring mb)) N" "D \<subseteq> {self}"
  shows "tracks s self N D mb' \<and> virtualNodes (mb_ring mb') = virtualNodes (mb_ring mb)"
  using assms by (induction rule: gossips.induct) (simp_all add: tracks_notify)

text \<open>
  What memberlist's documentation promises of the changes it reports while a node starts:
  those made by \<open>Create\<close> and, after the local node was added to its ring, by \<open>Join\<close>.
\<close>

definition starting :: "int \<Rightarrow> MembershipConfig \<Rightarrow> Membership" where
  "starting limit cfg = \<lparr>mb_list = [\<lparr>m_Name = NodeName cfg, m_Meta = NodeMeta (GRPCAddr cfg) limit\<rparr>],
     mb_ring = ring_New (VirtualNodes cfg)\<rparr>"

definition start_reports :: "(string \<Rightarrow> u64) \<Rightarrow> int \<Rightarrow> string set \<Rightarrow> MembershipConfig \<Rightarrow> gossip list \<Rightarrow> gossip list \<Rightarrow> bool" where
  "start_reports s limit N cfg evs evs' \<longleftrightarrow>
     (\<exists>mb mb'. gossips s (NodeName cfg) N (starting limit cfg) evs mb \<and>
        gossips s (NodeName cfg) N (mb\<lparr>mb_ring := AddNode s (NodeName cfg) (mb_ring mb)\<rparr>) evs' mb')"

lemma membership_New_tracks:
  assumes "membership_New s limit cfg (Inr evs) (Inr evs') = Inr mb"
    and "start_reports s limit N cfg evs evs'" and "NodeName cfg \<in> N"
    and "collision_free s (if VirtualNodes cfg \<le> 0 then 150 else VirtualNodes cfg) N"
  shows "tracks s (NodeName cfg) N {} mb \<and>
    virtualNodes (mb_ring mb) = (if VirtualNodes cfg \<le> 0 then 150 else VirtualNodes cfg)"
proof -
  let ?v = "if VirtualNodes cfg \<le> 0 then 150 else VirtualNodes cfg"
  let ?m0 = "starting limit cfg" and ?self = "NodeName cfg"
  let ?join = "\<lambda>mb. mb\<lparr>mb_ring := AddNode s (NodeName cfg) (mb_ring mb)\<rparr>"
  have v: "virtualNodes (mb_ring ?m0) = ?v" by (simp add: starting_def ring_New_def DefaultVirtualNodes_def)
  have t0: "tracks s ?self N {?self} ?m0"
    using assms(3) by (simp add: tracks_def starting_def Members_def ring_over_New)
  obtain m1 m2 where g: "gossips s ?self N ?m0 evs m1" "gossips s ?self N (?join m1) evs' m2"
    using assms(2) by (auto simp: start_reports_def)
  have t1: "tracks s ?self N {?self} m1" "virtualNodes (mb_ring m1) = ?v"
    using gossips_tracks [OF g(1) t0] assms(4) v by simp_all
  have "ring_over s (insert ?self (set (Members m1) - {?self})) (AddNode s ?self (mb_ring m1))"
    using t1 assms(3,4) by (intro ring_over_AddNode [of _ _ _ N]) (auto simp: tracks_def)
  then have t2: "tracks s ?self N {} (?join m1)"
    using t1(1) by (simp add: tracks_def Members_def insert_absorb)
  have t3: "tracks s ?self N {} m2 \<and> virtualNodes (mb_ring m2) = ?v"
    using gossips_tracks [OF g(2) t2] assms(4) t1(2) by simp
  show ?thesis
  proof (cases "Seeds cfg = []")
    case True
    then have "mb = ?join m1" using assms(1) gossips_fold [OF g(1)]
      by (simp add: membership_New_def starting_def Let_def)
    then show ?thesis using t2 t1(2) by simp
  next
    case False
    then have "mb = m2" using assms(1) gossips_fold [OF g(1)] gossips_fold [OF g(2)]
      by (simp add: membership_New_def starting_def Let_def)
    then show ?thesis using t3 by simp
  qed
qed

section \<open>The interface routing relies on\<close>

text \<open>
  A directory of peers: in a valid state every key has an owner, and the owner's address is
  known. States with the same members answer alike.
\<close>

locale peer_directory =
  fixes valid :: "'m \<Rightarrow> bool"
    and owner :: "'m \<Rightarrow> string \<Rightarrow> string \<times> bool"
    and address :: "'m \<Rightarrow> string \<Rightarrow> string \<times> bool"
    and known :: "'m \<Rightarrow> string set"
  assumes owned: "valid m \<Longrightarrow> snd (owner m key)"
    and owner_known: "valid m \<Longrightarrow> fst (owner m key) \<in> known m"
    and known_address: "valid m \<Longrightarrow> n \<in> known m \<Longrightarrow> snd (address m n)"
    and same_known: "valid m \<Longrightarrow> valid m' \<Longrightarrow> known m = known m' \<Longrightarrow> owner m key = owner m' key"
begin

lemma owner_address: "valid m \<Longrightarrow> snd (owner m key) \<and> snd (address m (fst (owner m key)))"
  using owned owner_known known_address by blast

end

text \<open>A node's view of the cluster, with positions \<open>v\<close> per node and names in \<open>N\<close>.\<close>

definition follows :: "(string \<Rightarrow> u64) \<Rightarrow> int \<Rightarrow> string set \<Rightarrow> Membership \<Rightarrow> bool" where
  "follows s v N mb \<longleftrightarrow> (\<exists>self. tracks s self N {} mb) \<and> virtualNodes (mb_ring mb) = v"

lemma PeerGRPCAddr_known: "snd (PeerGRPCAddr mb n) \<longleftrightarrow> n \<in> set (Members mb)"
  by (auto simp: PeerGRPCAddr_def Members_def find_None_iff find_Some_iff split: option.splits)

lemma follows_owner:
  assumes "follows s v N mb"
  shows "snd (Lookup s (mb_ring mb) key)" "fst (Lookup s (mb_ring mb) key) \<in> set (Members mb)"
proof -
  have "ring_over s (set (Members mb)) (mb_ring mb)" "set (Members mb) \<noteq> {}"
    using assms by (auto simp: follows_def tracks_def)
  then show "snd (Lookup s (mb_ring mb) key)" "fst (Lookup s (mb_ring mb) key) \<in> set (Members mb)"
    by (rule ring_over_owner)+
qed

interpretation gossiped: peer_directory "follows sum64 v N" "\<lambda>mb. Lookup sum64 (mb_ring mb)" PeerGRPCAddr
  "\<lambda>mb. set (Members mb)" for sum64 v N
proof
  fix m m' key n
  show "follows sum64 v N m \<Longrightarrow> snd (Lookup sum64 (mb_ring m) key)" by (rule follows_owner)
  show "follows sum64 v N m \<Longrightarrow> fst (Lookup sum64 (mb_ring m) key) \<in> set (Members m)" by (rule follows_owner)
  show "n \<in> set (Members m) \<Longrightarrow> snd (PeerGRPCAddr m n)" by (simp add: PeerGRPCAddr_known)
  show "follows sum64 v N m \<Longrightarrow> follows sum64 v N m' \<Longrightarrow> set (Members m) = set (Members m') \<Longrightarrow>
      Lookup sum64 (mb_ring m) key = Lookup sum64 (mb_ring m') key"
    by (auto simp: follows_def tracks_def intro: ring_over_agree)
qed

section \<open>The ring is a function of the membership\<close>

text \<open>
  A node that has joined and been told of some further changes; \<open>N\<close> holds every name the
  cluster ever uses, and \<open>v\<close> is the number of positions per node.
\<close>

definition running :: "(string \<Rightarrow> u64) \<Rightarrow> int \<Rightarrow> string set \<Rightarrow> int \<Rightarrow> string \<Rightarrow> Membership \<Rightarrow> bool" where
  "running s limit N v self mb \<longleftrightarrow>
     (\<exists>cfg evs evs' mb0 later.
        NodeName cfg = self \<and> self \<in> N \<and> v = (if VirtualNodes cfg \<le> 0 then 150 else VirtualNodes cfg) \<and>
        start_reports s limit N cfg evs evs' \<and> membership_New s limit cfg (Inr evs) (Inr evs') = Inr mb0 \<and>
        gossips s self N mb0 later mb)"

lemma running_tracks:
  assumes "running s limit N v self mb" "collision_free s v N"
  shows "tracks s self N {} mb" "virtualNodes (mb_ring mb) = v"
proof -
  obtain cfg evs evs' mb0 later where r: "NodeName cfg = self" "self \<in> N"
    "v = (if VirtualNodes cfg \<le> 0 then 150 else VirtualNodes cfg)" "start_reports s limit N cfg evs evs'"
    "membership_New s limit cfg (Inr evs) (Inr evs') = Inr mb0" "gossips s self N mb0 later mb"
    using assms(1) unfolding running_def by blast
  have t: "tracks s self N {} mb0 \<and> virtualNodes (mb_ring mb0) = v"
    using membership_New_tracks [OF r(5,4)] assms(2) r(1-3) by simp
  then show "tracks s self N {} mb" "virtualNodes (mb_ring mb) = v"
    using gossips_tracks [OF r(6), of "{}"] assms(2) by simp_all
qed

lemma running_follows: "running s limit N v self mb \<Longrightarrow> collision_free s v N \<Longrightarrow> follows s v N mb"
  using running_tracks unfolding follows_def by blast

text \<open>
  C13. The ring follows the membership: whatever members join, leave and change their
  metadata before and after a node has joined, every key is owned by a current member,
  and that member's gRPC address is known; and any two nodes that know the same members
  agree on the owner of every key, whatever changes each of them saw and in whatever
  order. (Provided no virtual positions of two nodes collide.)
\<close>

theorem ring_follows_membership:
  assumes "running s limit N v self mb" and "running s limit N v self' mb'" and "collision_free s v N"
  shows "snd (Lookup s (mb_ring mb) key) \<and> fst (Lookup s (mb_ring mb) key) \<in> set (Members mb) \<and>
    snd (PeerGRPCAddr mb (fst (Lookup s (mb_ring mb) key))) \<and>
    (set (Members mb) = set (Members mb') \<longrightarrow> Lookup s (mb_ring mb) key = Lookup s (mb_ring mb') key)"
proof -
  have f: "follows s v N mb" "follows s v N mb'"
    using assms(1,2) by (simp_all add: running_follows [OF _ assms(3)])
  show ?thesis
    using gossiped.owner_address [OF f(1), of key] gossiped.owner_known [OF f(1), of key]
      gossiped.same_known [OF f] by blast
qed

text \<open>Two nodes with one position each; the second also saw a third come and go.\<close>

definition demo_cfg :: "string \<Rightarrow> string \<Rightarrow> MembershipConfig" where
  "demo_cfg name addr = \<lparr>NodeName = name, BindAddr = [], BindPort = 0, Seeds = [''seed''], VirtualNodes = 1, GRPCAddr = addr\<rparr>"

definition demo_member :: "string \<Rightarrow> string \<Rightarrow> member" where
  "demo_member name addr = \<lparr>m_Name = name, m_Meta = addr\<rparr>"

definition demo_view :: "(string \<Rightarrow> u64) \<Rightarrow> string \<Rightarrow> string \<Rightarrow> gossip list \<Rightarrow> Membership" where
  "demo_view s name addr evs = (case membership_New s 512 (demo_cfg name addr) (Inr []) (Inr evs) of Inr mb \<Rightarrow> mb)"

lemma demo_running:
  assumes "name \<in> N" "gossips s name N ((starting 512 (demo_cfg name addr))\<lparr>mb_ring := AddNode s name (ring_New 1)\<rparr>) evs mb'"
  shows "running s 512 N 1 name (demo_view s name addr evs)"
proof -
  have start: "start_reports s 512 N (demo_cfg name addr) [] evs"
    unfolding start_reports_def using assms(2)
    by (intro exI [of _ "starting 512 (demo_cfg name addr)"] exI [of _ mb']) (simp add: starting_def demo_cfg_def)
  obtain mb where new: "membership_New s 512 (demo_cfg name addr) (Inr []) (Inr evs) = Inr mb"
    by (simp add: membership_New_def demo_cfg_def Let_def)
  have "running s 512 N 1 name mb"
    unfolding running_def using start new assms(1)
    by (intro exI [of _ "demo_cfg name addr"] exI [of _ "[]"] exI [of _ evs] exI [of _ mb])
      (simp add: demo_cfg_def)
  then show ?thesis by (simp add: demo_view_def new)
qed

definition peer_hash :: "string \<Rightarrow> u64" where
  "peer_hash s = (if s = ''a#0'' then 10 else if s = ''b#0'' then 20 else if s = ''c#0'' then 30 else 15)"

lemma peer_hash_replicas [simp]:
  "replicas peer_hash ''a'' 1 = {10}" "replicas peer_hash ''b'' 1 = {20}" "replicas peer_hash ''c'' 1 = {30}"
  by (simp_all add: replicas_def hashReplica_def peer_hash_def itoa_def nat_str.simps)

lemma peer_hash_free: "collision_free peer_hash 1 {''a'', ''b'', ''c''}"
  by (auto simp: collision_free_def)

lemma demo_views:
  "running peer_hash 512 {''a'', ''b'', ''c''} 1 ''a'' (demo_view peer_hash ''a'' ''addr-a'' [Joined (demo_member ''b'' ''addr-b'')])"
  "running peer_hash 512 {''a'', ''b'', ''c''} 1 ''b'' (demo_view peer_hash ''b'' ''addr-b''
     [Joined (demo_member ''c'' ''addr-c''), Joined (demo_member ''a'' ''addr-a''), Left ''c''])"
  by (rule demo_running; simp add: starting_def demo_cfg_def demo_member_def Members_def)+

lemma demo_members:
  "set (Members (demo_view peer_hash ''a'' ''addr-a'' [Joined (demo_member ''b'' ''addr-b'')])) = {''a'', ''b''}"
  "set (Members (demo_view peer_hash ''b'' ''addr-b''
     [Joined (demo_member ''c'' ''addr-c''), Joined (demo_member ''a'' ''addr-a''), Left ''c''])) = {''a'', ''b''}"
  by (auto simp: demo_view_def membership_New_def demo_cfg_def demo_member_def Members_def Let_def)

theorem ring_follows_membership_witness:
  "let mb = demo_view peer_hash ''a'' ''addr-a'' [Joined (demo_member ''b'' ''addr-b'')];
       mb' = demo_view peer_hash ''b'' ''addr-b''
         [Joined (demo_member ''c'' ''addr-c''), Joined (demo_member ''a'' ''addr-a''), Left ''c''] in
     fst (Lookup peer_hash (mb_ring mb) ''cell'') \<in> {''a'', ''b''} \<and>
     Lookup peer_hash (mb_ring mb) ''cell'' = Lookup peer_hash (mb_ring mb') ''cell''"
  unfolding Let_def
  using ring_follows_membership [OF demo_views peer_hash_free, of "''cell''", unfolded demo_members] by auto

end
