(* ===== verification/Router.thy ===== *)
theory Router
  imports Membership
begin

text \<open>
  \<open>internal/router/router.go\<close>: who handles a request. \<open>Route\<close> and \<open>RouteOfferResponse\<close> are
  the same code for two RPCs, so both are instances of \<open>route\<close>. A router reads the ring and
  the peer addresses that gossip keeps up to date, so both are functions of the state.
  Dialling and calling a peer are gRPC's: parameters.
\<close>

record ('w, 'conn) Router =
  localNode :: string
  rt_ring :: "'w \<Rightarrow> ring"
  rt_dial :: "string \<Rightarrow> ('w, 'conn) io"
  rt_peerAddr :: "'w \<Rightarrow> string \<Rightarrow> string \<times> bool"

definition route :: "(string \<Rightarrow> u64) \<Rightarrow> ('w, 'conn) Router \<Rightarrow> ('req \<Rightarrow> ('w, 'resp) io) \<Rightarrow> ('conn \<Rightarrow> 'req \<Rightarrow> ('w, 'resp) io)
    \<Rightarrow> string \<Rightarrow> 'req \<Rightarrow> ('w, 'resp) io" where
  "route sum64 r handle rpc cellID req = (\<lambda>w.
     case Lookup sum64 (rt_ring r w) cellID of (owner, ok) \<Rightarrow>
       if \<not> ok then io_fail (ErrorMsg ''router: no node owns cell - ring is empty'') w
       else if owner = localNode r then handle req w
       else case rt_peerAddr r w owner of (addr, ok) \<Rightarrow>
         if \<not> ok then io_fail (ErrorMsg ''router: no known gRPC address for owning node'') w
         else io_bind (io_wrap ''router: dial'' (rt_dial r addr)) (\<lambda>conn.
              io_wrap ''router: forward to node'' (rpc conn req)) w)"

definition Route :: "(string \<Rightarrow> u64) \<Rightarrow> ('w, 'conn) Router \<Rightarrow> ('req \<Rightarrow> ('w, 'resp) io) \<Rightarrow> ('conn \<Rightarrow> 'req \<Rightarrow> ('w, 'resp) io)
    \<Rightarrow> string \<Rightarrow> 'req \<Rightarrow> ('w, 'resp) io" where
  "Route sum64 r handler Dispatch cellID req = route sum64 r handler Dispatch cellID req"

definition RouteOfferResponse :: "(string \<Rightarrow> u64) \<Rightarrow> ('w, 'conn) Router \<Rightarrow> ('req \<Rightarrow> ('w, 'resp) io)
    \<Rightarrow> ('conn \<Rightarrow> 'req \<Rightarrow> ('w, 'resp) io) \<Rightarrow> string \<Rightarrow> 'req \<Rightarrow> ('w, 'resp) io" where
  "RouteOfferResponse sum64 r offerHandler RespondToOffer cellID req = route sum64 r offerHandler RespondToOffer cellID req"

section \<open>The three ways a request can go\<close>

lemma route_empty: "\<not> snd (Lookup sum64 (rt_ring r w) c) \<Longrightarrow>
    route sum64 r handle rpc c req w = (Inl (ErrorMsg ''router: no node owns cell - ring is empty''), w)"
  by (cases "Lookup sum64 (rt_ring r w) c") (simp add: route_def io_fail_def)

lemma route_local: "Lookup sum64 (rt_ring r w) c = (localNode r, True) \<Longrightarrow> route sum64 r handle rpc c req w = handle req w"
  by (simp add: route_def)

lemma route_remote: "Lookup sum64 (rt_ring r w) c = (owner, True) \<Longrightarrow> owner \<noteq> localNode r \<Longrightarrow>
    rt_peerAddr r w owner = (addr, True) \<Longrightarrow> route sum64 r handle rpc c req w =
      io_bind (io_wrap ''router: dial'' (rt_dial r addr)) (\<lambda>conn. io_wrap ''router: forward to node'' (rpc conn req)) w"
  by (simp add: route_def)

section \<open>Forwarding comes closer to the key\<close>

text \<open>
  How far a position is from a key's hash \<open>h\<close>, going round the ring upwards, and how far a
  node is: the distance of its closest position.
\<close>

definition turn :: "u64 \<Rightarrow> u64 \<Rightarrow> nat" where
  "turn h p = (if h \<le> p then unat p else unat p + 2 ^ 64)"

definition distance_to :: "(string \<Rightarrow> u64) \<Rightarrow> int \<Rightarrow> string \<Rightarrow> string \<Rightarrow> nat" where
  "distance_to s v key n = Min (turn (hashKey s key) ` replicas s n v)"

lemma unat_bound: "unat (p :: u64) < 2 ^ 64"
  using unsigned_less [of p] by simp

lemma turn_inj: "turn h p = turn h q \<Longrightarrow> p = q"
  using unat_bound [of p] unat_bound [of q] by (auto simp: turn_def word_unat_eq_iff split: if_splits)

lemma clockwise_turn:
  assumes "p \<in> S"
  shows "turn h (clockwise S h) \<le> turn h p"
proof (cases "\<exists>q \<in> S. h \<le> q")
  case True
  let ?A = "{q \<in> S. h \<le> q}"
  have ne: "?A \<noteq> {}" and eq: "clockwise S h = Min ?A" using True by (auto simp: clockwise_def)
  have m: "clockwise S h \<in> ?A" unfolding eq by (rule Min_in) (use ne in auto)
  show ?thesis
  proof (cases "h \<le> p")
    case True
    then have "clockwise S h \<le> p" unfolding eq using assms by (intro Min_le) auto
    with m True show ?thesis by (simp add: turn_def word_le_nat_alt)
  next
    case False
    with m show ?thesis using unat_bound [of "clockwise S h"] by (simp add: turn_def)
  qed
next
  case False
  then have "clockwise S h = Min S" by (simp add: clockwise_def)
  moreover have "Min S \<in> S" by (rule Min_in) (use assms in auto)
  moreover have "Min S \<le> p" using assms by (intro Min_le) auto
  ultimately show ?thesis using False assms by (auto simp: turn_def word_le_nat_alt)
qed

lemma finite_replicas [simp]: "finite (replicas s n v)"
  by (simp add: replicas_def)

text \<open>In a ring over \<open>R\<close> the owner of a key is closer to it than every other node of \<open>R\<close>.\<close>

lemma owner_closest:
  assumes "ring_over s R r" "n \<in> R" "fst (Lookup s r key) \<noteq> n"
  shows "distance_to s (virtualNodes r) key (fst (Lookup s r key)) < distance_to s (virtualNodes r) key n"
proof -
  let ?v = "virtualNodes r" and ?h = "hashKey s key" and ?D = "dom (map_of (owners r))"
  have ok: "ring_ok r" and o: "\<And>h n. map_of (owners r) h = Some n \<longleftrightarrow> n \<in> R \<and> h \<in> replicas s n ?v"
    using assms(1) by (simp_all add: ring_over_def)
  have ne: "replicas s n ?v \<noteq> {}" using ok by (intro replicas_nonempty) (simp add: ring_ok_def)
  then have D: "?D \<noteq> {}" using o assms(2) by blast
  let ?p = "clockwise ?D ?h"
  obtain m where m: "map_of (owners r) ?p = Some m" using clockwise_in [OF D] by blast
  then have fm: "fst (Lookup s r key) = m" using D by (simp add: Lookup_eq [OF ok])
  have mr: "?p \<in> replicas s m ?v" using m o by blast
  have "distance_to s ?v key n \<in> turn ?h ` replicas s n ?v"
    unfolding distance_to_def by (rule Min_in) (use ne in auto)
  then obtain q where q: "q \<in> replicas s n ?v" "distance_to s ?v key n = turn ?h q" by auto
  have "q \<in> ?D" using o q(1) assms(2) by blast
  then have "turn ?h ?p \<le> turn ?h q" by (rule clockwise_turn)
  moreover have "turn ?h ?p \<noteq> turn ?h q"
  proof
    assume "turn ?h ?p = turn ?h q"
    then have "map_of (owners r) q = Some m" using m turn_inj by metis
    moreover have "map_of (owners r) q = Some n" using o q(1) assms(2) by blast
    ultimately show False using assms(3) fm by simp
  qed
  moreover have "distance_to s ?v key m \<le> turn ?h ?p"
    unfolding distance_to_def using mr by (intro Min_le) auto
  ultimately show ?thesis unfolding fm q(2) by simp
qed

end
