(* ===== verification/Disco.thy ===== *)
theory Disco
  imports Offers Router
begin

text \<open>
  \<open>cmd/disco\<close>: the matcher. \<open>localHandler\<close> runs a dispatch on the node that owns the
  trip's cell, \<open>grpcServer\<close> finds the cell of a request and routes it. The messages are
  those of \<open>api/proto/dispatch.proto\<close>. The last section puts several such processes beside
  each other on one Redis.
\<close>

section \<open>Messages\<close>

record DispatchRequest =
  dq_RiderId :: string
  dq_OriginLat :: f64
  dq_OriginLng :: f64
  dq_IdempotencyKey :: string

record DispatchResponse =
  dp_TripId :: string
  dp_Matched :: bool
  dp_DriverId :: string
  dp_State :: string

datatype OfferResponse = OFFER_RESPONSE_UNSPECIFIED | OFFER_RESPONSE_ACCEPTED | OFFER_RESPONSE_DECLINED

record RespondToOfferRequest =
  rq_DriverId :: string
  rq_Response :: OfferResponse

record RespondToOfferResponse =
  rp_Delivered :: bool

section \<open>The handler of the owning node\<close>

record 'w localHandler =
  lh_Waits :: "'w waits"
  lh_Cfg :: Config
  lh_Estimator :: estimator
  lh_Resolution :: int

definition tripToResponse :: "TripRecord \<Rightarrow> DispatchResponse" where
  "tripToResponse trip = \<lparr>dp_TripId = TripID trip, dp_Matched = (tr_State trip = TripMatched),
     dp_DriverId = MatchedDriverID trip, dp_State = tr_State trip\<rparr>"

text \<open>
  Polls until the trip is resolved. \<open>ticks\<close> is the number of ticks of 200 ms the request's
  context lasts, if it is not cancelled before; a client without a deadline is one that
  lasts for any number.
\<close>

fun awaitResolution :: "'w ext \<Rightarrow> 'w waits \<Rightarrow> nat \<Rightarrow> string \<Rightarrow> ('w, TripRecord) io" where
  "awaitResolution X W ticks tripID =
     io_bind (GetTrip X tripID) (\<lambda>trip.
     if tr_State trip = TripMatched \<or> tr_State trip = TripUnfulfilled then io_return trip
     else case ticks of
         0 \<Rightarrow> io_fail ContextDone
       | Suc n \<Rightarrow> (\<lambda>w. case pause W (200 * millisecond) w of (elapsed, w') \<Rightarrow>
           if elapsed then awaitResolution X W n tripID w' else io_fail ContextDone w'))"

text \<open>The dispatch of a trip that is not yet offered.\<close>

definition dispatch_trip :: "'w ext \<Rightarrow> 'w localHandler \<Rightarrow> TripRecord \<Rightarrow> ('w node, DispatchResponse) io" where
  "dispatch_trip X h trip =
     io_bind (io_wrap ''cell for origin''
       (io_lift (CellFor X (OriginLat trip) (OriginLng trip) (lh_Resolution h)))) (\<lambda>origin.
     io_bind (io_wrap ''find candidates''
       (on_world (FindCandidates X (DriversInCell X) (GetDrivers X) origin DefaultSearchConfig))) (\<lambda>candidates.
     io_bind (io_wrap ''rank candidates'' (\<lambda>n. (Rank (lh_Estimator h)
       \<lparr>Lat = OriginLat trip, Lng = OriginLng trip\<rparr> candidates DefaultRankConfig (wall X (world n)), n))) (\<lambda>ranked.
     io_bind (io_wrap ''dispatch'' (Run X (lh_Waits h) (lh_Cfg h) (TripID trip) origin ranked)) (\<lambda>_.
     io_bind (io_wrap ''get trip'' (on_world (GetTrip X (TripID trip)))) (\<lambda>final.
     io_return (tripToResponse final))))))"

definition Handle :: "'w ext \<Rightarrow> 'w localHandler \<Rightarrow> nat \<Rightarrow> DispatchRequest \<Rightarrow> ('w node, DispatchResponse) io" where
  "Handle X h ticks req =
     io_bind (io_wrap ''create trip'' (on_world
       (CreateTrip X (dq_RiderId req) (dq_OriginLat req) (dq_OriginLng req) (dq_IdempotencyKey req)))) (\<lambda>trip.
     if tr_State trip = TripMatched \<or> tr_State trip = TripUnfulfilled then io_return (tripToResponse trip)
     else if tr_State trip = TripOffered then
       io_bind (on_world (awaitResolution X (lh_Waits h) ticks (TripID trip))) (\<lambda>final. io_return (tripToResponse final))
     else dispatch_trip X h trip)"

definition hub_respond :: "string \<Rightarrow> Response \<Rightarrow> ('w node, bool) io" where
  "hub_respond tripID resp = (\<lambda>n. case Respond tripID resp (hub n) of (b, hb) \<Rightarrow> (Inr b, n\<lparr>hub := hb\<rparr>))"

definition HandleOfferResponse :: "'w ext \<Rightarrow> RespondToOfferRequest \<Rightarrow> ('w node, RespondToOfferResponse) io" where
  "HandleOfferResponse X req =
     io_bind (io_try (on_world (CurrentOfferFor X (rq_DriverId req)))) (\<lambda>r.
     case r of
       Inl e \<Rightarrow> if e = ErrOfferNotFound then io_return \<lparr>rp_Delivered = False\<rparr>
                else io_fail (Errorf ''current offer for driver'' e)
     | Inr tripID \<Rightarrow>
         io_bind (hub_respond tripID (if rq_Response req = OFFER_RESPONSE_ACCEPTED then Accepted else Declined)) (\<lambda>b.
         io_return \<lparr>rp_Delivered = b\<rparr>))"

section \<open>Processes on one Redis\<close>

text \<open>
  A cluster: the world every store acts on, and per gRPC address the process listening
  there with its own view of the membership, its hub and the events it published.
\<close>

record proc =
  p_Name :: string
  p_Member :: Membership
  p_Hub :: ResponseHub
  p_Published :: "event list"
  p_Metrics :: metrics

record 'w cluster =
  shared :: 'w
  procs :: "string \<rightharpoonup> proc"

definition on_shared :: "('w, 'a) io \<Rightarrow> ('w cluster, 'a) io" where
  "on_shared m = (\<lambda>C. case m (shared C) of (r, w) \<Rightarrow> (r, C\<lparr>shared := w\<rparr>))"

definition node_at :: "'w cluster \<Rightarrow> proc \<Rightarrow> 'w node" where
  "node_at C p = \<lparr>world = shared C, hub = p_Hub p, published = p_Published p, metrics = p_Metrics p\<rparr>"

definition on_node :: "string \<Rightarrow> ('w node, 'a) io \<Rightarrow> ('w cluster, 'a) io" where
  "on_node a m = (\<lambda>C. case procs C a of
       None \<Rightarrow> (Inl (ErrorMsg ''connection refused''), C)
     | Some p \<Rightarrow> (case m (node_at C p) of (r, n) \<Rightarrow>
         (r, C\<lparr>shared := world n, procs := (procs C)(a \<mapsto> p\<lparr>p_Hub := hub n, p_Published := published n, p_Metrics := metrics n\<rparr>)\<rparr>)))"

text \<open>What the processes of a deployment share: the hash, the handler's settings, gRPC's dialler.\<close>

record 'w deployment =
  dep_sum64 :: "string \<Rightarrow> u64"
  dep_handler :: "'w localHandler"
  dep_dial :: "string \<Rightarrow> unit result"

text \<open>The router of the process listening at \<open>a\<close>; a connection is the address it leads to.\<close>

definition disco_router :: "'w deployment \<Rightarrow> string \<Rightarrow> proc \<Rightarrow> ('w cluster, string) Router" where
  "disco_router D a p = \<lparr>localNode = p_Name p, rt_ring = (\<lambda>C. mb_ring (p_Member p)),
     rt_dial = (\<lambda>addr. io_bind (io_lift (dep_dial D addr)) (\<lambda>_. io_return addr)),
     rt_peerAddr = (\<lambda>C. PeerGRPCAddr (p_Member p))\<rparr>"

text \<open>The reconciler every process runs; a tick of \<open>runReconciler\<close> is one \<open>Sweep\<close>.\<close>

definition disco_reconciler :: "'w ext \<Rightarrow> 'w deployment \<Rightarrow> 'w Reconciler" where
  "disco_reconciler X D = \<lparr>rc_lookup_cell = DriversInCell X, rc_lookup_many = GetDrivers X,
     rc_Waits = lh_Waits (dep_handler D), rc_Cfg = lh_Cfg (dep_handler D), rc_Estimator = lh_Estimator (dep_handler D),
     rc_Resolution = lh_Resolution (dep_handler D), rc_SearchCfg = DefaultSearchConfig, rc_RankCfg = DefaultRankConfig\<rparr>"

section \<open>The gRPC server\<close>

definition grpc_Dispatch :: "'w ext \<Rightarrow> 'w deployment \<Rightarrow> nat \<Rightarrow> string \<Rightarrow> proc
    \<Rightarrow> (string \<Rightarrow> DispatchRequest \<Rightarrow> ('w cluster, DispatchResponse) io)
    \<Rightarrow> DispatchRequest \<Rightarrow> ('w cluster, DispatchResponse) io" where
  "grpc_Dispatch X D ticks a p rpc req =
     io_bind (io_wrap ''cell for origin''
       (io_lift (CellFor X (dq_OriginLat req) (dq_OriginLng req) (lh_Resolution (dep_handler D))))) (\<lambda>c.
     Route (dep_sum64 D) (disco_router D a p) (\<lambda>req. on_node a (Handle X (dep_handler D) ticks req)) rpc (CellString X c) req)"

definition grpc_RespondToOffer :: "'w ext \<Rightarrow> 'w deployment \<Rightarrow> string \<Rightarrow> proc
    \<Rightarrow> (string \<Rightarrow> RespondToOfferRequest \<Rightarrow> ('w cluster, RespondToOfferResponse) io)
    \<Rightarrow> RespondToOfferRequest \<Rightarrow> ('w cluster, RespondToOfferResponse) io" where
  "grpc_RespondToOffer X D a p rpc req =
     io_bind (io_try (on_shared (CurrentOfferFor X (rq_DriverId req)))) (\<lambda>r.
     case r of
       Inl e \<Rightarrow> if e = ErrOfferNotFound then io_return \<lparr>rp_Delivered = False\<rparr>
                else io_fail (Errorf ''current offer for driver'' e)
     | Inr tripID \<Rightarrow>
         io_bind (io_wrap ''get trip'' (on_shared (GetTrip X tripID))) (\<lambda>trip.
         io_bind (io_wrap ''cell for trip origin''
           (io_lift (CellFor X (OriginLat trip) (OriginLng trip) (lh_Resolution (dep_handler D))))) (\<lambda>c.
         RouteOfferResponse (dep_sum64 D) (disco_router D a p) (\<lambda>req. on_node a (HandleOfferResponse X req)) rpc
           (CellString X c) req)))"

text \<open>
  A request arriving at the address \<open>a\<close>, forwarded at most \<open>hops - 1\<close> times before the
  deadline of its context: the network takes time, so a deadline bounds the number of hops.
\<close>

fun serve_Dispatch :: "'w ext \<Rightarrow> 'w deployment \<Rightarrow> nat \<Rightarrow> nat \<Rightarrow> string \<Rightarrow> DispatchRequest \<Rightarrow> ('w cluster, DispatchResponse) io" where
  "serve_Dispatch X D ticks 0 a req = io_fail ContextDone"
| "serve_Dispatch X D ticks (Suc hops) a req = (\<lambda>C. case procs C a of
       None \<Rightarrow> io_fail (ErrorMsg ''connection refused'') C
     | Some p \<Rightarrow> grpc_Dispatch X D ticks a p (serve_Dispatch X D ticks hops) req C)"

fun serve_RespondToOffer :: "'w ext \<Rightarrow> 'w deployment \<Rightarrow> nat \<Rightarrow> string \<Rightarrow> RespondToOfferRequest \<Rightarrow> ('w cluster, RespondToOfferResponse) io" where
  "serve_RespondToOffer X D 0 a req = io_fail ContextDone"
| "serve_RespondToOffer X D (Suc hops) a req = (\<lambda>C. case procs C a of
       None \<Rightarrow> io_fail (ErrorMsg ''connection refused'') C
     | Some p \<Rightarrow> grpc_RespondToOffer X D a p (serve_RespondToOffer X D hops) req C)"

section \<open>A cluster whose directories are right\<close>

text \<open>
  Every process has joined and follows what gossip tells it, and the address it knows of a
  member is that of a process with that name. Views of different processes may differ.
\<close>

definition cluster_ok :: "'w deployment \<Rightarrow> int \<Rightarrow> string set \<Rightarrow> int \<Rightarrow> 'w cluster \<Rightarrow> bool" where
  "cluster_ok D limit N v C \<longleftrightarrow>
     finite N \<and> collision_free (dep_sum64 D) v N \<and>
     (\<forall>a p. procs C a = Some p \<longrightarrow> running (dep_sum64 D) limit N v (p_Name p) (p_Member p) \<and>
        (\<forall>n \<in> set (Members (p_Member p)). \<exists>b q. PeerGRPCAddr (p_Member p) n = (b, True) \<and>
           dep_dial D b = Inr () \<and> procs C b = Some q \<and> p_Name q = n))"

text \<open>The processes all know the same members, each under one address.\<close>

definition converged :: "'w cluster \<Rightarrow> bool" where
  "converged C \<longleftrightarrow>
     (\<forall>a b p q. procs C a = Some p \<longrightarrow> procs C b = Some q \<longrightarrow>
        set (Members (p_Member p)) = set (Members (p_Member q)) \<and> (p_Name p = p_Name q \<longrightarrow> a = b))"

definition owner_at :: "'w deployment \<Rightarrow> proc \<Rightarrow> string \<Rightarrow> string" where
  "owner_at D p key = fst (Lookup (dep_sum64 D) (mb_ring (p_Member p)) key)"

lemma cluster_okD:
  assumes "cluster_ok D limit N v C" "procs C a = Some p"
  shows "tracks (dep_sum64 D) (p_Name p) N {} (p_Member p)" "virtualNodes (mb_ring (p_Member p)) = v"
    "snd (Lookup (dep_sum64 D) (mb_ring (p_Member p)) key)" "owner_at D p key \<in> set (Members (p_Member p))"
    "set (Members (p_Member p)) \<subseteq> N" "p_Name p \<in> set (Members (p_Member p))"
proof -
  have r: "running (dep_sum64 D) limit N v (p_Name p) (p_Member p)" and c: "collision_free (dep_sum64 D) v N"
    using assms by (auto simp: cluster_ok_def)
  show "tracks (dep_sum64 D) (p_Name p) N {} (p_Member p)" "virtualNodes (mb_ring (p_Member p)) = v"
    by (rule running_tracks [OF r c])+
  then show "set (Members (p_Member p)) \<subseteq> N" "p_Name p \<in> set (Members (p_Member p))"
    by (simp_all add: tracks_def)
  show "snd (Lookup (dep_sum64 D) (mb_ring (p_Member p)) key)" "owner_at D p key \<in> set (Members (p_Member p))"
    unfolding owner_at_def by (rule follows_owner [OF running_follows [OF r c]])+
qed

lemma cluster_peer:
  assumes "cluster_ok D limit N v C" "procs C a = Some p" "n \<in> set (Members (p_Member p))"
  obtains b q where "PeerGRPCAddr (p_Member p) n = (b, True)" "dep_dial D b = Inr ()" "procs C b = Some q" "p_Name q = n"
  using assms unfolding cluster_ok_def by blast

lemma owner_at_closer:
  assumes "cluster_ok D limit N v C" "procs C a = Some p" "owner_at D p key \<noteq> p_Name p"
  shows "distance_to (dep_sum64 D) v key (owner_at D p key) < distance_to (dep_sum64 D) v key (p_Name p)"
  using owner_closest [of "dep_sum64 D" "set (Members (p_Member p))" "mb_ring (p_Member p)" "p_Name p" key]
    cluster_okD [OF assms(1,2)] assms(3) by (simp add: tracks_def owner_at_def)

lemma converged_owner:
  assumes "cluster_ok D limit N v C" "converged C" "procs C a = Some p" "procs C b = Some q"
  shows "owner_at D p key = owner_at D q key"
  using cluster_okD(1,2) [OF assms(1,3)] cluster_okD(1,2) [OF assms(1,4)] assms(2-4)
  unfolding owner_at_def tracks_def converged_def
  by (metis Diff_empty ring_over_agree)

text \<open>In a converged cluster one process owns the key, and everyone else knows its address.\<close>

lemma converged_process:
  assumes "cluster_ok D limit N v C" "converged C" "procs C a0 = Some p0"
  obtains b q where "procs C b = Some q" "owner_at D q key = p_Name q" "dep_dial D b = Inr ()"
    "\<And>a p. procs C a = Some p \<Longrightarrow> a \<noteq> b \<Longrightarrow>
       owner_at D p key \<noteq> p_Name p \<and> PeerGRPCAddr (p_Member p) (owner_at D p key) = (b, True)"
proof -
  obtain b q where b: "PeerGRPCAddr (p_Member p0) (owner_at D p0 key) = (b, True)" "dep_dial D b = Inr ()"
    "procs C b = Some q" "p_Name q = owner_at D p0 key"
    by (rule cluster_peer [OF assms(1,3) cluster_okD(4) [OF assms(1,3)]])
  have same: "owner_at D p key = p_Name q" if "procs C a = Some p" for a p
    using converged_owner [OF assms(1,2,3) that] b(4) by simp
  have "owner_at D p key \<noteq> p_Name p \<and> PeerGRPCAddr (p_Member p) (owner_at D p key) = (b, True)"
    if p: "procs C a = Some p" "a \<noteq> b" for a p
  proof -
    obtain b' q' where b': "PeerGRPCAddr (p_Member p) (owner_at D p key) = (b', True)"
      "procs C b' = Some q'" "p_Name q' = owner_at D p key"
      by (rule cluster_peer [OF assms(1) p(1) cluster_okD(4) [OF assms(1) p(1)]])
    then have "b' = b" using b(3) same [OF p(1)] assms(2) unfolding converged_def by metis
    then show ?thesis using b'(1) same [OF p(1)] assms(2) p b(3) unfolding converged_def by metis
  qed
  then show thesis using that b(2,3) same [OF b(3)] by blast
qed

text \<open>Routing at a process of such a cluster.\<close>

lemma disco_route:
  assumes "cluster_ok D limit N v C" "procs C a = Some p"
  shows "owner_at D p key = p_Name p \<Longrightarrow>
      route (dep_sum64 D) (disco_router D a p) handle rpc key req C = handle req C"
    and "owner_at D p key \<noteq> p_Name p \<Longrightarrow> PeerGRPCAddr (p_Member p) (owner_at D p key) = (b, True) \<Longrightarrow>
      dep_dial D b = Inr () \<Longrightarrow>
      route (dep_sum64 D) (disco_router D a p) handle rpc key req C = io_wrap ''router: forward to node'' (rpc b req) C"
proof -
  have L: "Lookup (dep_sum64 D) (mb_ring (p_Member p)) key = (owner_at D p key, True)"
    using cluster_okD(3) [OF assms] by (simp add: owner_at_def prod_eq_iff)
  show "owner_at D p key = p_Name p \<Longrightarrow>
      route (dep_sum64 D) (disco_router D a p) handle rpc key req C = handle req C"
    by (rule route_local) (simp add: disco_router_def L)
  show "owner_at D p key \<noteq> p_Name p \<Longrightarrow> PeerGRPCAddr (p_Member p) (owner_at D p key) = (b, True) \<Longrightarrow>
      dep_dial D b = Inr () \<Longrightarrow>
      route (dep_sum64 D) (disco_router D a p) handle rpc key req C = io_wrap ''router: forward to node'' (rpc b req) C"
    using L by (simp add: route_def disco_router_def io_bind_def io_wrap_def io_lift_def io_return_def)
qed

section \<open>A request is handled by a node that owns its cell\<close>

definition closer :: "'w deployment \<Rightarrow> string set \<Rightarrow> int \<Rightarrow> string \<Rightarrow> string \<Rightarrow> string set" where
  "closer D N v key n = {m \<in> N. distance_to (dep_sum64 D) v key m \<le> distance_to (dep_sum64 D) v key n}"

lemma closer_shrinks:
  assumes "finite N" "n \<in> N" "distance_to (dep_sum64 D) v key m < distance_to (dep_sum64 D) v key n"
  shows "card (closer D N v key m) < card (closer D N v key n)"
proof (rule psubset_card_mono)
  show "finite (closer D N v key n)" using assms(1) by (simp add: closer_def)
  have "n \<in> closer D N v key n" "n \<notin> closer D N v key m" using assms(2,3) by (auto simp: closer_def)
  moreover have "closer D N v key m \<subseteq> closer D N v key n" using assms(3) by (auto simp: closer_def)
  ultimately show "closer D N v key m \<subset> closer D N v key n" by blast
qed

abbreviation forwarded :: "nat \<Rightarrow> ('w, 'a) io \<Rightarrow> ('w, 'a) io" where
  "forwarded k \<equiv> (io_wrap ''router: forward to node'' ^^ k)"

lemma serve_step:
  assumes "CellFor X (dq_OriginLat req) (dq_OriginLng req) (lh_Resolution (dep_handler D)) = Inr c"
    and "procs C a = Some p"
  shows "serve_Dispatch X D ticks (Suc hops) a req C =
      route (dep_sum64 D) (disco_router D a p) (\<lambda>req. on_node a (Handle X (dep_handler D) ticks req))
        (serve_Dispatch X D ticks hops) (CellString X c) req C"
  by (simp add: assms grpc_Dispatch_def io_bind_def io_wrap_def io_lift_def Route_def)

text \<open>Every forward shrinks the set of nodes at most as far away, so its size bounds their number.\<close>

lemma serve_forwards:
  assumes "cluster_ok D limit N v C"
    and "CellFor X (dq_OriginLat req) (dq_OriginLng req) (lh_Resolution (dep_handler D)) = Inr c"
    and "procs C a = Some p" and "card (closer D N v (CellString X c) (p_Name p)) \<le> hops"
  shows "\<exists>b q k. procs C b = Some q \<and> owner_at D q (CellString X c) = p_Name q \<and>
     k < card (closer D N v (CellString X c) (p_Name p)) \<and>
     serve_Dispatch X D ticks hops a req C = forwarded k (on_node b (Handle X (dep_handler D) ticks req)) C"
  using assms(3,4)
proof (induction hops arbitrary: a p)
  case 0
  have f: "finite N" using assms(1) by (simp add: cluster_ok_def)
  have "p_Name p \<in> closer D N v (CellString X c) (p_Name p)"
    using cluster_okD(5,6) [OF assms(1) 0(1)] by (auto simp: closer_def)
  with 0(2) f show ?case by (auto simp: closer_def)
next
  case (Suc hops)
  let ?key = "CellString X c" and ?H = "on_node a (Handle X (dep_handler D) ticks req)"
  have f: "finite N" using assms(1) by (simp add: cluster_ok_def)
  have me: "p_Name p \<in> N" using cluster_okD(5,6) [OF assms(1) Suc.prems(1)] by blast
  have pos: "0 < card (closer D N v ?key (p_Name p))"
    using f me by (auto simp: card_gt_0_iff closer_def)
  note step = serve_step [OF assms(2) Suc.prems(1), of ticks hops]
  show ?case
  proof (cases "owner_at D p ?key = p_Name p")
    case True
    then have "serve_Dispatch X D ticks (Suc hops) a req C = forwarded 0 ?H C"
      unfolding step using disco_route(1) [OF assms(1) Suc.prems(1)] by simp
    with Suc.prems(1) True pos show ?thesis by blast
  next
    case False
    obtain b q where b: "PeerGRPCAddr (p_Member p) (owner_at D p ?key) = (b, True)" "dep_dial D b = Inr ()"
      "procs C b = Some q" "p_Name q = owner_at D p ?key"
      using cluster_peer [OF assms(1) Suc.prems(1) cluster_okD(4) [OF assms(1) Suc.prems(1)]] by blast
    have "card (closer D N v ?key (p_Name q)) < card (closer D N v ?key (p_Name p))"
      unfolding b(4) by (rule closer_shrinks [OF f me owner_at_closer [OF assms(1) Suc.prems(1) False]])
    moreover from this have "card (closer D N v ?key (p_Name q)) \<le> hops" using Suc.prems(2) by linarith
    note Suc.IH [OF b(3) this]
    ultimately obtain b' q' k where IH: "procs C b' = Some q'" "owner_at D q' ?key = p_Name q'"
      "Suc k < card (closer D N v ?key (p_Name p))"
      "serve_Dispatch X D ticks hops b req C = forwarded k (on_node b' (Handle X (dep_handler D) ticks req)) C"
      by (meson Suc_lessI less_trans_Suc not_less_eq less_le_trans)
    have "serve_Dispatch X D ticks (Suc hops) a req C = forwarded (Suc k) (on_node b' (Handle X (dep_handler D) ticks req)) C"
      unfolding step disco_route(2) [OF assms(1) Suc.prems(1) False b(1,2)]
      by (simp add: io_wrap_def IH(4) del: serve_Dispatch.simps)
    with IH(1-3) show ?thesis by blast
  qed
qed

text \<open>
  C7. No forwarding loops: however much the processes disagree about who is in the cluster,
  a request for a cell is handled, by a process that believes it owns the cell, after
  fewer forwards than there are node names; each forward only wraps the error, if there
  is one. (Each process knows itself, the addresses it knows are right and dialling works;
  no two nodes' virtual positions collide.)
\<close>

theorem Dispatch_reaches_an_owner:
  assumes "cluster_ok D limit N v C"
    and "CellFor X (dq_OriginLat req) (dq_OriginLng req) (lh_Resolution (dep_handler D)) = Inr c"
    and "procs C a = Some p" and "card N \<le> hops"
  shows "\<exists>b q k. procs C b = Some q \<and> owner_at D q (CellString X c) = p_Name q \<and> k < card N \<and>
     serve_Dispatch X D ticks hops a req C = forwarded k (on_node b (Handle X (dep_handler D) ticks req)) C"
proof -
  have "finite N" using assms(1) by (simp add: cluster_ok_def)
  then have "card (closer D N v (CellString X c) (p_Name p)) \<le> card N" by (intro card_mono) (auto simp: closer_def)
  then show ?thesis
    using serve_forwards [OF assms(1-3), of hops ticks] assms(4) by (meson less_le_trans order_trans)
qed

text \<open>
  C20. One owner, one hop: when all processes know the same members, there is one process
  that handles every request for a cell, whichever process receives it: directly when it
  is the receiver, after exactly one forward otherwise.
\<close>

theorem Dispatch_one_hop:
  assumes "cluster_ok D limit N v C" and "converged C"
    and "CellFor X (dq_OriginLat req) (dq_OriginLng req) (lh_Resolution (dep_handler D)) = Inr c"
    and "dom (procs C) \<noteq> {}"
  shows "\<exists>b \<in> dom (procs C). \<forall>a \<in> dom (procs C). \<forall>hops. serve_Dispatch X D ticks (Suc (Suc hops)) a req C =
     (if a = b then on_node b (Handle X (dep_handler D) ticks req) C
      else io_wrap ''router: forward to node'' (on_node b (Handle X (dep_handler D) ticks req)) C)"
proof -
  let ?key = "CellString X c"
  let ?H = "\<lambda>a. on_node a (Handle X (dep_handler D) ticks req)"
  obtain a0 p0 where p0: "procs C a0 = Some p0" using assms(4) by fastforce
  obtain b q where b: "procs C b = Some q" "owner_at D q ?key = p_Name q" "dep_dial D b = Inr ()"
    "\<And>a p. procs C a = Some p \<Longrightarrow> a \<noteq> b \<Longrightarrow>
       owner_at D p ?key \<noteq> p_Name p \<and> PeerGRPCAddr (p_Member p) (owner_at D p ?key) = (b, True)"
    using converged_process [OF assms(1,2) p0] by blast
  have own: "serve_Dispatch X D ticks (Suc hops) b req C = ?H b C" for hops
    using serve_step [OF assms(3) b(1), of ticks hops] disco_route(1) [OF assms(1) b(1,2)] by simp
  have "serve_Dispatch X D ticks (Suc (Suc hops)) a req C =
      (if a = b then ?H b C else io_wrap ''router: forward to node'' (?H b) C)" if a: "a \<in> dom (procs C)" for a hops
  proof (cases "a = b")
    case True
    then show ?thesis using own by simp
  next
    case False
    obtain p where p: "procs C a = Some p" using a by auto
    have ne: "owner_at D p ?key \<noteq> p_Name p" "PeerGRPCAddr (p_Member p) (owner_at D p ?key) = (b, True)"
      using b(4) [OF p False] by simp_all
    show ?thesis
      unfolding serve_step [OF assms(3) p] disco_route(2) [OF assms(1) p ne b(3)]
      using False by (simp add: io_wrap_def own del: serve_Dispatch.simps)
  qed
  then show ?thesis using b(1) by blast
qed

section \<open>Concrete clusters\<close>

definition demo_handler :: "rdb localHandler" where
  "demo_handler = \<lparr>lh_Waits = all_accept, lh_Cfg = DefaultConfig, lh_Estimator = (\<lambda>from to. Inr 0), lh_Resolution = 8\<rparr>"

definition demo_deployment :: "rdb deployment" where
  "demo_deployment = \<lparr>dep_sum64 = peer_hash, dep_handler = demo_handler, dep_dial = (\<lambda>addr. Inr ())\<rparr>"

definition demo_proc :: "string \<Rightarrow> string \<Rightarrow> gossip list \<Rightarrow> proc" where
  "demo_proc name addr evs =
     \<lparr>p_Name = name, p_Member = demo_view peer_hash name addr evs, p_Hub = NewResponseHub, p_Published = [], p_Metrics = no_metrics\<rparr>"

text \<open>Node \<open>a\<close> has heard of \<open>c\<close> only, \<open>c\<close> of both others, \<open>b\<close> of nobody.\<close>

definition split_cluster :: "rdb \<Rightarrow> rdb cluster" where
  "split_cluster d = \<lparr>shared = d, procs =
     [''addr-a'' \<mapsto> demo_proc ''a'' ''addr-a'' [Joined (demo_member ''c'' ''addr-c'')],
      ''addr-b'' \<mapsto> demo_proc ''b'' ''addr-b'' [],
      ''addr-c'' \<mapsto> demo_proc ''c'' ''addr-c'' [Joined (demo_member ''a'' ''addr-a''), Joined (demo_member ''b'' ''addr-b'')]]\<rparr>"

text \<open>Two nodes that know each other.\<close>

definition pair_cluster :: "rdb \<Rightarrow> ResponseHub \<Rightarrow> rdb cluster" where
  "pair_cluster d h = \<lparr>shared = d, procs =
     [''addr-a'' \<mapsto> demo_proc ''a'' ''addr-a'' [Joined (demo_member ''b'' ''addr-b'')],
      ''addr-b'' \<mapsto> (demo_proc ''b'' ''addr-b''
        [Joined (demo_member ''c'' ''addr-c''), Joined (demo_member ''a'' ''addr-a''), Left ''c''])\<lparr>p_Hub := h\<rparr>]\<rparr>"

lemma demo_view_list:
  "mb_list (demo_view s name addr evs) =
     mb_list (fold (notify s) evs \<lparr>mb_list = [demo_member name (NodeMeta addr 512)], mb_ring = AddNode s name (ring_New 1)\<rparr>)"
  by (simp add: demo_view_def membership_New_def demo_cfg_def demo_member_def Let_def)

lemmas demo_view_eval = demo_view_list demo_member_def NodeMeta_def Members_def PeerGRPCAddr_def

lemma split_cluster_ok: "cluster_ok demo_deployment 512 {''a'', ''b'', ''c''} 1 (split_cluster d)"
proof -
  have r: "running peer_hash 512 {''a'', ''b'', ''c''} 1 ''a'' (demo_view peer_hash ''a'' ''addr-a'' [Joined (demo_member ''c'' ''addr-c'')])"
    "running peer_hash 512 {''a'', ''b'', ''c''} 1 ''b'' (demo_view peer_hash ''b'' ''addr-b'' [])"
    "running peer_hash 512 {''a'', ''b'', ''c''} 1 ''c'' (demo_view peer_hash ''c'' ''addr-c''
       [Joined (demo_member ''a'' ''addr-a''), Joined (demo_member ''b'' ''addr-b'')])"
    by (rule demo_running; simp add: starting_def demo_cfg_def demo_member_def Members_def)+
  show ?thesis
    unfolding cluster_ok_def split_cluster_def demo_deployment_def demo_proc_def
    using r peer_hash_free by (simp add: demo_view_eval)
qed

lemma pair_cluster_ok: "cluster_ok demo_deployment 512 {''a'', ''b'', ''c''} 1 (pair_cluster d h)"
  unfolding cluster_ok_def pair_cluster_def demo_deployment_def demo_proc_def
  using demo_views peer_hash_free by (simp add: demo_view_eval)

lemma pair_cluster_converged: "converged (pair_cluster d h)"
  unfolding converged_def pair_cluster_def demo_proc_def by (auto simp: demo_view_eval)

lemma demo_cell: "CellFor mem_world (Fin 12) (Fin 77) (lh_Resolution (dep_handler demo_deployment)) = Inr 1012"
  by (simp add: CellFor_def mem_world_def demo_deployment_def demo_handler_def)

definition demo_request :: DispatchRequest where
  "demo_request = \<lparr>dq_RiderId = ''r1'', dq_OriginLat = Fin 12, dq_OriginLng = Fin 77, dq_IdempotencyKey = ''k1''\<rparr>"

lemma demo_request_cell:
  "CellFor mem_world (dq_OriginLat demo_request) (dq_OriginLng demo_request) (lh_Resolution (dep_handler demo_deployment)) = Inr 1012"
  using demo_cell by (simp add: demo_request_def)

theorem Dispatch_reaches_an_owner_witness:
  "\<exists>b q k. procs (split_cluster empty_db) b = Some q \<and> owner_at demo_deployment q (CellString mem_world 1012) = p_Name q \<and> k < 3 \<and>
     serve_Dispatch mem_world demo_deployment 5 3 ''addr-a'' demo_request (split_cluster empty_db) =
       forwarded k (on_node b (Handle mem_world demo_handler 5 demo_request)) (split_cluster empty_db)"
proof -
  have p: "procs (split_cluster empty_db) ''addr-a'' =
      Some (demo_proc ''a'' ''addr-a'' [Joined (demo_member ''c'' ''addr-c'')])" by (simp add: split_cluster_def)
  have h: "dep_handler demo_deployment = demo_handler" by (simp add: demo_deployment_def)
  have n: "card {''a'', ''b'', ''c''} = (3::nat)" by simp
  show ?thesis
    using Dispatch_reaches_an_owner [OF split_cluster_ok demo_request_cell p, of 3 5, unfolded h n] by blast
qed

theorem Dispatch_one_hop_witness:
  "\<exists>b \<in> {''addr-a'', ''addr-b''}.
     serve_Dispatch mem_world demo_deployment 5 2 ''addr-a'' demo_request (pair_cluster empty_db NewResponseHub) =
     (if ''addr-a'' = b then on_node b (Handle mem_world demo_handler 5 demo_request) (pair_cluster empty_db NewResponseHub)
      else io_wrap ''router: forward to node'' (on_node b (Handle mem_world demo_handler 5 demo_request))
        (pair_cluster empty_db NewResponseHub))"
proof -
  have d: "dom (procs (pair_cluster empty_db NewResponseHub)) = {''addr-a'', ''addr-b''}"
    by (auto simp: pair_cluster_def)
  have h: "dep_handler demo_deployment = demo_handler" by (simp add: demo_deployment_def)
  have "\<exists>b \<in> {''addr-a'', ''addr-b''}. \<forall>a \<in> {''addr-a'', ''addr-b''}. \<forall>hops.
      serve_Dispatch mem_world demo_deployment 5 (Suc (Suc hops)) a demo_request (pair_cluster empty_db NewResponseHub) =
      (if a = b then on_node b (Handle mem_world demo_handler 5 demo_request) (pair_cluster empty_db NewResponseHub)
       else io_wrap ''router: forward to node'' (on_node b (Handle mem_world demo_handler 5 demo_request))
         (pair_cluster empty_db NewResponseHub))"
    using Dispatch_one_hop [OF pair_cluster_ok pair_cluster_converged demo_request_cell,
        of empty_db NewResponseHub 5] unfolding d h by simp
  then show ?thesis unfolding numeral_2_eq_2 by blast
qed

end
