(* ===== verification/Handling.thy ===== *)
theory Handling
  imports Disco
begin

text \<open>
  What \<open>localHandler.Handle\<close> promises its callers: a response is what the trip's record says,
  and a retry never contradicts the first attempt. The exception the code has, a retry while
  the first attempt is still searching, is stated too.
\<close>

section \<open>A trip read is the trip stored\<close>

lemma trip_at_facts:
  assumes "trip_at X d t = Inr rec"
  shows "TripID rec = t" "tr_State rec = field (trip_field d t) ''state''"
    "MatchedDriverID rec = field (trip_field d t) ''matched_driver_id''"
  using assms by (auto simp: trip_at_def parseTripRecord_def split: if_splits sum.splits)

lemma trip_at_states:
  assumes "trip_at X d t = Inr rec" "tr_State rec \<noteq> ''''"
  shows "trip_state_of d t = Some (tr_State rec)"
  using trip_at_facts(2) [OF assms(1)] assms(2) by (auto simp: field_def trip_state_of_def split: option.splits)

text \<open>The stored record of a trip says what the response says.\<close>

definition says :: "rdb \<Rightarrow> DispatchResponse \<Rightarrow> bool" where
  "says d resp \<longleftrightarrow> trip_state_of d (dp_TripId resp) = Some (dp_State resp) \<and>
     field (trip_field d (dp_TripId resp)) ''matched_driver_id'' = dp_DriverId resp"

definition resolved :: "DispatchResponse \<Rightarrow> bool" where
  "resolved resp \<longleftrightarrow> dp_Matched resp = (dp_State resp = TripMatched) \<and> dp_State resp \<in> {TripMatched, TripUnfulfilled}"

lemma trip_says:
  assumes "trip_at X d t = Inr rec" "tr_State rec \<in> {TripMatched, TripUnfulfilled}"
  shows "says d (tripToResponse rec)" "resolved (tripToResponse rec)"
proof -
  have "tr_State rec \<noteq> ''''" using assms(2) by (auto simp: trip_states)
  from trip_at_states [OF assms(1) this]
  show "says d (tripToResponse rec)" "resolved (tripToResponse rec)"
    using trip_at_facts [OF assms(1)] assms(2) by (auto simp: says_def resolved_def tripToResponse_def)
qed

lemma on_world_cases: "on_world m n = (Inr x, n') \<Longrightarrow> m (world n) = (Inr x, world n')"
  using on_world_simps(3,4) [of m n] by (simp add: prod_eq_iff)

context redis_server
begin

lemma call_fields_true:
  assumes "call_fields X (HGETALL k) w = (Inr m, w')"
  shows "m = hash_field (db X w') k"
proof (cases rule: request_cases [of "server_call X (HGETALL k)" w])
  case (1 e)
  then show ?thesis using assms
    by (cases "request X (server_call X (HGETALL k)) w") (simp add: call_fields_def call_def io_bind_def)
next
  case (2 w1)
  obtain r w2 where x: "exec X (HGETALL k) w1 = (r, w2)" by (cases "exec X (HGETALL k) w1")
  have ok: "reply_ok (HGETALL k) (db X w1) r" using exec_reply [of "HGETALL k" w1] x by simp
  have d: "db X w2 = db X w1" using exec_db [of "HGETALL k" w1] x by simp
  have c: "server_call X (HGETALL k) w1 = (case r of RErr e \<Rightarrow> Inl (RedisError e) | _ \<Rightarrow> Inr r, w2)"
    by (simp add: server_call_def x)
  have w: "w' = w2" and m: "(case r of RErr e \<Rightarrow> Inl (RedisError e) | _ \<Rightarrow> Inr r) \<noteq> Inl e" "as_fields r = Inr m" for e
    using assms by (auto simp: call_fields_def call_def 2(2) c io_bind_def io_lift_def split: reply.splits)
  show ?thesis
    using ok m unfolding w d
    by (auto simp: hash_field_def as_fields_def fun_eq_iff split: option.splits rval.splits reply.splits)
qed

lemma GetTrip_true:
  assumes "GetTrip X t w = (Inr rec, w')"
  shows "trip_at X (db X w') t = Inr rec"
proof -
  obtain m where "call_fields X (HGETALL (tripKey t)) w = (Inr m, w')"
    "m \<noteq> Map.empty" "parseTripRecord X t m = Inr rec"
    using assms by (auto simp: GetTrip_def io_bind_def io_wrap_def io_lift_def split: prod.splits sum.splits if_splits)
  then show ?thesis using call_fields_true by (simp add: trip_at_def trip_field_def)
qed

lemma CreateTrip_true: "CreateTrip X rider lat lng k w = (Inr rec, w') \<Longrightarrow> trip_at X (db X w') (TripID rec) = Inr rec"
proof -
  assume "CreateTrip X rider lat lng k w = (Inr rec, w')"
  then obtain t w1 where "GetTrip X t w1 = (Inr rec, w')"
    unfolding CreateTrip_def by (cases "uuid X w") (auto elim: io_bind_cases)
  then show ?thesis using GetTrip_true [of t w1] GetTrip_id [of X t w1] by simp
qed

lemma awaitResolution_true:
  "awaitResolution X W ticks t w = (Inr rec, w') \<Longrightarrow>
     trip_at X (db X w') t = Inr rec \<and> tr_State rec \<in> {TripMatched, TripUnfulfilled}"
proof (induction ticks arbitrary: w)
  case 0
  then show ?case using GetTrip_true by (auto elim!: io_bind_cases split: if_splits)
next
  case (Suc n)
  then show ?case using GetTrip_true by (auto elim!: io_bind_cases split: if_splits prod.splits)
qed

end

context redis_server
begin

lemma GetTrip_keeps: "env_keeps I \<Longrightarrow> I (db X w) \<Longrightarrow> I (db X (snd (GetTrip X t w)))"
proof -
  assume env: "env_keeps I" and i: "I (db X w)"
  show "I (db X (snd (GetTrip X t w)))"
    unfolding GetTrip_def
  proof (rule io_bind_inv [where I = "\<lambda>w. I (db X w)"])
    show "I (db X w)" by (rule i)
    show "I (db X (snd (io_wrap s (call_fields X (HGETALL (tripKey t))) w)))" if "I (db X w)" for s w
      using call_typed_inv(2) [OF env _ that, of "HGETALL (tripKey t)"] by simp
  qed simp
qed

lemma dispatch_trip_ends:
  assumes "env_keeps (trip_unfulfilled t)" "\<And>i. env_keeps (trip_matched_with t i)" "TripID trip = t"
  shows "ends (dispatch_trip X h trip) (\<lambda>resp n. dp_TripId resp = t \<and> resolved resp \<and> says (db X (world n)) resp)"
proof -
  let ?Q = "\<lambda>resp n. dp_TripId resp = t \<and> resolved resp \<and> says (db X (world n)) resp"
  let ?get = "\<lambda>_. io_bind (io_wrap ''get trip'' (on_world (GetTrip X t))) (\<lambda>final. io_return (tripToResponse final))"
  have run: "ends (io_bind (io_wrap ''dispatch'' (Run X W cfg t c cands)) ?get) ?Q" for W cfg c cands
    unfolding ends_def
  proof (intro allI impI)
    fix n resp n' assume "io_bind (io_wrap ''dispatch'' (Run X W cfg t c cands)) ?get n = (Inr resp, n')"
    then obtain r n1 where run: "Run X W cfg t c cands n = (Inr r, n1)" and "?get r n1 = (Inr resp, n')"
      by (auto elim!: io_bind_cases simp: io_wrap_def split: prod.splits sum.splits)
    then obtain final where g: "GetTrip X t (world n1) = (Inr final, world n')" and resp: "resp = tripToResponse final"
      by (auto elim!: io_bind_cases dest!: on_world_cases simp: io_wrap_def split: prod.splits sum.splits)
    obtain matched i where r: "r = (matched, i)" by (cases r)
    have "outcome X t (map (DriverID \<circ> rc_Driver) cands) r n1"
      using Run_ends [OF assms(1,2)] run unfolding ends_def by blast
    then consider "trip_unfulfilled t (db X (world n1))" | "trip_matched_with t i (db X (world n1))"
      by (auto simp: outcome_def r split: if_splits)
    then have st: "field (trip_field (db X (world n')) t) ''state'' \<in> {TripMatched, TripUnfulfilled}"
      using GetTrip_keeps [OF assms(1), of "world n1" t] GetTrip_keeps [OF assms(2), of i "world n1" t] g
      by cases (auto simp: trip_unfulfilled_def trip_matched_with_def field_def)
    note tr = GetTrip_true [OF g]
    show "?Q resp n'"
      using trip_says [OF tr] trip_at_facts(1,2) [OF tr] st by (simp add: resp tripToResponse_def)
  qed
  show ?thesis
    unfolding dispatch_trip_def assms(3) by (rule ends_bind, rule ends_bind, rule ends_bind, rule run)
qed

end

text \<open>
  A response is the truth: it is resolved, and the trip's stored record says the same,
  whether the request made a new trip, found a resolved one or waited for another attempt.
\<close>

lemma Handle_reports_outcome:
  assumes "redis_server X env"
    and "\<forall>t d d'. env d d' \<longrightarrow> trip_unfulfilled t d \<longrightarrow> trip_unfulfilled t d'"
    and "\<forall>t i d d'. env d d' \<longrightarrow> trip_matched_with t i d \<longrightarrow> trip_matched_with t i d'"
    and "Handle X h ticks req n = (Inr resp, n')"
  shows "resolved resp \<and> says (db X (world n')) resp"
proof -
  note rs = assms(1)
  have env: "redis_server.env_keeps env (trip_unfulfilled t)" "redis_server.env_keeps env (trip_matched_with t i)" for t i
    using assms(2,3) by (auto simp: redis_server.env_keeps_def [OF rs])
  obtain trip n1 where c: "CreateTrip X (dq_RiderId req) (dq_OriginLat req) (dq_OriginLng req) (dq_IdempotencyKey req)
      (world n) = (Inr trip, world n1)"
    and rest: "(if tr_State trip = TripMatched \<or> tr_State trip = TripUnfulfilled then io_return (tripToResponse trip)
     else if tr_State trip = TripOffered then
       io_bind (on_world (awaitResolution X (lh_Waits h) ticks (TripID trip))) (\<lambda>final. io_return (tripToResponse final))
     else dispatch_trip X h trip) n1 = (Inr resp, n')"
    using assms(4) unfolding Handle_def
    by (auto elim!: io_bind_cases dest!: on_world_cases simp: io_wrap_def split: prod.splits sum.splits)
  note t = redis_server.CreateTrip_true [OF rs c]
  consider "tr_State trip = TripMatched \<or> tr_State trip = TripUnfulfilled"
    | "\<not> (tr_State trip = TripMatched \<or> tr_State trip = TripUnfulfilled)" "tr_State trip = TripOffered"
    | "\<not> (tr_State trip = TripMatched \<or> tr_State trip = TripUnfulfilled)" "tr_State trip \<noteq> TripOffered" by blast
  then show ?thesis
  proof cases
    case 1
    then show ?thesis using rest trip_says [OF t] by auto
  next
    case 2
    then obtain final where f: "awaitResolution X (lh_Waits h) ticks (TripID trip) (world n1) = (Inr final, world n')"
      and "resp = tripToResponse final"
      using rest by (auto elim!: io_bind_cases dest!: on_world_cases)
    then show ?thesis using redis_server.awaitResolution_true [OF rs f] trip_says by blast
  next
    case 3
    then show ?thesis
      using redis_server.dispatch_trip_ends [OF rs env refl, of h] rest unfolding ends_def by auto
  qed
qed

section \<open>Retries\<close>

lemma awaitResolution_quietly:
  "published (snd (on_world (awaitResolution X W ticks t) n)) = published n"
  "hub (snd (on_world (awaitResolution X W ticks t) n)) = hub n"
  by simp_all

context quiet_redis
begin

lemma CreateTrip_known:
  assumes "trip_typed (db X w)" "str_at (db X w) (idemKey k) = Some t"
  shows "fst (CreateTrip X rider lat lng k w) = trip_at X (db X w) t" "db X (snd (CreateTrip X rider lat lng k w)) = db X w"
  using CreateTrip_quiet [OF assms(1), of rider lat lng k] assms(2) by (metis option.simps(5))+

end

text \<open>
  C14. Retries: a request whose idempotency key names a trip makes no second trip. When the
  trip is resolved, it is answered from the record, whoever asks and from wherever, and
  nothing is written, published or delivered. While the trip is \<open>OFFERED\<close>, the retry waits:
  it publishes nothing, and answers with the outcome of that trip, or not at all. But while
  the first attempt is still searching, the trip is \<open>REQUESTED\<close>, and the retry starts a
  second dispatch of the same trip.
\<close>

theorem Handle_retry:
  assumes "quiet_store X" and "trip_typed (db X (world n))"
    and "str_at (db X (world n)) (idemKey (dq_IdempotencyKey req)) = Some t"
    and "trip_at X (db X (world n)) t = Inr trip"
  shows "\<exists>n1. db X (world n1) = db X (world n) \<and> published n1 = published n \<and> hub n1 = hub n \<and>
    (if tr_State trip \<in> {TripMatched, TripUnfulfilled} then Handle X h ticks req n = (Inr (tripToResponse trip), n1)
     else if tr_State trip = TripOffered then
       published (snd (Handle X h ticks req n)) = published n \<and> hub (snd (Handle X h ticks req n)) = hub n \<and>
       (\<forall>resp. fst (Handle X h ticks req n) = Inr resp \<longrightarrow> dp_TripId resp = t \<and> resolved resp)
     else Handle X h ticks req n = dispatch_trip X h trip n1)"
proof -
  have q: "quiet_redis X" using assms(1) by (simp add: quiet_store_def)
  have rs: "redis_server X (=)" by (rule quiet_redis.axioms(1) [OF q])
  let ?c = "CreateTrip X (dq_RiderId req) (dq_OriginLat req) (dq_OriginLng req) (dq_IdempotencyKey req)"
  have c: "fst (?c (world n)) = Inr trip" "db X (snd (?c (world n))) = db X (world n)"
    using quiet_redis.CreateTrip_known [OF q assms(2,3)] assms(4) by simp_all
  let ?n1 = "n\<lparr>world := snd (?c (world n))\<rparr>"
  have cw: "io_wrap s (on_world ?c) n = (Inr trip, ?n1)" for s
    using on_world_ok [where m = ?c, OF c(1)] by simp
  have id: "TripID trip = t" using trip_at_facts(1) [OF assms(4)] .
  let ?wait = "on_world (awaitResolution X (lh_Waits h) ticks t)"
  have offered: "published (snd (Handle X h ticks req n)) = published n \<and> hub (snd (Handle X h ticks req n)) = hub n \<and>
       (\<forall>resp. fst (Handle X h ticks req n) = Inr resp \<longrightarrow> dp_TripId resp = t \<and> resolved resp)"
    if st: "tr_State trip = TripOffered"
  proof -
    have H: "Handle X h ticks req n = io_bind ?wait (\<lambda>final. io_return (tripToResponse final)) ?n1"
      using st by (simp add: Handle_def cw id trip_states)
    show ?thesis
    proof (cases "?wait ?n1")
      case (Pair r n2)
      then have "published n2 = published n" "hub n2 = hub n"
        using awaitResolution_quietly [of X "lh_Waits h" ticks t ?n1] by simp_all
      moreover have "dp_TripId (tripToResponse final) = t \<and> resolved (tripToResponse final)" if "r = Inr final" for final
      proof -
        have "?wait ?n1 = (Inr final, n2)" using Pair that by simp
        from redis_server.awaitResolution_true [OF rs on_world_cases [OF this]]
        have f: "trip_at X (db X (world n2)) t = Inr final" "tr_State final \<in> {TripMatched, TripUnfulfilled}" by simp_all
        show ?thesis using trip_says(2) [OF f] trip_at_facts(1) [OF f(1)] by (simp add: tripToResponse_def)
      qed
      ultimately show ?thesis using Pair by (cases r) (simp_all add: H io_bind_def)
    qed
  qed
  show ?thesis
    by (rule exI [of _ ?n1]) (use offered in \<open>auto simp: c(2) Handle_def cw\<close>)
qed

section \<open>Concrete requests\<close>

definition demo_record_of :: "trip_state \<Rightarrow> TripRecord" where
  "demo_record_of st = \<lparr>TripID = ''t1'', RiderID = ''r1'', OriginLat = Fin 12, OriginLng = Fin 77, tr_State = st,
     IdempotencyKey = ''k1'', MatchedDriverID = '''', tr_CreatedAt = 990 * second\<rparr>"

lemma demo_retry:
  "trip_typed (db mem_world (world (demo_node st dst)))"
  "str_at (db mem_world (world (demo_node st dst))) (idemKey (dq_IdempotencyKey demo_request)) = Some ''t1''"
  "trip_at mem_world (db mem_world (world (demo_node st dst))) ''t1'' = Inr (demo_record_of st)"
proof -
  have w: "db mem_world (world (demo_node st dst)) = demo_dispatch st dst" by (simp add: mem_world_def demo_node_def)
  have "live (demo_driver ''d1'' dst) (idemKey ''k1'') = None" by (simp add: demo_driver_def)
  then have "str_at (demo_dispatch st dst) (idemKey ''k1'') = str_at (demo_trip st) (idemKey ''k1'')"
    by (simp add: demo_dispatch_def str_at_def map_add_def split: option.splits)
  then show "str_at (db mem_world (world (demo_node st dst))) (idemKey (dq_IdempotencyKey demo_request)) = Some ''t1''"
    by (simp add: w demo_request_def demo_trip_facts)
  show "trip_typed (db mem_world (world (demo_node st dst)))"
    using demo_dispatch_typed by (simp add: w dispatch_typed_def)
  show "trip_at mem_world (db mem_world (world (demo_node st dst))) ''t1'' = Inr (demo_record_of st)"
    unfolding w demo_record_of_def by (rule demo_trip_at)
qed

theorem Handle_retry_witness:
  "(\<exists>n1. world n1 = world (demo_node TripUnfulfilled DriverAvailable) \<and> published n1 = [] \<and>
      Handle mem_world demo_handler 5 demo_request (demo_node TripUnfulfilled DriverAvailable) =
        (Inr (tripToResponse (demo_record_of TripUnfulfilled)), n1)) \<and>
   (\<exists>n1. world n1 = world (demo_node TripRequested DriverAvailable) \<and>
      Handle mem_world demo_handler 5 demo_request (demo_node TripRequested DriverAvailable) =
        dispatch_trip mem_world demo_handler (demo_record_of TripRequested) n1)"
proof -
  have d: "db mem_world w = w" for w by (simp add: mem_world_def)
  have p: "published (demo_node st dst) = []" for st dst by (simp add: demo_node_def)
  have s: "tr_State (demo_record_of st) = st" for st by (simp add: demo_record_of_def)
  note H = Handle_retry [OF mem.quiet_store_axioms demo_retry]
  show ?thesis
    using H [of TripUnfulfilled DriverAvailable demo_handler 5] H [of TripRequested DriverAvailable demo_handler 5]
    unfolding d p s by (auto simp: trip_states)
qed

lemma demo_handle:
  assumes "world n = demo_dispatch TripUnfulfilled DriverAvailable"
  shows "\<exists>w. Handle mem_world demo_handler ticks demo_request n =
    (Inr (tripToResponse (demo_record_of TripUnfulfilled)), n\<lparr>world := w\<rparr>)"
proof -
  let ?c = "CreateTrip mem_world (dq_RiderId demo_request) (dq_OriginLat demo_request) (dq_OriginLng demo_request)
      (dq_IdempotencyKey demo_request)"
  have w: "world n = world (demo_node TripUnfulfilled DriverAvailable)" by (simp add: assms demo_node_def)
  have "fst (?c (world n)) = Inr (demo_record_of TripUnfulfilled)"
    using quiet_redis.CreateTrip_known(1) [OF mem.quiet_redis_axioms demo_retry(1,2)] demo_retry(3) unfolding w by simp
  from on_world_ok [where m = ?c, OF this] show ?thesis by (auto simp: Handle_def demo_record_of_def)
qed

end
