(* ===== verification/Answers.thy ===== *)
theory Answers
  imports Disco
begin

text \<open>
  The way of a driver's answer: from any node, over the node that owns the trip's cell, into
  the hub of the dispatch that waits for it.
\<close>

lemma on_shared_ok: "fst (m (shared C)) = Inr x \<Longrightarrow> on_shared m C = (Inr x, C\<lparr>shared := snd (m (shared C))\<rparr>)"
  by (simp add: on_shared_def prod_eq_iff split: prod.splits)

lemma cluster_shared [simp]: "cluster_ok D limit N v (C\<lparr>shared := w\<rparr>) = cluster_ok D limit N v C"
  by (simp add: cluster_ok_def)

text \<open>The answer an RPC carries: everything but an acceptance declines.\<close>

definition answer_of :: "RespondToOfferRequest \<Rightarrow> Response" where
  "answer_of req = (if rq_Response req = OFFER_RESPONSE_ACCEPTED then Accepted else Declined)"

text \<open>The driver \<open>i\<close> has an open offer for the trip \<open>t\<close>, whose origin lies in cell \<open>c\<close>.\<close>

definition open_for :: "'w ext \<Rightarrow> int \<Rightarrow> string \<Rightarrow> string \<Rightarrow> cell \<Rightarrow> rdb \<Rightarrow> bool" where
  "open_for X res i t c d \<longleftrightarrow> offer_typed d \<and> trip_typed d \<and> offered_to d i = Some t \<and>
     (\<exists>trip. trip_at X d t = Inr trip \<and> CellFor X (OriginLat trip) (OriginLng trip) res = Inr c)"

text \<open>The hub of the process at \<open>b\<close> was given the answer, and nothing else changed.\<close>

definition answered :: "'w ext \<Rightarrow> string \<Rightarrow> string \<Rightarrow> Response \<Rightarrow> 'w cluster \<Rightarrow> 'w cluster \<Rightarrow> bool" where
  "answered X b t resp C C' \<longleftrightarrow> db X (shared C') = db X (shared C) \<and>
     (\<exists>q. procs C b = Some q \<and> procs C' = (procs C)(b \<mapsto> q\<lparr>p_Hub := snd (Respond t resp (p_Hub q))\<rparr>))"

context quiet_redis
begin

lemma HandleOfferResponse_run:
  assumes "offer_typed (db X (shared C))" "offered_to (db X (shared C)) (rq_DriverId req) = Some t" "procs C b = Some q"
  obtains C' where "on_node b (HandleOfferResponse X req) C =
      (Inr \<lparr>rp_Delivered = fst (Respond t (answer_of req) (p_Hub q))\<rparr>, C')" "answered X b t (answer_of req) C C'"
proof -
  let ?n = "node_at C q" and ?m = "CurrentOfferFor X (rq_DriverId req)"
  have f: "fst (?m (shared C)) = Inr t" "db X (snd (?m (shared C))) = db X (shared C)"
    using CurrentOfferFor_quiet [OF assms(1), of "rq_DriverId req"] assms(2) by simp_all
  have n: "world ?n = shared C" "hub ?n = p_Hub q" "published ?n = p_Published q" "metrics ?n = p_Metrics q" by (simp_all add: node_at_def)
  obtain ok hb where r: "Respond t (answer_of req) (p_Hub q) = (ok, hb)" by (cases "Respond t (answer_of req) (p_Hub q)")
  have "HandleOfferResponse X req ?n = (Inr \<lparr>rp_Delivered = ok\<rparr>, ?n\<lparr>world := snd (?m (shared C)), hub := hb\<rparr>)"
    using on_world_ok [where m = ?m and n = ?n and x = t] f(1) r
    by (simp add: HandleOfferResponse_def n io_bind_def io_try_def hub_respond_def answer_of_def)
  then show thesis
    by (intro that) (auto simp: on_node_def assms(3) r answered_def f(2) n)
qed

lemma RespondToOffer_step:
  assumes "open_for X (lh_Resolution (dep_handler D)) (rq_DriverId req) t c (db X (shared C))" "procs C a = Some p"
  obtains w where "db X w = db X (shared C)"
    "serve_RespondToOffer X D (Suc hops) a req C =
       route (dep_sum64 D) (disco_router D a p) (\<lambda>req. on_node a (HandleOfferResponse X req))
         (serve_RespondToOffer X D hops) (CellString X c) req (C\<lparr>shared := w\<rparr>)"
proof -
  let ?m = "CurrentOfferFor X (rq_DriverId req)" and ?g = "GetTrip X t"
  obtain trip where ty: "offer_typed (db X (shared C))" "trip_typed (db X (shared C))"
    and o: "offered_to (db X (shared C)) (rq_DriverId req) = Some t" and trip: "trip_at X (db X (shared C)) t = Inr trip"
    and c: "CellFor X (OriginLat trip) (OriginLng trip) (lh_Resolution (dep_handler D)) = Inr c"
    using assms(1) by (auto simp: open_for_def)
  let ?w1 = "snd (?m (shared C))"
  have f: "fst (?m (shared C)) = Inr t" "db X ?w1 = db X (shared C)"
    using CurrentOfferFor_quiet [OF ty(1), of "rq_DriverId req"] o by simp_all
  have g: "fst (?g ?w1) = Inr trip" "db X (snd (?g ?w1)) = db X (shared C)"
    using GetTrip_quiet [of ?w1 t] ty(2) trip f(2) by simp_all
  have m: "on_shared ?m C = (Inr t, C\<lparr>shared := ?w1\<rparr>)" using f(1) by (rule on_shared_ok)
  have m': "on_shared ?g (C\<lparr>shared := ?w1\<rparr>) = (Inr trip, C\<lparr>shared := snd (?g ?w1)\<rparr>)"
    using on_shared_ok [where m = ?g and C = "C\<lparr>shared := ?w1\<rparr>"] g(1) by simp
  show thesis
    by (rule that [OF g(2)])
      (simp add: assms(2) grpc_RespondToOffer_def io_try_def m m' c io_bind_def io_wrap_def io_lift_def RouteOfferResponse_def)
qed

end

text \<open>
  At the owner of the trip's cell the answer reaches the hub; another process forwards it there.
  \<open>own\<close> and \<open>other\<close> are the two cases of \<open>converged_process\<close>.
\<close>

definition heard_by :: "'w ext \<Rightarrow> string \<Rightarrow> proc \<Rightarrow> string \<Rightarrow> RespondToOfferRequest \<Rightarrow> 'w cluster \<Rightarrow>
    RespondToOfferResponse result \<times> 'w cluster \<Rightarrow> bool" where
  "heard_by X b q t req C r \<longleftrightarrow>
     fst r = Inr \<lparr>rp_Delivered = (p_Hub q t = Some None)\<rparr> \<and> answered X b t (answer_of req) C (snd r)"

context quiet_redis
begin

lemma owner_hears:
  assumes "cluster_ok D limit N v C" "procs C b = Some q" "owner_at D q (CellString X c) = p_Name q"
    and "open_for X (lh_Resolution (dep_handler D)) (rq_DriverId req) t c (db X (shared C))" "db X w1 = db X (shared C)"
  shows "heard_by X b q t req C (serve_RespondToOffer X D (Suc hops) b req (C\<lparr>shared := w1\<rparr>))"
proof -
  let ?C1 = "C\<lparr>shared := w1\<rparr>"
  have s1: "open_for X (lh_Resolution (dep_handler D)) (rq_DriverId req) t c (db X (shared ?C1))"
    "procs ?C1 b = Some q" "cluster_ok D limit N v (C\<lparr>shared := w\<rparr>)" "procs (C\<lparr>shared := w\<rparr>) b = Some q" for w
    using assms by simp_all
  obtain w where w: "db X w = db X (shared ?C1)" "serve_RespondToOffer X D (Suc hops) b req ?C1 =
     route (dep_sum64 D) (disco_router D b q) (\<lambda>req. on_node b (HandleOfferResponse X req))
       (serve_RespondToOffer X D hops) (CellString X c) req (?C1\<lparr>shared := w\<rparr>)"
    by (rule RespondToOffer_step [OF s1(1,2), of hops])
  let ?C2 = "?C1\<lparr>shared := w\<rparr>"
  have t2: "offer_typed (db X (shared ?C2))" "offered_to (db X (shared ?C2)) (rq_DriverId req) = Some t" "procs ?C2 b = Some q"
    using assms(4) w(1) s1(2) by (auto simp: open_for_def assms(5))
  obtain C' where C': "on_node b (HandleOfferResponse X req) ?C2 =
      (Inr \<lparr>rp_Delivered = fst (Respond t (answer_of req) (p_Hub q))\<rparr>, C')" "answered X b t (answer_of req) ?C2 C'"
    by (rule HandleOfferResponse_run [OF t2])
  have "fst (Respond t r (p_Hub q)) = (p_Hub q t = Some None)" for r by (simp add: Respond_def split: option.splits)
  moreover have "answered X b t (answer_of req) C C'" using C'(2) w(1) assms(5) by (simp add: answered_def)
  ultimately show ?thesis
    using C'(1) by (simp add: heard_by_def w(2) disco_route(1) [OF s1(3,4) assms(3)] del: serve_RespondToOffer.simps)
qed

lemma other_forwards:
  assumes "cluster_ok D limit N v C" "procs C a = Some p" "dep_dial D b = Inr ()"
    and "owner_at D p (CellString X c) \<noteq> p_Name p" "PeerGRPCAddr (p_Member p) (owner_at D p (CellString X c)) = (b, True)"
    and "open_for X (lh_Resolution (dep_handler D)) (rq_DriverId req) t c (db X (shared C))"
    and hears: "\<And>w. db X w = db X (shared C) \<Longrightarrow> heard_by X b q t req C (serve_RespondToOffer X D (Suc hops) b req (C\<lparr>shared := w\<rparr>))"
  shows "heard_by X b q t req C (serve_RespondToOffer X D (Suc (Suc hops)) a req C)"
proof -
  obtain w where w: "db X w = db X (shared C)" "serve_RespondToOffer X D (Suc (Suc hops)) a req C =
     route (dep_sum64 D) (disco_router D a p) (\<lambda>req. on_node a (HandleOfferResponse X req))
       (serve_RespondToOffer X D (Suc hops)) (CellString X c) req (C\<lparr>shared := w\<rparr>)"
    by (rule RespondToOffer_step [OF assms(6,2), of "Suc hops"])
  let ?C1 = "C\<lparr>shared := w\<rparr>"
  have c1: "cluster_ok D limit N v ?C1" "procs ?C1 a = Some p" using assms(1,2) by simp_all
  obtain C' where "serve_RespondToOffer X D (Suc hops) b req ?C1 = (Inr \<lparr>rp_Delivered = (p_Hub q t = Some None)\<rparr>, C')"
    "answered X b t (answer_of req) C C'" using hears [OF w(1)] unfolding heard_by_def by (metis prod.collapse)
  then show ?thesis
    by (simp add: heard_by_def w(2) disco_route(2) [OF c1 assms(4,5,3)] io_wrap_def del: serve_RespondToOffer.simps)
qed

end

text \<open>
  C8. Answers find their dispatch: when all processes know the same members, a driver's
  answer reaches the hub of the one process that owns the cell of the trip offered to the
  driver, whichever process receives it; it is reported as delivered exactly if a dispatch
  of that trip waits there and has no answer yet, and nothing else changes. So the answer
  to an offer made by a process that does not own the cell is never delivered.
\<close>

theorem RespondToOffer_delivered:
  assumes "quiet_redis X" and "cluster_ok D limit N v C" and "converged C" and "procs C a0 \<noteq> None"
    and "open_for X (lh_Resolution (dep_handler D)) (rq_DriverId req) t c (db X (shared C))"
  shows "\<exists>b q. procs C b = Some q \<and> owner_at D q (CellString X c) = p_Name q \<and>
     (\<forall>a \<in> dom (procs C). \<forall>hops. \<exists>C'.
        serve_RespondToOffer X D (Suc (Suc hops)) a req C = (Inr \<lparr>rp_Delivered = (p_Hub q t = Some None)\<rparr>, C') \<and>
        answered X b t (answer_of req) C C')"
proof -
  obtain p0 where p0: "procs C a0 = Some p0" using assms(4) by blast
  obtain b q where b: "procs C b = Some q" "owner_at D q (CellString X c) = p_Name q" "dep_dial D b = Inr ()"
    "\<And>a p. procs C a = Some p \<Longrightarrow> a \<noteq> b \<Longrightarrow> owner_at D p (CellString X c) \<noteq> p_Name p \<and>
       PeerGRPCAddr (p_Member p) (owner_at D p (CellString X c)) = (b, True)"
    using converged_process [OF assms(2,3) p0] by blast
  note own = quiet_redis.owner_hears [OF assms(1,2) b(1,2) assms(5)]
  have "heard_by X b q t req C (serve_RespondToOffer X D (Suc (Suc hops)) a req C)" if a: "a \<in> dom (procs C)" for a hops
  proof (cases "a = b")
    case True
    then show ?thesis using own [of "shared C" "Suc hops"] by simp
  next
    case False
    obtain p where p: "procs C a = Some p" using a by auto
    show ?thesis
      using b(4) [OF p False] by (intro quiet_redis.other_forwards [OF assms(1,2) p b(3) _ _ assms(5) own]) simp_all
  qed
  then show ?thesis using b(1,2) unfolding heard_by_def by (metis prod.collapse)
qed

text \<open>Node \<open>b\<close> waits for an answer about trip \<open>t1\<close>, offered to driver \<open>d1\<close>; node \<open>a\<close> is asked.\<close>

definition demo_open :: rdb where
  "demo_open = \<lparr>rnow = 1000 * second, live = live (demo_offer OfferPending) ++ live (demo_trip TripOffered)\<rparr>"

lemma demo_open_for: "open_for mem_world 8 ''d1'' ''t1'' 1012 demo_open"
proof -
  have k: "live (demo_offer st) (tripKey t) = None" "live (demo_offer st) (idemKey t) = None"
    "live (demo_offer st) offeredTripsKey = None"
    "live (demo_trip tst) (offerKey t) = None" "live (demo_trip tst) (driverOfferKey t) = None" for st tst t
    by (simp_all add: demo_offer_def demo_trip_def)
  have l: "live demo_open (tripKey t) = live (demo_trip TripOffered) (tripKey t)"
    "live demo_open (idemKey t) = live (demo_trip TripOffered) (idemKey t)"
    "live demo_open offeredTripsKey = live (demo_trip TripOffered) offeredTripsKey"
    "live demo_open (offerKey t) = live (demo_offer OfferPending) (offerKey t)"
    "live demo_open (driverOfferKey t) = live (demo_offer OfferPending) (driverOfferKey t)" for t
    by (simp_all add: demo_open_def map_add_def k split: option.splits)
  have f: "trip_field demo_open ''t1'' = trip_field (demo_dispatch TripOffered DriverAvailable) ''t1''"
    "trip_typed demo_open" "offer_typed demo_open" "offered_to demo_open ''d1'' = Some ''t1''"
    using demo_trip_facts(1) [of TripOffered] demo_offer_facts [of OfferPending]
    by (simp_all add: trip_field_def hash_field_def l trip_typed_def offer_typed_def offered_to_def str_at_def demo_dispatch_live fun_eq_iff)
  have "trip_at mem_world demo_open ''t1'' = trip_at mem_world (demo_dispatch TripOffered DriverAvailable) ''t1''"
    by (simp add: trip_at_def f(1))
  then show ?thesis
    using f demo_trip_at [of TripOffered DriverAvailable] by (simp add: open_for_def CellFor_def mem_world_def)
qed

lemma demo_key: "hashKey peer_hash (CellString mem_world 1012) = 15"
proof -
  have "CellString mem_world 1012 = ''1012''" by (simp add: mem_world_def mem_cell_name_def, code_simp)
  then show ?thesis by (simp add: hashKey_def peer_hash_def)
qed

lemma demo_distance:
  assumes "hashKey peer_hash key = 15"
  shows "distance_to peer_hash 1 key ''a'' = 10 + 2 ^ 64" "distance_to peer_hash 1 key ''b'' = 20"
  by (simp_all add: distance_to_def assms turn_def)

lemma pair_members: "procs (pair_cluster d h) x = Some p \<Longrightarrow> set (Members (p_Member p)) = {''a'', ''b''}"
proof -
  assume "procs (pair_cluster d h) x = Some p"
  then have "p_Member p = demo_view peer_hash ''a'' ''addr-a'' [Joined (demo_member ''b'' ''addr-b'')] \<or>
      p_Member p = demo_view peer_hash ''b'' ''addr-b''
        [Joined (demo_member ''c'' ''addr-c''), Joined (demo_member ''a'' ''addr-a''), Left ''c'']"
    by (cases "x = ''addr-a''"; cases "x = ''addr-b''") (auto simp: pair_cluster_def demo_proc_def)
  then show ?thesis by (elim disjE) (simp_all only: demo_members)
qed

lemma pair_owner:
  assumes p: "procs (pair_cluster d h) x = Some p" and k: "hashKey peer_hash key = 15"
  shows "owner_at demo_deployment p key = ''b''"
proof (rule ccontr)
  assume ne: "owner_at demo_deployment p key \<noteq> ''b''"
  have s: "dep_sum64 demo_deployment = peer_hash" by (simp add: demo_deployment_def)
  have "owner_at demo_deployment p key = ''a''"
    using cluster_okD(4) [OF pair_cluster_ok p, of key] pair_members [OF p] ne by simp
  then have l: "fst (Lookup peer_hash (mb_ring (p_Member p)) key) = ''a''" by (simp add: owner_at_def s)
  note t = cluster_okD(1,2) [OF pair_cluster_ok p, unfolded s]
  have r: "ring_over peer_hash {''a'', ''b''} (mb_ring (p_Member p))"
    using t(1) pair_members [OF p] by (simp add: tracks_def)
  show False
    using owner_closest [OF r, of "''b''" key] unfolding l t(2) by (simp add: demo_distance [OF k])
qed

theorem RespondToOffer_delivered_witness:
  "\<exists>C'. serve_RespondToOffer mem_world demo_deployment 2 ''addr-a'' \<lparr>rq_DriverId = ''d1'', rq_Response = OFFER_RESPONSE_ACCEPTED\<rparr>
       (pair_cluster demo_open [''t1'' \<mapsto> None]) = (Inr \<lparr>rp_Delivered = True\<rparr>, C') \<and>
     answered mem_world ''addr-b'' ''t1'' Accepted (pair_cluster demo_open [''t1'' \<mapsto> None]) C'"
proof -
  let ?C = "pair_cluster demo_open [''t1'' \<mapsto> None]"
  let ?r = "\<lparr>rq_DriverId = ''d1'', rq_Response = OFFER_RESPONSE_ACCEPTED\<rparr>"
  have o: "open_for mem_world (lh_Resolution (dep_handler demo_deployment)) (rq_DriverId ?r) ''t1'' 1012 (db mem_world (shared ?C))"
    using demo_open_for by (simp add: demo_deployment_def demo_handler_def mem_world_def pair_cluster_def)
  have a: "procs ?C ''addr-a'' \<noteq> None" by (simp add: pair_cluster_def)
  have ans: "answer_of ?r = Accepted" by (simp add: answer_of_def)
  obtain b q where b: "procs ?C b = Some q" "owner_at demo_deployment q (CellString mem_world 1012) = p_Name q"
    "\<forall>a \<in> dom (procs ?C). \<forall>hops. \<exists>C'. serve_RespondToOffer mem_world demo_deployment (Suc (Suc hops)) a ?r ?C =
        (Inr \<lparr>rp_Delivered = (p_Hub q ''t1'' = Some None)\<rparr>, C') \<and> answered mem_world b ''t1'' Accepted ?C C'"
    using RespondToOffer_delivered [OF mem.quiet_redis_axioms pair_cluster_ok pair_cluster_converged a o, unfolded ans] by blast
  have "p_Name q = ''b''" using pair_owner [OF b(1) demo_key] b(2) by simp
  then have q: "b = ''addr-b''" "p_Hub q ''t1'' = Some None"
    using b(1) by (auto simp: pair_cluster_def demo_proc_def split: if_splits)
  have "''addr-a'' \<in> dom (procs ?C)" using a by blast
  from b(3) [rule_format, OF this, of 0] show ?thesis unfolding q numeral_2_eq_2 by simp
qed

end
