(* ===== verification/Services.thy ===== *)
theory Services
  imports Handling Answers
begin

text \<open>
  \<open>cmd/demand\<close> and \<open>cmd/supply\<close>: the HTTP handlers riders and drivers call. JSON and the
  HTTP server are the standard library's; a handler gets the decoded body, or nothing when
  decoding fails, and answers with a status and a value. The gRPC client is a parameter,
  instantiated by the cluster of theory \<open>Disco\<close> for the end-to-end property.
\<close>

section \<open>HTTP\<close>

datatype 'a body = NoBody | ErrorText string | ErrorBody go_error | JSON 'a

record 'a http =
  status :: int
  body :: "'a body"

definition answer :: "int \<Rightarrow> 'a body \<Rightarrow> ('s, 'a http) io" where
  "answer code b = io_return \<lparr>status = code, body = b\<rparr>"

section \<open>Demand\<close>

record tripRequest =
  tq_RiderID :: string
  tq_Lat :: f64
  tq_Lng :: f64

record tripResponse =
  tp_TripID :: string
  tp_Matched :: bool
  tp_DriverID :: string
  tp_State :: string

definition handleCreateTrip :: "(DispatchRequest \<Rightarrow> ('s, DispatchResponse) io) \<Rightarrow> string \<Rightarrow> tripRequest option
    \<Rightarrow> ('s, tripResponse http) io" where
  "handleCreateTrip Dispatch idempotency_header decoded =
     (if idempotency_header = [] then answer 400 (ErrorText ''missing Idempotency-Key header'')
      else case decoded of
        None \<Rightarrow> answer 400 (ErrorText ''invalid body'')
      | Some req \<Rightarrow>
          if tq_RiderID req = [] then answer 400 (ErrorText ''rider_id is required'')
          else io_bind (io_try (Dispatch \<lparr>dq_RiderId = tq_RiderID req, dq_OriginLat = tq_Lat req,
                 dq_OriginLng = tq_Lng req, dq_IdempotencyKey = idempotency_header\<rparr>)) (\<lambda>r.
               case r of
                 Inl e \<Rightarrow> answer 502 (ErrorBody e)
               | Inr resp \<Rightarrow> answer 200 (JSON \<lparr>tp_TripID = dp_TripId resp, tp_Matched = dp_Matched resp,
                   tp_DriverID = dp_DriverId resp, tp_State = dp_State resp\<rparr>)))"

section \<open>Supply\<close>

record locationRequest =
  lq_Lat :: f64
  lq_Lng :: f64

text \<open>The ping's event goes to the driver store's publisher; it is returned beside the answer.\<close>

definition handleLocation :: "'w ext \<Rightarrow> int \<Rightarrow> string \<Rightarrow> locationRequest option \<Rightarrow> ('w, unit http \<times> event list) io" where
  "handleLocation X res driverID decoded =
     (case decoded of
        None \<Rightarrow> io_return (\<lparr>status = 400, body = ErrorText ''invalid body''\<rparr>, [])
      | Some req \<Rightarrow>
          io_bind (io_try (UpdateLocation X res driverID (lq_Lat req) (lq_Lng req))) (\<lambda>r.
          case r of
            Inl e \<Rightarrow> io_return (\<lparr>status = 500, body = ErrorBody e\<rparr>, [])
          | Inr ev \<Rightarrow> io_return (\<lparr>status = 204, body = NoBody\<rparr>, [ev])))"

definition handleGetOffer :: "'w ext \<Rightarrow> string \<Rightarrow> ('w, string http) io" where
  "handleGetOffer X driverID =
     io_bind (io_try (CurrentOfferFor X driverID)) (\<lambda>r.
     case r of
       Inl e \<Rightarrow> if e = ErrOfferNotFound then answer 204 NoBody else answer 500 (ErrorBody e)
     | Inr tripID \<Rightarrow> answer 200 (JSON tripID))"

definition handleRespondOffer :: "(RespondToOfferRequest \<Rightarrow> ('s, RespondToOfferResponse) io) \<Rightarrow> string \<Rightarrow> string option
    \<Rightarrow> ('s, bool http) io" where
  "handleRespondOffer RespondToOffer driverID decoded =
     (case decoded of
        None \<Rightarrow> answer 400 (ErrorText ''invalid body'')
      | Some response \<Rightarrow>
          io_bind (io_try (RespondToOffer \<lparr>rq_DriverId = driverID,
            rq_Response = (if response = ''ACCEPTED'' then OFFER_RESPONSE_ACCEPTED else OFFER_RESPONSE_DECLINED)\<rparr>)) (\<lambda>r.
          case r of
            Inl e \<Rightarrow> answer 502 (ErrorBody e)
          | Inr resp \<Rightarrow> answer 200 (JSON (rp_Delivered resp))))"

section \<open>A rider's request, end to end\<close>

lemma on_node_cases:
  assumes "on_node b m C = (Inr x, C')"
  obtains p n where "procs C b = Some p" "m (node_at C p) = (Inr x, n)" "shared C' = world n"
proof -
  obtain p where p: "procs C b = Some p" using assms by (auto simp: on_node_def split: option.splits)
  obtain r n where n: "m (node_at C p) = (r, n)" by (cases "m (node_at C p)")
  with p assms that show thesis by (auto simp: on_node_def)
qed

lemma route_cases:
  assumes "route s r handle rpc c req w = (Inr x, w')"
  shows "handle req w = (Inr x, w') \<or> (\<exists>conn w1. rpc conn req w1 = (Inr x, w'))"
  using assms
  by (auto simp: route_def io_wrap_def split: prod.splits if_splits sum.splits elim!: io_bind_cases)

lemma serve_Dispatch_result:
  assumes P: "\<And>n resp n'. Handle X (dep_handler D) ticks req n = (Inr resp, n') \<Longrightarrow> P resp (world n')"
  shows "serve_Dispatch X D ticks hops a req C = (Inr resp, C') \<Longrightarrow> P resp (shared C')"
proof (induction hops arbitrary: a C)
  case (Suc hops)
  then obtain p where p: "procs C a = Some p" by (auto split: option.splits)
  then obtain c C1 where "route (dep_sum64 D) (disco_router D a p) (\<lambda>req. on_node a (Handle X (dep_handler D) ticks req))
        (serve_Dispatch X D ticks hops) c req C1 = (Inr resp, C')"
    using Suc.prems by (auto simp: grpc_Dispatch_def Route_def elim!: io_bind_cases)
  from route_cases [OF this] show ?case
  proof
    assume "on_node a (Handle X (dep_handler D) ticks req) C1 = (Inr resp, C')"
    then show ?thesis using P by (auto elim!: on_node_cases)
  qed (use Suc.IH in blast)
qed simp

text \<open>
  C1. A rider is told the truth: \<open>POST /trips\<close> answers 400 exactly when the key or the
  rider is missing or the body does not decode, and then nothing happens; otherwise the matcher is
  called once, with the request, and the answer is 502 with its error if it fails, or 200 with
  the trip it returned, which is \<open>MATCHED\<close> (with its driver) or
  \<open>UNFULFILLED\<close>, and the trip's stored record says the same. This holds whichever process
  is asked, however often the request is forwarded, with messages lost and other clients
  acting in between, as long as they respect outcomes.
\<close>

theorem trip_request_answered:
  assumes "redis_server X env"
    and "\<forall>t d d'. env d d' \<longrightarrow> trip_unfulfilled t d \<longrightarrow> trip_unfulfilled t d'"
    and "\<forall>t i d d'. env d d' \<longrightarrow> trip_matched_with t i d \<longrightarrow> trip_matched_with t i d'"
  shows "\<exists>r C'. handleCreateTrip (serve_Dispatch X D ticks hops a) key decoded C = (Inr r, C') \<and>
    (case decoded of
       None \<Rightarrow> status r = 400 \<and> C' = C
     | Some req \<Rightarrow>
         if key = [] \<or> tq_RiderID req = [] then status r = 400 \<and> C' = C
         else case serve_Dispatch X D ticks hops a \<lparr>dq_RiderId = tq_RiderID req, dq_OriginLat = tq_Lat req,
                 dq_OriginLng = tq_Lng req, dq_IdempotencyKey = key\<rparr> C of
             (Inl e, C1) \<Rightarrow> r = \<lparr>status = 502, body = ErrorBody e\<rparr> \<and> C' = C1
           | (Inr resp, C1) \<Rightarrow> C' = C1 \<and> status r = 200 \<and> (\<exists>v. body r = JSON v \<and> tp_TripID v = dp_TripId resp \<and>
                tp_Matched v = (tp_State v = TripMatched) \<and> tp_State v \<in> {TripMatched, TripUnfulfilled} \<and>
                trip_state_of (db X (shared C')) (tp_TripID v) = Some (tp_State v) \<and>
                field (trip_field (db X (shared C')) (tp_TripID v)) ''matched_driver_id'' = tp_DriverID v))"
proof (cases decoded)
  case None
  then show ?thesis by (simp add: handleCreateTrip_def answer_def)
next
  case (Some req)
  let ?rpc = "serve_Dispatch X D ticks hops a \<lparr>dq_RiderId = tq_RiderID req, dq_OriginLat = tq_Lat req,
      dq_OriginLng = tq_Lng req, dq_IdempotencyKey = key\<rparr>"
  have truth: "resolved resp \<and> says (db X (shared C')) resp" if "?rpc C = (Inr resp, C')" for resp C'
    by (rule serve_Dispatch_result [OF _ that, where P = "\<lambda>resp w. resolved resp \<and> says (db X w) resp"])
      (rule Handle_reports_outcome [OF assms])
  obtain r C' where r: "?rpc C = (r, C')" by (cases "?rpc C")
  show ?thesis
  proof (cases r)
    case (Inl e)
    then show ?thesis using r Some by (simp add: handleCreateTrip_def answer_def io_try_def io_bind_def)
  next
    case (Inr resp)
    then show ?thesis using r Some truth [of resp C']
      by (simp add: handleCreateTrip_def answer_def io_try_def io_bind_def resolved_def says_def)
  qed
qed

theorem trip_request_answered_witness:
  "(\<exists>C'. handleCreateTrip (serve_Dispatch mem_world demo_deployment 5 1 ''addr-b'') ''k1''
       (Some \<lparr>tq_RiderID = ''r1'', tq_Lat = Fin 12, tq_Lng = Fin 77\<rparr>)
       (pair_cluster (demo_dispatch TripUnfulfilled DriverAvailable) NewResponseHub) =
     (Inr \<lparr>status = 200, body = JSON \<lparr>tp_TripID = ''t1'', tp_Matched = False, tp_DriverID = [], tp_State = TripUnfulfilled\<rparr>\<rparr>, C') \<and>
     trip_state_of (shared C') ''t1'' = Some TripUnfulfilled) \<and>
   (\<exists>C'. handleCreateTrip (serve_Dispatch mem_world demo_deployment 5 1 ''addr-x'') ''k1''
       (Some \<lparr>tq_RiderID = ''r1'', tq_Lat = Fin 12, tq_Lng = Fin 77\<rparr>)
       (pair_cluster (demo_dispatch TripUnfulfilled DriverAvailable) NewResponseHub) =
     (Inr \<lparr>status = 502, body = ErrorBody (ErrorMsg ''connection refused'')\<rparr>, C'))"
proof -
  let ?C = "pair_cluster (demo_dispatch TripUnfulfilled DriverAvailable) NewResponseHub"
  let ?req = "\<lparr>tq_RiderID = ''r1'', tq_Lat = Fin 12, tq_Lng = Fin 77\<rparr>"
  have e: "redis_server mem_world (=)" by (rule quiet_redis.axioms(1) [OF mem.quiet_redis_axioms])
  obtain q where q: "procs ?C ''addr-b'' = Some q" "p_Name q = ''b''" by (simp add: pair_cluster_def demo_proc_def)
  have o: "owner_at demo_deployment q (CellString mem_world 1012) = p_Name q"
    using pair_owner [OF q(1) demo_key] q(2) by simp
  have "world (node_at ?C q) = demo_dispatch TripUnfulfilled DriverAvailable" by (simp add: node_at_def pair_cluster_def)
  from demo_handle [OF this, of 5] obtain w where
    "Handle mem_world demo_handler 5 demo_request (node_at ?C q) =
      (Inr (tripToResponse (demo_record_of TripUnfulfilled)), (node_at ?C q)\<lparr>world := w\<rparr>)" by blast
  then obtain C' where disp: "serve_Dispatch mem_world demo_deployment 5 (Suc 0) ''addr-b'' demo_request ?C =
      (Inr (tripToResponse (demo_record_of TripUnfulfilled)), C')"
    unfolding serve_step [OF demo_request_cell q(1)] disco_route(1) [OF pair_cluster_ok q(1) o]
    by (simp add: on_node_def q(1) demo_deployment_def)
  then have r: "handleCreateTrip (serve_Dispatch mem_world demo_deployment 5 1 ''addr-b'') ''k1'' (Some ?req) ?C =
      (Inr \<lparr>status = 200, body = JSON \<lparr>tp_TripID = ''t1'', tp_Matched = False, tp_DriverID = [], tp_State = TripUnfulfilled\<rparr>\<rparr>, C')"
    by (simp add: handleCreateTrip_def answer_def io_try_def io_bind_def demo_request_def tripToResponse_def
        demo_record_of_def trip_states del: serve_Dispatch.simps)
  have d: "db mem_world w = w" for w by (simp add: mem_world_def)
  have "procs ?C ''addr-x'' = None" by (simp add: pair_cluster_def)
  then have "serve_Dispatch mem_world demo_deployment 5 (Suc 0) ''addr-x'' demo_request ?C = (Inl (ErrorMsg ''connection refused''), ?C)"
    by (simp add: io_fail_def)
  then have "\<exists>C'. handleCreateTrip (serve_Dispatch mem_world demo_deployment 5 1 ''addr-x'') ''k1'' (Some ?req) ?C =
      (Inr \<lparr>status = 502, body = ErrorBody (ErrorMsg ''connection refused'')\<rparr>, C')"
    using trip_request_answered [OF e, of demo_deployment 5 1 "''addr-x''" "''k1''" "Some ?req" ?C]
    by (simp add: demo_request_def del: serve_Dispatch.simps)
  moreover have "trip_state_of (shared C') ''t1'' = Some TripUnfulfilled"
    using trip_request_answered [OF e, of demo_deployment 5 1 "''addr-b''" "''k1''" "Some ?req" ?C] r disp
    by (simp add: demo_request_def d tripToResponse_def demo_record_of_def del: serve_Dispatch.simps)
  ultimately show ?thesis using r by blast
qed

end
