(* ===== verification/SurgeService.thy ===== *)
theory SurgeService
  imports OfferStore Surge Events
begin

text \<open>
  \<open>cmd/surge\<close>: the service that feeds the aggregator from Kafka and writes the multipliers
  to Redis every five seconds, and the consumer loop it shares with \<open>cmd/gateway\<close>. Kafka and
  JSON are third-party code: a handler gets the decoded event, or nothing when decoding
  fails, and a reader is the sequence of what \<open>ReadMessage\<close> returns.
\<close>

section \<open>Handlers\<close>

definition on_trip_message :: "'w ext \<Rightarrow> TripLifecycleEvent option \<Rightarrow> aggregator \<Rightarrow> aggregator" where
  "on_trip_message X decoded a =
     (case decoded of None \<Rightarrow> a
      | Some e \<Rightarrow> let cell = CellFromString X (tl_Cell e)
                  in if \<not> CellIsValid X cell then a else RecordTrip cell (tl_TripID e) (tl_State e) (tl_Timestamp e) a)"

definition on_driver_message :: "'w ext \<Rightarrow> DriverLocationEvent option \<Rightarrow> aggregator \<Rightarrow> aggregator" where
  "on_driver_message X decoded a =
     (case decoded of None \<Rightarrow> a
      | Some e \<Rightarrow> let cell = CellFromString X (dl_Cell e)
                  in if \<not> CellIsValid X cell then a else RecordDriver cell (dl_DriverID e) (dl_State e) (dl_Timestamp e) a)"

text \<open>One tick of \<open>writeMultipliersLoop\<close>: a failed write is logged and passed over.\<close>

fun write_cells :: "'w ext \<Rightarrow> aggregator \<Rightarrow> int \<Rightarrow> cell list \<Rightarrow> ('w, unit) io" where
  "write_cells X a now [] = io_return ()"
| "write_cells X a now (c # cs) = (\<lambda>w.
     case SetMultiplier X c (agg_Multiplier c now DefaultMultiplierConfig a) w of (_, w') \<Rightarrow> write_cells X a now cs w')"

definition write_multipliers :: "'w ext \<Rightarrow> aggregator \<Rightarrow> ('w, unit) io" where
  "write_multipliers X a = (\<lambda>w. write_cells X a (wall X w) (Cells a) w)"

text \<open>The other ticker.\<close>

definition prune_tick :: "'w ext \<Rightarrow> aggregator \<Rightarrow> 'w \<Rightarrow> aggregator" where
  "prune_tick X a w = Prune (wall X w) a"

section \<open>The consumer loop\<close>

text \<open>
  What a reader returns: messages, then the context's cancellation or another error;
  \<open>ctx_done\<close> says whether the context is done when that error is looked at or during the
  wait of five seconds that follows it.
\<close>

datatype ending = ReadCanceled | ReadError go_error

record 'm session =
  messages :: "'m list"
  ending :: ending
  ctx_done :: bool

definition runReader :: "('m \<Rightarrow> 's \<Rightarrow> 's) \<Rightarrow> 'm session \<Rightarrow> 's \<Rightarrow> go_error option \<times> 's" where
  "runReader handle r s =
     (case ending r of ReadCanceled \<Rightarrow> None | ReadError e \<Rightarrow> Some e, fold handle (messages r) s)"

text \<open>
  \<open>for { if err := runReader(...); err != nil { if ctx done { return }; wait or return } }\<close>.
  The loop may run for ever, so the number of readers it opens is bounded by \<open>fuel\<close>; \<open>None\<close>
  means that it is still running.
\<close>

fun consumeLoop :: "('m \<Rightarrow> 's \<Rightarrow> 's) \<Rightarrow> nat \<Rightarrow> (nat \<Rightarrow> 'm session) \<Rightarrow> nat \<Rightarrow> 's \<Rightarrow> 's option" where
  "consumeLoop handle 0 readers i s = None"
| "consumeLoop handle (Suc fuel) readers i s =
     (case runReader handle (readers i) s of
        (Some e, s') \<Rightarrow> if ctx_done (readers i) then Some s' else consumeLoop handle fuel readers (Suc i) s'
      | (None, s') \<Rightarrow> consumeLoop handle fuel readers (Suc i) s')"

section \<open>The default multipliers are float64 values\<close>

lemma ilog2_6_5: "ilog2 (6 / 5) = 0"
proof -
  have b: "(2::rat) powi (ilog2 (6 / 5)) \<le> 6 / 5" "(6 / 5 :: rat) < 2 powi (ilog2 (6 / 5) + 1)"
    using ilog2_bounds [of "6 / 5"] by simp_all
  have "(2::rat) powi (ilog2 (6 / 5)) < 2 powi 1" using b(1) by (rule le_less_trans) simp
  moreover have "(2::rat) powi 0 < 2 powi (ilog2 (6 / 5) + 1)" using b(2) by (rule le_less_trans [rotated]) simp
  ultimately have "ilog2 (6 / 5) < 1" "0 < ilog2 (6 / 5) + 1" by (simp_all only: powi2_less_imp)
  then show ?thesis by simp
qed

lemma rnd_6_5_eq: "rnd (6 / 5) = Fin (5404319552844595 / 4503599627370496)"
proof -
  have u: "ulp (6 / 5) = 1 / 4503599627370496" by (simp add: ulp_def ilog2_6_5 power_int_minus)
  have f: "\<lfloor>27021597764222976 / (5::rat)\<rfloor> = 5404319552844595"
    by (simp add: floor_divide_of_int_eq [of 27021597764222976 5, where 'a = rat, simplified])
  have "round_even (27021597764222976 / 5) = 5404319552844595" by (simp add: round_even_def f Let_def)
  then have "round_val (6 / 5) = 5404319552844595 / 4503599627370496" by (simp add: round_val_def u)
  then show ?thesis by (simp add: rnd_def)
qed

lemma default_multiplier_values:
  "config_Multiplier DefaultMultiplierConfig r \<in> {Fin 1, rnd (6 / 5), Fin (7 / 4), Fin (5 / 2), Fin 3}"
proof -
  let ?S = "{Fin 1, rnd (6 / 5), Fin (7 / 4), Fin (5 / 2), Fin 3}"
  have "step_fun (cfg_Min DefaultMultiplierConfig) (cfg_Steps DefaultMultiplierConfig) r \<in> ?S"
    using step_fun_in [of "cfg_Min DefaultMultiplierConfig" "cfg_Steps DefaultMultiplierConfig" r]
    by (simp add: DefaultMultiplierConfig_def mk_step_def)
  moreover have "cfg_Max DefaultMultiplierConfig \<in> ?S" by (simp add: DefaultMultiplierConfig_def)
  ultimately show ?thesis by (simp add: config_Multiplier_step_fun(1) [OF default_steps_ok] Let_def)
qed

text \<open>What a price may be: a number the client can write and read, between 1 and 3.\<close>

definition price :: "f64 \<Rightarrow> bool" where
  "price m \<longleftrightarrow> is_f64 m \<and> f_le (Fin 1) m \<and> f_le m (Fin 3)"

lemma default_price: "price (config_Multiplier DefaultMultiplierConfig r)"
proof -
  have "rnd (5404319552844595 / 4503599627370496) = Fin (5404319552844595 / 4503599627370496)"
    using rnd_dyadic [of 5404319552844595 52 "5404319552844595 / 4503599627370496"] by (simp add: power_int_minus)
  then show ?thesis using default_multiplier_values [of r] by (auto simp: price_def is_f64_def rnd_6_5_eq)
qed

lemma default_multiplier_f64: "is_f64 (config_Multiplier DefaultMultiplierConfig r)"
  using default_price by (simp add: price_def)

section \<open>What the service promises\<close>

definition stops_at :: "(nat \<Rightarrow> 'm session) \<Rightarrow> nat \<Rightarrow> bool" where
  "stops_at readers j \<longleftrightarrow> ending (readers j) \<noteq> ReadCanceled \<and> ctx_done (readers j)"

lemma consumeLoop_find:
  "consumeLoop handle fuel readers i s =
     map_option (\<lambda>j. fold handle (concat (map (\<lambda>k. messages (readers k)) [i..<Suc j])) s)
       (find (stops_at readers) [i..<i + fuel])"
proof (induction fuel arbitrary: i s)
  case (Suc fuel)
  have up: "[i..<i + Suc fuel] = i # [Suc i..<Suc i + fuel]" by (simp add: upt_conv_Cons)
  have later: "j \<ge> Suc i" if "find (stops_at readers) [Suc i..<Suc i + fuel] = Some j" for j
  proof -
    have "j \<in> set [Suc i..<Suc i + fuel]" using that by (metis find_Some_iff nth_mem)
    then show ?thesis by (auto simp del: upt_Suc)
  qed
  let ?s' = "fold handle (messages (readers i)) s"
  have step: "map_option (\<lambda>j. fold handle (concat (map (\<lambda>k. messages (readers k)) [Suc i..<Suc j])) ?s')
        (find (stops_at readers) [Suc i..<Suc i + fuel]) =
      map_option (\<lambda>j. fold handle (concat (map (\<lambda>k. messages (readers k)) [i..<Suc j])) s)
        (find (stops_at readers) [Suc i..<Suc i + fuel])"
  proof (rule option.map_cong [OF refl], goal_cases)
    case (1 j)
    then have "i < Suc j" using later [of j] by (auto simp: set_eq_iff split: option.splits)
    then show ?case by (simp add: upt_conv_Cons del: upt_Suc)
  qed
  note IH = Suc.IH [of "Suc i" ?s', unfolded step]
  show ?case
  proof (cases "stops_at readers i")
    case True
    then have "consumeLoop handle (Suc fuel) readers i s = Some ?s'"
      by (cases "ending (readers i)") (simp_all add: runReader_def stops_at_def)
    then show ?thesis unfolding up using True by simp
  next
    case False
    then have "consumeLoop handle (Suc fuel) readers i s = consumeLoop handle fuel readers (Suc i) ?s'"
      by (cases "ending (readers i)") (simp_all add: runReader_def stops_at_def)
    then show ?thesis unfolding up using False IH by (simp del: upt_Suc consumeLoop.simps)
  qed
qed simp

text \<open>
  C35. A consumer hands over every message once, in order, and returns exactly when a reader
  fails with something else than the context's cancellation while the context is done. So
  a loop whose readers only ever report the cancellation never returns.
\<close>

theorem consumeLoop_returns:
  "(\<exists>fuel. consumeLoop handle fuel readers 0 s = Some s') \<longleftrightarrow>
     (\<exists>j. stops_at readers j \<and> (\<forall>i < j. \<not> stops_at readers i) \<and>
        s' = fold handle (concat (map (\<lambda>k. messages (readers k)) [0..<Suc j])) s)"
proof
  assume "\<exists>fuel. consumeLoop handle fuel readers 0 s = Some s'"
  then obtain fuel j where "find (stops_at readers) [0..<fuel] = Some j"
    "s' = fold handle (concat (map (\<lambda>k. messages (readers k)) [0..<Suc j])) s"
    by (auto simp: consumeLoop_find)
  then show "\<exists>j. stops_at readers j \<and> (\<forall>i < j. \<not> stops_at readers i) \<and>
        s' = fold handle (concat (map (\<lambda>k. messages (readers k)) [0..<Suc j])) s"
    by (auto simp: find_Some_iff intro!: exI [of _ j])
next
  assume "\<exists>j. stops_at readers j \<and> (\<forall>i < j. \<not> stops_at readers i) \<and>
        s' = fold handle (concat (map (\<lambda>k. messages (readers k)) [0..<Suc j])) s"
  then obtain j where j: "stops_at readers j" "\<forall>i < j. \<not> stops_at readers i"
    "s' = fold handle (concat (map (\<lambda>k. messages (readers k)) [0..<Suc j])) s" by blast
  then have "find (stops_at readers) [0..<Suc j] = Some j"
    unfolding find_Some_iff by (intro exI [of _ j]) (auto simp: less_Suc_eq simp del: upt_Suc)
  with j(3) show "\<exists>fuel. consumeLoop handle fuel readers 0 s = Some s'"
    by (intro exI [of _ "Suc j"]) (simp add: consumeLoop_find del: upt_Suc)
qed

definition demo_readers :: "nat \<Rightarrow> nat session" where
  "demo_readers i =
     (if i = 0 then \<lparr>messages = [1, 2], ending = ReadError (ErrorMsg ''EOF''), ctx_done = False\<rparr>
      else if i = 1 then \<lparr>messages = [3], ending = ReadError (ErrorMsg ''EOF''), ctx_done = True\<rparr>
      else \<lparr>messages = [], ending = ReadCanceled, ctx_done = True\<rparr>)"

theorem consumeLoop_returns_witness:
  "(\<exists>fuel. consumeLoop (\<lambda>m s. s @ [m]) fuel demo_readers 0 [] = Some [1, 2, 3]) \<and>
   \<not> (\<exists>fuel. consumeLoop (\<lambda>m s. s @ [m]) fuel (\<lambda>i. demo_readers (i + 2)) 0 [] = Some [])"
proof -
  have s: "stops_at demo_readers 1" "\<not> stops_at demo_readers 0" "\<And>j. \<not> stops_at (\<lambda>i. demo_readers (i + 2)) j"
    by (simp_all add: stops_at_def demo_readers_def)
  have "[1, 2, 3] = fold (\<lambda>m s. s @ [m]) (concat (map (\<lambda>k. messages (demo_readers k)) [0..<Suc 1])) []"
    by (simp add: demo_readers_def)
  then show ?thesis
    unfolding consumeLoop_returns using s by (metis less_one)
qed

section \<open>The multipliers written\<close>

context quiet_store
begin

lemma SetMultiplier_quiet:
  assumes "surge_typed (db X w)" "is_f64 m"
  shows "db X (snd (SetMultiplier X c m w)) = redis_effect (SET (surgeKey X c) (fmt_f64 X m) (Some SurgeTTL)) (db X w)"
    and "surge_typed (db X (snd (SetMultiplier X c m w)))"
proof -
  show d: "db X (snd (SetMultiplier X c m w)) = redis_effect (SET (surgeKey X c) (fmt_f64 X m) (Some SurgeTTL)) (db X w)"
    using call_typed_db(4) by (simp add: SetMultiplier_def)
  have "str_entry (live (db X (snd (SetMultiplier X c m w))) (surge_key k))" for k
    using assms(1) by (cases "surge_key k = surgeKey X c") (simp_all add: d effect_frame surge_typed_def live_effect str_entry_cases)
  then show "surge_typed (db X (snd (SetMultiplier X c m w)))" by (simp add: surge_typed_def)
qed

lemma GetMultiplier_quiet:
  assumes "surge_typed (db X w)"
  shows "fst (GetMultiplier X c w) = (case str_at (db X w) (surgeKey X c) of None \<Rightarrow> Inr (Fin 1)
    | Some s \<Rightarrow> (case ParseFloat X s of Inl e \<Rightarrow> Inl (Errorf ''parse surge multiplier'' e) | Inr m \<Rightarrow> Inr m))"
proof -
  have "fst (call_string X (GET (surgeKey X c)) w) = Inr (str_at (db X w) (surgeKey X c))"
    using assms typed_reads(1) by (simp add: surge_typed_def surgeKey_def)
  then show ?thesis by (simp add: GetMultiplier_def io_known io_wrap_fst split: option.splits sum.splits)
qed

lemma SetMultiplier_read:
  assumes "surge_typed (db X w)" "is_f64 m"
  shows "fst (GetMultiplier X c' (snd (SetMultiplier X c m w))) = (if c' = c then Inr m else fst (GetMultiplier X c' w))"
  using SetMultiplier_quiet [OF assms, of c] assms CellString_inj [of c' c]
  by (simp add: GetMultiplier_quiet str_at_frame surgeKey_def parse_fmt)

lemma write_cells_read:
  assumes "surge_typed (db X w)"
  shows "fst (write_cells X a now cs w) = Inr () \<and> fst (GetMultiplier X c (snd (write_cells X a now cs w))) =
    (if c \<in> set cs then Inr (agg_Multiplier c now DefaultMultiplierConfig a) else fst (GetMultiplier X c w))"
  using assms
proof (induction cs arbitrary: w)
  case (Cons k cs)
  let ?m = "agg_Multiplier k now DefaultMultiplierConfig a"
  have f: "is_f64 ?m" by (simp add: agg_Multiplier_def default_multiplier_f64)
  show ?case
    using Cons.IH [OF SetMultiplier_quiet(2) [OF Cons.prems f, of k]] SetMultiplier_read [OF Cons.prems f, of c k]
    by (auto simp: split_beta)
qed simp

end

text \<open>
  After a tick every cell the aggregator knows reads the multiplier of its current
  ratio, and every other cell reads what it read before.
\<close>

theorem write_multipliers_read:
  assumes "quiet_store X" and "surge_typed (db X w)"
  shows "fst (GetMultiplier X c (snd (write_multipliers X a w))) =
    (if c \<in> set (Cells a) then Inr (agg_Multiplier c (wall X w) DefaultMultiplierConfig a)
     else fst (GetMultiplier X c w))"
  using quiet_store.write_cells_read [OF assms] by (simp add: write_multipliers_def)

theorem write_multipliers_read_witness:
  "fst (GetMultiplier mem_world 7 (snd (write_multipliers mem_world demo_agg (empty_db\<lparr>rnow := 410 * second\<rparr>)))) =
     Inr (agg_Multiplier 7 (410 * second) DefaultMultiplierConfig demo_agg)"
proof -
  let ?w = "empty_db\<lparr>rnow := 410 * second\<rparr>"
  have t: "surge_typed (db mem_world ?w)" by (simp add: mem_world_def surge_typed_def empty_db_def)
  have c: "7 \<in> set (Cells demo_agg)" by (simp add: Cells_def demo_agg_eq)
  have n: "wall mem_world ?w = 410 * second" by (simp add: mem_world_def mem_clock_def second_def)
  show ?thesis using write_multipliers_read [OF mem.quiet_store_axioms t, of 7 demo_agg] c unfolding n by simp
qed

end
