(* ===== verification/Gateway.thy ===== *)
theory Gateway
  imports SurgeService
begin

text \<open>
  \<open>internal/gateway/hub.go\<close> and the consumer of \<open>cmd/gateway\<close>: the browsers connected to the
  live map, and what a broadcast does to them. A WebSocket connection is gorilla's: whether a
  write to it succeeds is a parameter, and what was written and closed is recorded beside
  the hub. \<open>'c\<close> is the type of connections, compared by identity.
\<close>

section \<open>The hub\<close>

text \<open>The map of clients is iterated over in some order; the list is that order.\<close>

record ('c, 'm) Hub =
  clients :: "'c list"
  written :: "('c \<times> 'm) list"
  closed :: "'c list"

definition NewHub :: "('c, 'm) Hub" where
  "NewHub = \<lparr>clients = [], written = [], closed = []\<rparr>"

definition Register :: "'c \<Rightarrow> ('c, 'm) Hub \<Rightarrow> ('c, 'm) Hub" where
  "Register c h = h\<lparr>clients := List.insert c (clients h)\<rparr>"

definition Unregister :: "'c \<Rightarrow> ('c, 'm) Hub \<Rightarrow> ('c, 'm) Hub" where
  "Unregister c h =
     (if c \<in> set (clients h) then h\<lparr>clients := remove1 c (clients h), closed := closed h @ [c]\<rparr> else h)"

definition Count :: "('c, 'm) Hub \<Rightarrow> nat" where
  "Count h = length (clients h)"

text \<open>The loop of \<open>Broadcast\<close>: a client whose write fails is removed and closed.\<close>

definition send_to :: "('c \<Rightarrow> 'm \<Rightarrow> bool) \<Rightarrow> 'm \<Rightarrow> 'c \<Rightarrow> ('c, 'm) Hub \<Rightarrow> ('c, 'm) Hub" where
  "send_to takes m c h =
     (if takes c m then h\<lparr>written := written h @ [(c, m)]\<rparr>
      else h\<lparr>clients := remove1 c (clients h), closed := closed h @ [c]\<rparr>)"

text \<open>\<open>encoded\<close> is the result of \<open>json.Marshal\<close>.\<close>

definition Broadcast :: "('c \<Rightarrow> 'm \<Rightarrow> bool) \<Rightarrow> 'm result \<Rightarrow> ('c, 'm) Hub \<Rightarrow> unit result \<times> ('c, 'm) Hub" where
  "Broadcast takes encoded h =
     (case encoded of
        Inl e \<Rightarrow> (Inl e, h)
      | Inr m \<Rightarrow> (Inr (), fold (send_to takes m) (clients h) h))"

section \<open>The consumer\<close>

text \<open>A malformed event is skipped; an error of the broadcast is logged and passed over.\<close>

definition on_lifecycle_message :: "(TripLifecycleEvent \<Rightarrow> 'm result) \<Rightarrow> ('c \<Rightarrow> 'm \<Rightarrow> bool) \<Rightarrow> TripLifecycleEvent option
    \<Rightarrow> ('c, 'm) Hub \<Rightarrow> ('c, 'm) Hub" where
  "on_lifecycle_message encode takes decoded h =
     (case decoded of None \<Rightarrow> h | Some e \<Rightarrow> snd (Broadcast takes (encode e) h))"

text \<open>\<open>consumeTripEvents\<close> is the loop of \<open>cmd/surge\<close>, word for word, around this handler.\<close>

definition consumeTripEvents :: "(TripLifecycleEvent \<Rightarrow> 'm result) \<Rightarrow> ('c \<Rightarrow> 'm \<Rightarrow> bool) \<Rightarrow> nat
    \<Rightarrow> (nat \<Rightarrow> TripLifecycleEvent option session) \<Rightarrow> ('c, 'm) Hub \<Rightarrow> ('c, 'm) Hub option" where
  "consumeTripEvents encode takes fuel readers h = consumeLoop (on_lifecycle_message encode takes) fuel readers 0 h"

text \<open>One reader of it: \<open>runConsumer\<close>.\<close>

definition runConsumer :: "(TripLifecycleEvent \<Rightarrow> 'm result) \<Rightarrow> ('c \<Rightarrow> 'm \<Rightarrow> bool) \<Rightarrow> TripLifecycleEvent option session
    \<Rightarrow> ('c, 'm) Hub \<Rightarrow> go_error option \<times> ('c, 'm) Hub" where
  "runConsumer encode takes r h = runReader (on_lifecycle_message encode takes) r h"

lemma consumeTripEvents_step:
  "consumeTripEvents encode takes (Suc fuel) readers h =
     (case runConsumer encode takes (readers 0) h of
        (Some e, h') \<Rightarrow> if ctx_done (readers 0) then Some h'
          else consumeLoop (on_lifecycle_message encode takes) fuel readers (Suc 0) h'
      | (None, h') \<Rightarrow> consumeLoop (on_lifecycle_message encode takes) fuel readers (Suc 0) h')"
  by (simp add: consumeTripEvents_def runConsumer_def)

section \<open>What a broadcast does\<close>

definition hub_ok :: "('c, 'm) Hub \<Rightarrow> bool" where
  "hub_ok h \<longleftrightarrow> distinct (clients h)"

lemma fold_send_all:
  assumes "distinct cs" "distinct (clients h)"
  shows "clients (fold (send_to takes m) cs h) = filter (\<lambda>c. c \<in> set cs \<longrightarrow> takes c m) (clients h) \<and>
    written (fold (send_to takes m) cs h) = written h @ map (\<lambda>c. (c, m)) (filter (\<lambda>c. takes c m) cs) \<and>
    closed (fold (send_to takes m) cs h) = closed h @ filter (\<lambda>c. \<not> takes c m) cs"
  using assms
proof (induction cs arbitrary: h)
  case (Cons c cs)
  have d: "distinct (clients (send_to takes m c h))" using Cons.prems by (simp add: send_to_def)
  have "filter (\<lambda>k. k \<in> set cs \<longrightarrow> takes k m) (clients (send_to takes m c h)) =
      filter (\<lambda>k. k \<in> set (c # cs) \<longrightarrow> takes k m) (clients h)"
  proof (cases "takes c m")
    case True
    then show ?thesis by (auto simp: send_to_def intro!: filter_cong)
  next
    case False
    have "remove1 c (clients h) = filter (\<lambda>k. k \<noteq> c) (clients h)"
      using Cons.prems by (simp add: distinct_remove1_removeAll removeAll_filter_not_eq eq_commute)
    then show ?thesis using False by (auto simp: send_to_def intro!: filter_cong)
  qed
  then show ?case using Cons.IH [OF _ d] Cons.prems by (simp add: send_to_def)
qed simp

lemmas fold_send = fold_send_all [THEN conjunct1] fold_send_all [THEN conjunct2, THEN conjunct1]
  fold_send_all [THEN conjunct2, THEN conjunct2]

text \<open>
  A broadcast reaches every connected client once: it is written to exactly those whose
  connection takes it, in some order; the others, and nobody else, are dropped and closed;
  an event that cannot be encoded reaches nobody and changes nothing. Clients that come and
  go keep the hub free of duplicates.
\<close>

theorem Broadcast_correct:
  assumes "hub_ok h"
  shows "(\<forall>m h'. Broadcast takes (Inr m) h = (Inr (), h') \<longrightarrow>
      set (clients h') = {c \<in> set (clients h). takes c m} \<and>
      (\<exists>sent. written h' = written h @ map (\<lambda>c. (c, m)) sent \<and> distinct sent \<and> set sent = set (clients h')) \<and>
      (\<exists>dropped. closed h' = closed h @ dropped \<and> distinct dropped \<and> set dropped = set (clients h) - set (clients h'))) \<and>
    (\<forall>e. Broadcast takes (Inl e) h = (Inl e, h)) \<and>
    hub_ok (snd (Broadcast takes enc h)) \<and> hub_ok (Register c h) \<and> hub_ok (Unregister c h)"
proof -
  have d: "distinct (clients h)" using assms by (simp add: hub_ok_def)
  note f = fold_send [OF d d, of takes]
  have sent: "\<exists>sent. written (fold (send_to takes m) (clients h) h) = written h @ map (\<lambda>c. (c, m)) sent \<and>
      distinct sent \<and> set sent = {c \<in> set (clients h). takes c m}" for m
    by (rule exI [of _ "filter (\<lambda>c. takes c m) (clients h)"]) (simp add: f d)
  have dropped: "\<exists>dropped. closed (fold (send_to takes m) (clients h) h) = closed h @ dropped \<and> distinct dropped \<and>
      set dropped = set (clients h) - {c \<in> set (clients h). takes c m}" for m
    by (rule exI [of _ "filter (\<lambda>c. \<not> takes c m) (clients h)"]) (auto simp: f d)
  have c: "set (clients (fold (send_to takes m) (clients h) h)) = {c \<in> set (clients h). takes c m}" for m
    by (auto simp: f)
  show ?thesis
    using sent dropped d
    by (auto simp: Broadcast_def c hub_ok_def Register_def Unregister_def f split: sum.splits)
qed

theorem Broadcast_correct_witness:
  "let r = Broadcast (\<lambda>c m. c \<noteq> (2 :: nat)) (Inr ''event'') (Register 3 (Register 2 (Register 1 NewHub))) in
     fst r = Inr () \<and> set (clients (snd r)) = {1, 3} \<and> 2 \<in> set (closed (snd r))"
proof -
  have ok: "hub_ok (Register 3 (Register 2 (Register (1 :: nat) NewHub)))"
    by (simp add: hub_ok_def Register_def NewHub_def)
  show ?thesis
    using Broadcast_correct [OF ok, of "\<lambda>c m. c \<noteq> 2"]
    by (auto simp: Broadcast_def Register_def NewHub_def send_to_def)
qed

section \<open>Connections\<close>

text \<open>
  The handlers of \<open>/ws\<close>: one registers its connection, reads until the read fails and
  unregisters it. A connection is a new object, and closing it is what makes the read fail,
  unless the browser does. Broadcasts come in between, from the consumer.
\<close>

record ('c, 'm) connections =
  ws_hub :: "('c, 'm) Hub"
  ws_reading :: "'c list"
  ws_returned :: "'c list"

definition no_connections :: "('c, 'm) connections" where
  "no_connections = \<lparr>ws_hub = NewHub, ws_reading = [], ws_returned = []\<rparr>"

inductive ws_step :: "('c, 'm) connections \<Rightarrow> ('c, 'm) connections \<Rightarrow> bool" where
  ws_upgraded: "c \<notin> set (ws_reading s) \<union> set (ws_returned s) \<Longrightarrow>
    ws_step s (s\<lparr>ws_hub := Register c (ws_hub s), ws_reading := c # ws_reading s\<rparr>)"
| ws_read: "ws_step s s"
| ws_gone: "c \<in> set (ws_reading s) \<Longrightarrow>
    ws_step s (s\<lparr>ws_hub := Unregister c (ws_hub s), ws_reading := remove1 c (ws_reading s), ws_returned := c # ws_returned s\<rparr>)"
| ws_broadcast: "ws_step s (s\<lparr>ws_hub := snd (Broadcast takes encoded (ws_hub s))\<rparr>)"

text \<open>Every connection is in the hub or closed, never both, and closed at most once.\<close>

definition connections_ok :: "('c, 'm) connections \<Rightarrow> bool" where
  "connections_ok s \<longleftrightarrow> distinct (ws_reading s) \<and> set (ws_reading s) \<inter> set (ws_returned s) = {} \<and>
     distinct (clients (ws_hub s) @ closed (ws_hub s)) \<and>
     set (ws_reading s) \<subseteq> set (clients (ws_hub s)) \<union> set (closed (ws_hub s)) \<and> set (ws_returned s) \<subseteq> set (closed (ws_hub s)) \<and>
     set (clients (ws_hub s)) \<subseteq> set (ws_reading s) \<and> set (closed (ws_hub s)) \<subseteq> set (ws_reading s) \<union> set (ws_returned s)"

lemma connections_ok_step:
  assumes "ws_step s s'" "connections_ok s"
  shows "connections_ok s'"
  using assms(1)
proof (cases rule: ws_step.cases)
  case (ws_upgraded c)
  then have "c \<notin> set (clients (ws_hub s))" "c \<notin> set (closed (ws_hub s))" using assms(2) by (auto simp: connections_ok_def)
  then show ?thesis using ws_upgraded assms(2) by (auto simp: connections_ok_def Register_def)
next
  case (ws_gone c)
  then show ?thesis using assms(2) by (auto simp: connections_ok_def Unregister_def)
next
  case (ws_broadcast takes encoded)
  have d: "distinct (clients (ws_hub s))" using assms(2) by (simp add: connections_ok_def)
  show ?thesis
    using ws_broadcast assms(2) by (cases encoded) (auto simp: connections_ok_def Broadcast_def fold_send [OF d d])
qed (use assms(2) in simp)

text \<open>
  C36. Connections are neither leaked nor closed twice: whatever browsers connect and leave
  and whatever is broadcast to them meanwhile, each connection ever opened is either in the
  hub and its handler is still reading, or closed, exactly once; when its handler has
  returned it is closed; and nothing is ever written to a closed one.
\<close>

theorem gateway_connections:
  assumes "ws_step\<^sup>*\<^sup>* no_connections s"
  shows "set (ws_reading s) \<union> set (ws_returned s) = set (clients (ws_hub s)) \<union> set (closed (ws_hub s)) \<and>
    distinct (clients (ws_hub s) @ closed (ws_hub s)) \<and> set (ws_returned s) \<subseteq> set (closed (ws_hub s)) \<and>
    (\<forall>takes m c h'. Broadcast takes (Inr m) (ws_hub s) = (Inr (), h') \<longrightarrow>
       (c, m) \<in> set (drop (length (written (ws_hub s))) (written h')) \<longrightarrow> c \<notin> set (closed (ws_hub s)))"
proof -
  have ok: "connections_ok s"
    using assms by induction (auto simp: connections_ok_step, simp add: connections_ok_def no_connections_def NewHub_def)
  then have d: "distinct (clients (ws_hub s))" by (simp add: connections_ok_def)
  show ?thesis using ok by (auto simp: connections_ok_def Broadcast_def fold_send [OF d d])
qed

theorem gateway_connections_witness:
  "\<exists>s :: (nat, string) connections. ws_step\<^sup>*\<^sup>* no_connections s \<and> ws_returned s = [] \<and>
     set (ws_reading s) = set (clients (ws_hub s)) \<union> set (closed (ws_hub s)) \<and> closed (ws_hub s) = [1]"
proof -
  let ?s1 = "no_connections\<lparr>ws_hub := Register 1 NewHub, ws_reading := [1]\<rparr> :: (nat, string) connections"
  let ?s2 = "?s1\<lparr>ws_hub := snd (Broadcast (\<lambda>c m. False) (Inr ''event'') (Register 1 NewHub))\<rparr>"
  have 1: "ws_step no_connections ?s1" using ws_upgraded [of "1 :: nat" no_connections] by (simp add: no_connections_def)
  have 2: "ws_step ?s1 ?s2" using ws_broadcast [of ?s1 "\<lambda>c m. False" "Inr ''event''"] by simp
  have run: "ws_step\<^sup>*\<^sup>* no_connections ?s2" using 1 2 by (meson converse_rtranclp_into_rtranclp r_into_rtranclp)
  have "closed (ws_hub ?s2) = [1]" "ws_returned ?s2 = []"
    by (simp_all add: Broadcast_def Register_def NewHub_def send_to_def no_connections_def)
  with gateway_connections [OF run] run show ?thesis by (intro exI [of _ ?s2]) simp
qed

end
