(* ===== verification/Recovery.thy ===== *)
theory Recovery
  imports Handling
begin

text \<open>
  What \<open>offers.Reconciler\<close> does with one trip of the recovery index, and what a dispatch
  leaves behind when it fails.
\<close>

section \<open>Resuming a trip\<close>

definition trip_resolved :: "string \<Rightarrow> rdb \<Rightarrow> bool" where
  "trip_resolved t d \<longleftrightarrow> trip_unfulfilled t d \<or> (\<exists>i. trip_matched_with t i d)"

context redis_server
begin

lemma resumeIfStuck_ends:
  assumes "env_keeps (trip_unfulfilled t)" "\<And>i. env_keeps (trip_matched_with t i)"
  shows "ends (resumeIfStuck X R t) (\<lambda>resumed n. resumed \<longrightarrow> trip_resolved t (db X (world n)))"
proof -
  let ?Q = "\<lambda>resumed n. resumed \<longrightarrow> trip_resolved t (db X (world n))"
  have no: "ends (io_return False) ?Q" by (simp add: ends_def)
  have run: "ends (io_bind (io_wrap ''run dispatcher'' (Run X W cfg t c cands)) (\<lambda>_. io_return True)) ?Q" for W cfg c cands
    unfolding ends_def
  proof (intro allI impI)
    fix n r n'
    assume "io_bind (io_wrap ''run dispatcher'' (Run X W cfg t c cands)) (\<lambda>_. io_return True) n = (Inr r, n')"
    then obtain x where "Run X W cfg t c cands n = (Inr x, n')"
      by (auto elim!: io_bind_cases simp: io_wrap_def split: prod.splits sum.splits)
    then have "outcome X t (map (DriverID \<circ> rc_Driver) cands) x n'"
      using Run_ends [OF assms] unfolding ends_def by blast
    then show "trip_resolved t (db X (world n'))"
      by (auto simp: outcome_def trip_resolved_def split: if_splits prod.splits)
  qed
  show ?thesis
    unfolding resumeIfStuck_def
    by (rule ends_bind, rule ends_case, rule ends_if, rule ends_fail, rule ends_bind, rule ends_if, rule no,
        rule ends_bind, rule ends_bind, rule ends_bind, rule run, rule no)
qed

end

text \<open>
  C15. Recovery: a trip reported as resumed is resolved, also when messages are lost and
  other clients that respect outcomes act in between. In a quiet world a trip with a live
  offer record, whatever its state, and a trip that is not \<open>OFFERED\<close> any more are left
  alone: nothing is written or published.
\<close>

theorem resumeIfStuck_correct:
  assumes "redis_server X env"
    and "\<forall>d d'. env d d' \<longrightarrow> trip_unfulfilled t d \<longrightarrow> trip_unfulfilled t d'"
    and "\<forall>i d d'. env d d' \<longrightarrow> trip_matched_with t i d \<longrightarrow> trip_matched_with t i d'"
  shows "(\<forall>n'. resumeIfStuck X R t n = (Inr True, n') \<longrightarrow> trip_resolved t (db X (world n'))) \<and>
    (quiet_store X \<and> dispatch_typed (db X (world n)) \<and>
      ((\<exists>rec. offer_at (db X (world n)) t = Inr rec) \<or>
       offer_at (db X (world n)) t = Inl ErrOfferNotFound \<and>
       (\<exists>trip. trip_at X (db X (world n)) t = Inr trip \<and> tr_State trip \<noteq> TripOffered)) \<longrightarrow>
     (\<exists>n'. resumeIfStuck X R t n = (Inr False, n') \<and> db X (world n') = db X (world n) \<and> published n' = published n))"
proof (intro conjI allI impI)
  fix n' assume r: "resumeIfStuck X R t n = (Inr True, n')"
  have env: "redis_server.env_keeps env (trip_unfulfilled t)" "redis_server.env_keeps env (trip_matched_with t i)" for i
    using assms(2,3) by (auto simp: redis_server.env_keeps_def [OF assms(1)])
  show "trip_resolved t (db X (world n'))"
    using redis_server.resumeIfStuck_ends [OF assms(1) env, of R] r unfolding ends_def by blast
next
  assume a: "quiet_store X \<and> dispatch_typed (db X (world n)) \<and>
      ((\<exists>rec. offer_at (db X (world n)) t = Inr rec) \<or>
       offer_at (db X (world n)) t = Inl ErrOfferNotFound \<and>
       (\<exists>trip. trip_at X (db X (world n)) t = Inr trip \<and> tr_State trip \<noteq> TripOffered))"
  then have qs: "quiet_store X" and q: "quiet_redis X" and ty: "dispatch_typed (db X (world n))"
    by (simp_all add: quiet_store_def)
  then have "offer_typed (db X (world n))" by (simp add: dispatch_typed_def)
  note g = quiet_redis.GetOffer_quiet [OF q this, of t]
  let ?n1 = "n\<lparr>world := snd (GetOffer X t (world n))\<rparr>"
  have o: "io_try (on_world (GetOffer X t)) n = (Inr (offer_at (db X (world n)) t), ?n1)"
    using g by (simp add: io_try_def on_world_def split_beta)
  consider rec where "offer_at (db X (world n)) t = Inr rec"
    | trip where "offer_at (db X (world n)) t = Inl ErrOfferNotFound" "trip_at X (db X (world n)) t = Inr trip"
        "tr_State trip \<noteq> TripOffered" using a by blast
  then show "\<exists>n'. resumeIfStuck X R t n = (Inr False, n') \<and> db X (world n') = db X (world n) \<and> published n' = published n"
  proof cases
    case 1
    then show ?thesis by (intro exI [of _ ?n1]) (simp add: resumeIfStuck_def o g(2))
  next
    case (2 trip)
    have tt: "trip_typed (db X (world ?n1))" using ty g(2) by (simp add: dispatch_typed_def)
    note get = quiet_redis.GetTrip_quiet [OF q tt, of t]
    let ?n2 = "?n1\<lparr>world := snd (GetTrip X t (world ?n1))\<rparr>"
    have "io_wrap ''get trip'' (on_world (GetTrip X t)) ?n1 = (Inr trip, ?n2)"
      using get(1) 2(2) g(2) by (simp add: io_wrap_ok on_world_ok)
    then show ?thesis using 2(1,3) g(2) get(2) by (intro exI [of _ ?n2]) (simp add: resumeIfStuck_def o)
  qed
qed

definition demo_reconciler :: "rdb Reconciler" where
  "demo_reconciler = \<lparr>rc_lookup_cell = DriversInCell mem_world, rc_lookup_many = GetDrivers mem_world,
     rc_Waits = all_accept, rc_Cfg = DefaultConfig, rc_Estimator = (\<lambda>from to. Inr 0), rc_Resolution = 8,
     rc_SearchCfg = DefaultSearchConfig, rc_RankCfg = DefaultRankConfig\<rparr>"

theorem resumeIfStuck_correct_witness:
  "\<exists>n'. resumeIfStuck mem_world demo_reconciler ''t1'' (demo_node TripUnfulfilled DriverAvailable) = (Inr False, n') \<and>
     world n' = world (demo_node TripUnfulfilled DriverAvailable) \<and> published n' = []"
proof -
  let ?n = "demo_node TripUnfulfilled DriverAvailable"
  have e: "redis_server mem_world (=)" by (rule quiet_redis.axioms(1) [OF mem.quiet_redis_axioms])
  have w: "db mem_world (world ?n) = demo_dispatch TripUnfulfilled DriverAvailable" by (simp add: mem_world_def demo_node_def)
  have o: "offer_at (db mem_world (world ?n)) ''t1'' = Inl ErrOfferNotFound"
    by (simp add: w offer_at_def offer_field_def hash_field_def demo_dispatch_live fun_eq_iff)
  have t: "dispatch_typed (db mem_world (world ?n))" unfolding w by (rule demo_dispatch_typed)
  have s: "trip_at mem_world (db mem_world (world ?n)) ''t1'' = Inr (demo_record_of TripUnfulfilled)" by (rule demo_retry)
  have st: "tr_State (demo_record_of TripUnfulfilled) \<noteq> TripOffered" by (simp add: demo_record_of_def trip_states)
  have p: "published ?n = []" by (simp add: demo_node_def)
  have d: "db mem_world w = w" for w by (simp add: mem_world_def)
  show ?thesis
    using resumeIfStuck_correct [OF e, of "''t1''" demo_reconciler ?n] mem.quiet_store_axioms t o s st
    unfolding p d by blast
qed

section \<open>An offer record that never goes away\<close>



section \<open>A candidate whose record has expired\<close>

text \<open>
  Steps after which something observed of the state is what it was before; beside what a triple
  says of a step, such an observation is carried along.
\<close>

definition steady :: "('w \<Rightarrow> 'b) \<Rightarrow> ('w, 'a) io \<Rightarrow> bool" where
  "steady g m \<longleftrightarrow> (\<forall>w. g (snd (m w)) = g w)"

lemma steady_simps [simp, intro]:
  "steady g (io_return x)" "steady g (io_fail e)" "steady g (io_lift r)"
  "steady g m \<Longrightarrow> steady g (io_wrap s m)" "steady g m \<Longrightarrow> steady g (io_try m)"
  by (simp_all add: steady_def)

lemma steady_bind: "steady g m \<Longrightarrow> (\<And>x. steady g (f x)) \<Longrightarrow> steady g (io_bind m f)"
  unfolding steady_def
proof (intro allI)
  fix w assume "\<forall>w. g (snd (m w)) = g w" "\<And>x. \<forall>w. g (snd (f x w)) = g w"
  then show "g (snd (io_bind m f w)) = g w" by (intro io_bind_inv [where I = "\<lambda>v. g v = g w"]) simp_all
qed

lemma post_beside:
  assumes "post P m Q" "steady g m"
  shows "post (\<lambda>w. P w \<and> g w = x) m (\<lambda>r w. Q r w \<and> g w = x)"
  using assms unfolding post_def steady_def by simp

lemma goes_beside: "goes P m v Q \<Longrightarrow> steady g m \<Longrightarrow> goes (\<lambda>w. P w \<and> g w = x) m v (\<lambda>w. Q w \<and> g w = x)"
  using post_beside by (rule post_mono) auto

lemma post_bind:
  assumes "post P m (\<lambda>r w. \<exists>x. r = Inr x \<and> Q x w)" "\<And>x. post (Q x) (f x) R"
  shows "post P (io_bind m f) R"
  using assms unfolding post_def by (metis io_bind_ok)

text \<open>The offers made and the recovery index.\<close>

definition offers_and_index :: "'w ext \<Rightarrow> 'w node \<Rightarrow> (string \<times> int) list \<times> string set" where
  "offers_and_index X n = (offers_made n, offered_set (db X (world n)))"

context quiet_redis
begin

abbreviation index_of :: "'w \<Rightarrow> string set" where
  "index_of \<equiv> \<lambda>w. offered_set (db X w)"

lemma steady_calls [simp]:
  assumes "cmd_key c \<noteq> offeredTripsKey"
  shows "steady index_of (call_unit X c)" "steady index_of (call_string X c)" "steady index_of (call_fields X c)"
  using assms by (simp_all add: steady_def offered_set_def set_at_frame)

lemma steady_SetState: "steady index_of (SetState X i to)"
proof -
  have "steady index_of (\<lambda>w. if to = DriverAvailable
       then call_unit X (HSET (driverKey i) [(''state'', to), (''available_since'', itoa (to_unix (wall X w)))]) w
       else call_unit X (HSET (driverKey i) [(''state'', to)]) w)"
    by (simp add: steady_def offered_set_def set_at_frame)
  then show ?thesis
    unfolding SetState_def SetState_write_def by (auto intro!: steady_bind split: option.split)
qed

lemma steady_SetOfferState: "steady index_of (SetOfferState X t i to)"
  unfolding SetOfferState_def SetOfferState_write_def GetOffer_def by (auto intro!: steady_bind)

lemma steady_GetTrip: "steady index_of (GetTrip X t)"
  unfolding GetTrip_def by (auto intro!: steady_bind)

lemma steady_CreateOffer: "steady index_of (CreateOffer X t i rno ttl)"
proof -
  have calls: "steady index_of (server_calls X cs)" if "\<forall>c \<in> set cs. cmd_key c \<noteq> offeredTripsKey" for cs
    using that
  proof (induction cs)
    case (Cons c cs)
    then have "offeredTripsKey \<noteq> cmd_key c" by auto
    then have "steady index_of (server_call X c)" by (simp add: steady_def offered_set_def set_at_frame)
    then show ?case using Cons by (auto intro!: steady_bind)
  qed simp
  show ?thesis
    by (simp add: CreateOffer_def tx_pipeline_def steady_def request_quiet calls [unfolded steady_def, THEN spec] del: server_calls.simps)
qed

lemma steady_on_world:
  "steady index_of m \<Longrightarrow> steady (offers_and_index X) (on_world m)"
  by (simp add: steady_def offers_and_index_def)

lemma steady_publishOffer: "st \<noteq> OfferPending \<Longrightarrow> steady (offers_and_index X) (publishOffer X t i rno c st)"
  by (simp add: steady_def offers_and_index_def offers_made_def publishOffer_def publish_def List.map_filter_def)

lemma steady_publishTrip: "steady (offers_and_index X) (publishTrip X t c st i)"
  by (simp add: steady_def offers_and_index_def offers_made_def publishTrip_def publish_def List.map_filter_def)

lemma steady_waits:
  assumes "calm X W"
  shows "steady (offers_and_index X) (awaitResponse W cfg t)" "steady (offers_and_index X) (sleep W b)"
  using assms
  by (simp_all add: steady_def offers_and_index_def offers_made_def awaitResponse_def sleep_def calm_def Let_def split_beta)

lemma steady_close: "steady (offers_and_index X) (close_round X t c i rno resp)"
  unfolding close_round_def SetState_tolerant_def
  by (auto intro!: steady_bind steady_on_world steady_SetState steady_SetOfferState steady_publishOffer
      simp: offer_states split: sum.split)

end

text \<open>The offers to a list of drivers, numbered on from a round.\<close>

fun numbered :: "int \<Rightarrow> string list \<Rightarrow> (string \<times> int) list" where
  "numbered k [] = []"
| "numbered k (i # ids) = (i, k + 1) # numbered (k + 1) ids"

lemma numbered_zip: "numbered k ids = zip ids (map (\<lambda>j. k + 1 + int j) [0..<length ids])"
proof (induction ids arbitrary: k)
  case (Cons i ids)
  have "map (\<lambda>j. k + 1 + int j) [0..<length (i # ids)] = (k + 1) # map (\<lambda>j. k + 1 + 1 + int j) [0..<length ids]"
    by (simp add: upt_conv_Cons map_Suc_upt [symmetric] del: upt_Suc)
  then show ?case using Cons by simp
qed simp

context quiet_store
begin

text \<open>A round in which the driver does not accept: only the list of offers grows.\<close>

lemma publish_opens:
  assumes "of_keyspace X P"
  shows "goes (\<lambda>n. P n \<and> offers_and_index X n = (os, S)) (publishOffer X t i rno c OfferPending) ()
    (\<lambda>n. P n \<and> offers_and_index X n = (os @ [(i, rno)], S))"
proof (rule postI)
  fix n assume n: "P n \<and> offers_and_index X n = (os, S)"
  let ?n = "snd (publishOffer X t i rno c OfferPending n)"
  have "db X (world ?n) = db X (world n)" by (simp add: publishOffer_def publish_def)
  then have "P ?n" "offered_set (db X (world ?n)) = S"
    using n assms unfolding of_keyspace_def offers_and_index_def by (metis, simp)
  moreover have "offers_made ?n = os @ [(i, rno)]"
    using n by (simp add: offers_and_index_def offers_made_def publishOffer_def publish_def List.map_filter_def)
  ultimately show "fst (publishOffer X t i rno c OfferPending n) = Inr () \<and> P ?n \<and> offers_and_index X ?n = (os @ [(i, rno)], S)"
    by (simp add: offers_and_index_def publishOffer_def publish_def)
qed

lemma await_beside:
  assumes "calm X W" "answering X W t A" "\<And>resp. A i resp \<Longrightarrow> resp \<noteq> Accepted"
  shows "post (\<lambda>n. (stands X t st \<sigma> n \<and> offer_open X t i n) \<and> offers_and_index X n = x) (awaitResponse W cfg t)
    (\<lambda>r n. \<exists>resp. r = Inr resp \<and> resp \<noteq> Accepted \<and> (stands X t st \<sigma> n \<and> offer_open X t i n) \<and> offers_and_index X n = x)"
proof -
  let ?P = "\<lambda>n. stands X t st \<sigma> n \<and> offer_open X t i n"
  have "post ?P (io_bind (awaitResponse W cfg t) io_return) (\<lambda>r n. \<exists>resp. r = Inr resp \<and> resp \<noteq> Accepted \<and> ?P n)"
    by (rule calm_await [OF assms(1,2)]) (use assms(3) in \<open>auto intro!: postI simp: io_return_def\<close>)
  moreover have "io_bind (awaitResponse W cfg t) io_return = awaitResponse W cfg t"
    by (intro ext) (simp add: io_bind_def io_return_def split: prod.split sum.split)
  ultimately have "post ?P (awaitResponse W cfg t) (\<lambda>r n. \<exists>resp. r = Inr resp \<and> resp \<noteq> Accepted \<and> ?P n)" by simp
  from post_beside [OF this steady_waits(1) [OF assms(1)]] show ?thesis by (rule post_mono) blast
qed

lemma refused_round:
  assumes "calm X W" "answering X W t A" "0 < OfferWindow cfg + offerRecordGrace" "rounds < MaxRounds cfg" "in_i64 (rounds + 1)"
    and av: "\<sigma> i = Some DriverAvailable" and no: "\<not> A i Accepted"
    and IH: "\<And>b. post (\<lambda>n. stands X t TripOffered \<sigma> n \<and> offers_and_index X n = (os @ [(i, rounds + 1)], S))
      (offer_loop X W cfg t c ids (rounds + 1) b) Q"
  shows "post (\<lambda>n. stands X t TripOffered \<sigma> n \<and> offers_and_index X n = (os, S)) (offer_loop X W cfg t c (i # ids) rounds b) Q"
proof -
  let ?\<sigma> = "\<sigma>(i \<mapsto> DriverOffered)" and ?os = "(os @ [(i, rounds + 1)], S)"
  have e: "driver_edge DriverAvailable DriverOffered" by (simp add: driver_edge_iff)
  have o: "?\<sigma> i = Some DriverOffered" and undo: "?\<sigma>(i \<mapsto> DriverAvailable) = \<sigma>" using av by auto
  have next_rounds: "post (\<lambda>n. stands X t TripOffered \<sigma> n \<and> offers_and_index X n = ?os)
      (if go then io_bind (sleep W b) (\<lambda>_. offer_loop X W cfg t c ids (rounds + 1) (next_backoff cfg b))
       else offer_loop X W cfg t c ids (rounds + 1) b) Q" for go
    by (cases go) (simp_all only: if_True if_False IH
        goes_bind [OF goes_beside [OF still(4) [OF of_keyspace(1) assms(1)] steady_waits(2) [OF assms(1)]] IH])
  have closed: "post (\<lambda>n. resp \<noteq> Accepted \<and> (stands X t TripOffered ?\<sigma> n \<and> offer_open X t i n) \<and> offers_and_index X n = ?os)
      (if resp = Accepted then accept_round X t c i (rounds + 1)
       else io_bind (close_round X t c i (rounds + 1) resp) (\<lambda>_.
         if ids \<noteq> [] \<and> rounds + 1 < MaxRounds cfg
         then io_bind (sleep W b) (\<lambda>_. offer_loop X W cfg t c ids (rounds + 1) (next_backoff cfg b))
         else offer_loop X W cfg t c ids (rounds + 1) b)) Q" for resp
  proof (cases "resp = Accepted")
    case False
    have "post (\<lambda>n. (stands X t TripOffered ?\<sigma> n \<and> offer_open X t i n) \<and> offers_and_index X n = ?os)
        (io_bind (close_round X t c i (rounds + 1) resp) (\<lambda>_.
           if ids \<noteq> [] \<and> rounds + 1 < MaxRounds cfg
           then io_bind (sleep W b) (\<lambda>_. offer_loop X W cfg t c ids (rounds + 1) (next_backoff cfg b))
           else offer_loop X W cfg t c ids (rounds + 1) b)) Q"
      by (rule goes_bind [OF goes_beside [OF close_calm [where \<sigma> = ?\<sigma>, OF o, unfolded undo] steady_close] next_rounds])
    then show ?thesis using False by simp
  qed (simp add: post_def)
  note opens = goes_beside [OF goes_wrap [OF open_goes [OF assms(3,5)]] steady_simps(4) [OF steady_on_world [OF steady_CreateOffer]]]
  have "post (\<lambda>n. stands X t TripOffered ?\<sigma> n \<and> offers_and_index X n = (os, S))
      (io_bind (io_wrap ''create offer round'' (on_world (CreateOffer X t i (rounds + 1) (OfferWindow cfg + offerRecordGrace)))) (\<lambda>_.
        io_bind (publishOffer X t i (rounds + 1) c OfferPending) (\<lambda>_. io_bind (awaitResponse W cfg t) (\<lambda>resp.
          if resp = Accepted then accept_round X t c i (rounds + 1)
          else io_bind (close_round X t c i (rounds + 1) resp) (\<lambda>_.
            if ids \<noteq> [] \<and> rounds + 1 < MaxRounds cfg
            then io_bind (sleep W b) (\<lambda>_. offer_loop X W cfg t c ids (rounds + 1) (next_backoff cfg b))
            else offer_loop X W cfg t c ids (rounds + 1) b))))) Q"
    by (intro goes_bind [OF opens] goes_bind [OF publish_opens [OF of_keyspace(2)]] post_bind [OF await_beside [OF assms(1,2)] closed])
      (use no in blast)
  then show ?thesis
    unfolding offer_loop.simps(2) using assms(4)
    by (simp only: not_True_eq_False if_False)
      (rule goes_bind [OF goes_beside [OF goes_try [OF set_goes [where \<sigma> = \<sigma>, OF av e]] steady_simps(5) [OF steady_on_world [OF steady_SetState]]]],
        simp only: sum.case)
qed

lemma loop_vanished:
  assumes "calm X W" "answering X W t A" "0 < OfferWindow cfg + offerRecordGrace" "in_i64 (MaxRounds cfg)"
    and "\<forall>i \<in> set ids. \<sigma> i \<noteq> None \<and> \<not> A i Accepted" "\<sigma> gone = None" "0 \<le> rounds"
    and "rounds + int (length (filter (\<lambda>i. \<sigma> i = Some DriverAvailable) ids)) < MaxRounds cfg"
  shows "post (\<lambda>n. stands X t TripOffered \<sigma> n \<and> offers_and_index X n = (os, S)) (offer_loop X W cfg t c (ids @ gone # rest) rounds b)
    (\<lambda>r n. r = Inl (Errorf ''offer to driver'' ErrDriverNotFound) \<and> stands X t TripOffered \<sigma> n \<and>
       offers_and_index X n = (os @ numbered rounds (filter (\<lambda>i. \<sigma> i = Some DriverAvailable) ids), S))"
  using assms(5,7,8)
proof (induction ids arbitrary: rounds os b)
  case Nil
  have rd: "rounds < MaxRounds cfg" using Nil(3) by simp
  have "post (stands X t TripOffered \<sigma>) (on_world (SetState X gone DriverOffered)) (\<lambda>r n. r = Inl ErrDriverNotFound \<and> stands X t TripOffered \<sigma> n)"
    by (rule set_refused) (simp add: assms(6))
  note claim = goes_beside [OF goes_try [OF this] steady_simps(5) [OF steady_on_world [OF steady_SetState]]]
  show ?case
    unfolding append_Nil offer_loop.simps(2) using rd
    by (simp only: not_True_eq_False if_False) (rule goes_bind [OF claim], simp add: is_illegal_driver_def post_def)
next
  case (Cons i ids)
  obtain s where s: "\<sigma> i = Some s" using Cons.prems(1) by auto
  have no: "\<not> A i Accepted" and rd: "rounds < MaxRounds cfg" using Cons.prems by (auto split: if_splits)
  show ?case
  proof (cases "driver_edge s DriverOffered")
    case True
    then have av: "\<sigma> i = Some DriverAvailable" using s by (auto simp: driver_edge_iff driver_states)
    have rn: "in_i64 (rounds + 1)" using Cons.prems(2) rd assms(4) by (simp add: in_i64_def)
    show ?thesis
      unfolding append_Cons
    proof (rule refused_round [where A = A and \<sigma> = \<sigma>, OF assms(1-3) rd rn av no])
      fix b
      show "post (\<lambda>n. stands X t TripOffered \<sigma> n \<and> offers_and_index X n = (os @ [(i, rounds + 1)], S))
          (offer_loop X W cfg t c (ids @ gone # rest) (rounds + 1) b)
          (\<lambda>r n. r = Inl (Errorf ''offer to driver'' ErrDriverNotFound) \<and> stands X t TripOffered \<sigma> n \<and>
             offers_and_index X n = (os @ numbered rounds (filter (\<lambda>i. \<sigma> i = Some DriverAvailable) (i # ids)), S))"
        using Cons.IH [of "rounds + 1" "os @ [(i, rounds + 1)]" b] Cons.prems av by simp
    qed
  next
    case False
    then have "s \<noteq> DriverAvailable" by (auto simp: driver_edge_iff)
    then have skip: "filter (\<lambda>i. \<sigma> i = Some DriverAvailable) (i # ids) = filter (\<lambda>i. \<sigma> i = Some DriverAvailable) ids" using s by simp
    have "post (stands X t TripOffered \<sigma>) (on_world (SetState X i DriverOffered))
        (\<lambda>r n. r = Inl (ErrIllegalDriverTransition s DriverOffered) \<and> stands X t TripOffered \<sigma> n)"
      by (rule set_refused) (simp add: s False)
    note claim = goes_beside [OF goes_try [OF this] steady_simps(5) [OF steady_on_world [OF steady_SetState]]]
    have "post (\<lambda>n. stands X t TripOffered \<sigma> n \<and> offers_and_index X n = (os, S)) (offer_loop X W cfg t c (ids @ gone # rest) rounds b)
      (\<lambda>r n. r = Inl (Errorf ''offer to driver'' ErrDriverNotFound) \<and> stands X t TripOffered \<sigma> n \<and>
         offers_and_index X n = (os @ numbered rounds (filter (\<lambda>i. \<sigma> i = Some DriverAvailable) (i # ids)), S))"
      using Cons unfolding skip by simp
    then show ?thesis
      unfolding append_Cons offer_loop.simps(2) using rd
      by (simp only: not_True_eq_False if_False) (rule goes_bind [OF claim], simp add: is_illegal_driver_def)
  qed
qed

text \<open>The same for the whole dispatch, which first puts a new trip on the index.\<close>

lemma mark_offered:
  assumes "st = TripRequested"
  shows "goes (\<lambda>n. stands X t st \<sigma> n \<and> offers_and_index X n = (os, S)) (on_world (SetTripState X t TripOffered)) ()
    (\<lambda>n. stands X t TripOffered \<sigma> n \<and> offers_and_index X n = (os, insert t S))"
proof (rule postI)
  fix n assume n: "stands X t st \<sigma> n \<and> offers_and_index X n = (os, S)"
  have e: "trip_edge TripRequested TripOffered" by (simp add: trip_edge_iff)
  have move: "goes (stands X t TripRequested \<sigma>) (on_world (SetTripState X t TripOffered)) () (stands X t TripOffered \<sigma>)"
    by (rule trip_goes(1) [OF e]) simp
  have go: "fst (on_world (SetTripState X t TripOffered) n) = Inr () \<and> stands X t TripOffered \<sigma> (snd (on_world (SetTripState X t TripOffered) n))"
    by (rule postD [OF move]) (rule n [THEN conjunct1, unfolded assms])
  have ty: "trip_typed (db X (world n))" "trip_state_of (db X (world n)) t = Some TripRequested"
    using n assms by (simp_all add: stands_def dispatch_typed_def)
  have "db X (snd (SetTripState X t TripOffered (world n))) = move_trip t TripOffered [] (db X (world n))"
    using transitionTo_quiet(2) [OF ty(1), of t TripOffered "[]"] ty(2) e by (simp add: SetTripState_def)
  then have "offers_and_index X (snd (on_world (SetTripState X t TripOffered) n)) = (os, insert t S)"
    using n by (simp add: offers_and_index_def move_trip_facts [OF ty(1)])
  with go show "fst (on_world (SetTripState X t TripOffered) n) = Inr () \<and> stands X t TripOffered \<sigma> (snd (on_world (SetTripState X t TripOffered) n)) \<and>
      offers_and_index X (snd (on_world (SetTripState X t TripOffered) n)) = (os, insert t S)" by simp
qed

lemma Run_vanished:
  fixes \<sigma> :: "string \<rightharpoonup> driver_state" and cs :: "RankedCandidate list"
  defines "ids \<equiv> map (DriverID \<circ> rc_Driver) cs"
  assumes "calm X W" "answering X W t A" "0 < OfferWindow cfg + offerRecordGrace" "in_i64 (MaxRounds cfg)"
    and "tr_State trip = TripRequested \<or> tr_State trip = TripOffered \<and> t \<in> S"
    and "\<forall>i \<in> set ids. \<sigma> i \<noteq> None \<and> \<not> A i Accepted" "\<sigma> (DriverID (rc_Driver k)) = None"
    and "int (length (filter (\<lambda>i. \<sigma> i = Some DriverAvailable) ids)) < MaxRounds cfg"
  shows "post (\<lambda>n. (stands X t (tr_State trip) \<sigma> n \<and> trip_at X (db X (world n)) t = Inr trip) \<and> offers_and_index X n = (os, S))
    (Run X W cfg t c (cs @ k # ks))
    (\<lambda>r n. r = Inl (Errorf ''offer to driver'' ErrDriverNotFound) \<and> stands X t TripOffered \<sigma> n \<and>
       offers_and_index X n = (os @ numbered 0 (filter (\<lambda>i. \<sigma> i = Some DriverAvailable) ids), insert t S))"
    (is "post _ _ ?Q")
proof -
  have ne: "TripOffered \<noteq> TripRequested" by (simp add: trip_states)
  have loop: "post (\<lambda>n. stands X t TripOffered \<sigma> n \<and> offers_and_index X n = (os, insert t S))
      (offer_loop X W cfg t c (map (DriverID \<circ> rc_Driver) (cs @ k # ks)) 0 (BaseBackoff cfg)) ?Q"
    using loop_vanished [where \<sigma> = \<sigma> and A = A, OF assms(2-5,7,8), of 0 os "insert t S" c "map (DriverID \<circ> rc_Driver) ks" "BaseBackoff cfg"] assms(9)
    by (simp add: ids_def del: offer_loop.simps)
  have some: "cs @ k # ks \<noteq> []" by simp
  have rest: "post (\<lambda>n. stands X t (tr_State trip) \<sigma> n \<and> offers_and_index X n = (os, S))
      (let loop = offer_loop X W cfg t c (map (DriverID \<circ> rc_Driver) (cs @ k # ks)) 0 (BaseBackoff cfg) in
       if tr_State trip = TripRequested then
         (if cs @ k # ks = [] then give_up X t c 0
          else io_bind (io_wrap ''mark trip offered'' (on_world (SetTripState X t TripOffered))) (\<lambda>_.
               io_bind (publishTrip X t c TripOffered '''') (\<lambda>_. loop)))
       else if tr_State trip = TripOffered then (if cs @ k # ks = [] then give_up X t c 0 else loop)
       else io_fail e) ?Q" for e
  proof (cases "tr_State trip = TripRequested")
    case True
    have "post (\<lambda>n. stands X t (tr_State trip) \<sigma> n \<and> offers_and_index X n = (os, S))
        (io_bind (io_wrap ''mark trip offered'' (on_world (SetTripState X t TripOffered))) (\<lambda>_.
         io_bind (publishTrip X t c TripOffered '''') (\<lambda>_.
         offer_loop X W cfg t c (map (DriverID \<circ> rc_Driver) (cs @ k # ks)) 0 (BaseBackoff cfg)))) ?Q"
      by (rule goes_bind [OF goes_wrap [OF mark_offered [OF True]]], rule goes_bind [OF goes_beside [OF still(1) steady_publishTrip] loop]) simp
    then show ?thesis unfolding Let_def if_P [OF True] if_not_P [OF some] .
  next
    case False
    then have off: "tr_State trip = TripOffered" and S: "insert t S = S" using assms(6) by auto
    show ?thesis
      unfolding Let_def if_not_P [OF False] if_P [OF off] if_not_P [OF some] using loop unfolding S off .
  qed
  have get: "goes (\<lambda>n. (stands X t (tr_State trip) \<sigma> n \<and> trip_at X (db X (world n)) t = Inr trip) \<and> offers_and_index X n = (os, S))
      (io_wrap ''get trip'' (on_world (GetTrip X t))) trip (\<lambda>n. stands X t (tr_State trip) \<sigma> n \<and> offers_and_index X n = (os, S))"
    by (rule goes_beside [OF goes_wrap [OF get_goes] steady_simps(4) [OF steady_on_world [OF steady_GetTrip]]])
  show ?thesis
    unfolding Run_def by (rule goes_bind [OF get]) (rule rest)
qed

end

text \<open>
  C19. A candidate that vanishes between the search and its offer aborts the dispatch when its
  turn comes: in a calm world, when none of the available candidates ranked before it accepts and they
  leave a round for it, they are asked in order and released, and then the error of the driver
  store is returned although the next candidates may be available. Nobody ranked after it is
  asked, no driver is left in another state than before, and the trip stays \<open>OFFERED\<close> and is on
  the recovery index, where a sweep finds it.
\<close>

theorem Run_vanished_candidate:
  assumes "quiet_store X" and "calm X W" and "0 < OfferWindow cfg + offerRecordGrace \<and> in_i64 (MaxRounds cfg)"
    and "dispatch_typed (db X (world n))" and "trip_at X (db X (world n)) t = Inr trip"
    and "tr_State trip = TripRequested \<or> tr_State trip = TripOffered \<and> t \<in> offered_set (db X (world n))"
    and "\<forall>k \<in> set before. driver_state_of (db X (world n)) (DriverID (rc_Driver k)) \<noteq> None"
    and "\<forall>win w rec. offer_at (db X w) t = Inr rec \<and> or_State rec = OfferPending \<and>
      or_DriverID rec \<in> DriverID ` rc_Driver ` set before \<longrightarrow> heard_answer t (fst (arrivals W t win w)) \<noteq> Accepted"
    and "driver_state_of (db X (world n)) (DriverID (rc_Driver gone)) = None"
    and "int (length (filter (\<lambda>i. driver_state_of (db X (world n)) i = Some DriverAvailable) (map (DriverID \<circ> rc_Driver) before)))
      < MaxRounds cfg"
  shows "let \<sigma> = driver_state_of (db X (world n));
      asked = filter (\<lambda>i. \<sigma> i = Some DriverAvailable) (map (DriverID \<circ> rc_Driver) before)
    in \<exists>n'. Run X W cfg t c (before @ gone # after) n = (Inl (Errorf ''offer to driver'' ErrDriverNotFound), n') \<and>
      offers_made n' = offers_made n @ zip asked (map (\<lambda>j. 1 + int j) [0..<length asked]) \<and>
      trip_state_of (db X (world n')) t = Some TripOffered \<and>
      offered_set (db X (world n')) = insert t (offered_set (db X (world n))) \<and> driver_state_of (db X (world n')) = \<sigma>"
proof -
  let ?\<sigma> = "driver_state_of (db X (world n))" and ?A = "\<lambda>i r. i \<in> DriverID ` rc_Driver ` set before \<longrightarrow> r \<noteq> Accepted"
  have A: "answering X W t ?A" using assms(8) unfolding answering_def by blast
  have known: "\<forall>i \<in> set (map (DriverID \<circ> rc_Driver) before). ?\<sigma> i \<noteq> None \<and> \<not> ?A i Accepted" using assms(7) by auto
  have "trip_state_of (db X (world n)) t = Some (tr_State trip)" using trip_at_state [OF assms(5)] assms(6) by (auto simp: trip_states)
  then have pre: "(stands X t (tr_State trip) ?\<sigma> n \<and> trip_at X (db X (world n)) t = Inr trip) \<and>
      offers_and_index X n = (offers_made n, offered_set (db X (world n)))"
    using assms(4,5) by (simp add: stands_def offers_and_index_def)
  from postD [OF quiet_store.Run_vanished [where A = ?A and \<sigma> = ?\<sigma> and c = c and ks = after, OF assms(1,2) A assms(3) [THEN conjunct1]
        assms(3) [THEN conjunct2] assms(6) known assms(9,10)] pre]
  show ?thesis
    by (cases "Run X W cfg t c (before @ gone # after) n") (auto simp: Let_def stands_def offers_and_index_def numbered_zip)
qed

text \<open>Driver \<open>d1\<close> declines, \<open>d9\<close> is gone, and \<open>d1\<close> is ranked once more after it.\<close>

definition all_decline :: "'w waits" where
  "all_decline = \<lparr>arrivals = (\<lambda>t d w. ([(t, Declined)], w)), pause = (\<lambda>d w. (True, w))\<rparr>"

theorem Run_vanished_candidate_witness:
  "\<exists>n'. Run mem_world all_decline DefaultConfig ''t1'' 1012
      (demo_ranked @ \<lparr>rc_Driver = demo_record ''d9'' DriverAvailable, rc_ETA = 60 * second, rc_Score = Fin 130\<rparr> # demo_ranked)
      (demo_node TripRequested DriverAvailable) = (Inl (Errorf ''offer to driver'' ErrDriverNotFound), n') \<and>
    offers_made n' = [(''d1'', 1)] \<and> trip_state_of (world n') ''t1'' = Some TripOffered \<and>
    ''t1'' \<in> offered_set (world n') \<and> driver_state_of (world n') ''d1'' = Some DriverAvailable"
proof -
  let ?k = "\<lparr>rc_Driver = demo_record ''d9'' DriverAvailable, rc_ETA = 60 * second, rc_Score = Fin 130\<rparr>"
  let ?n = "demo_node TripRequested DriverAvailable"
  have w: "db mem_world (world ?n) = demo_dispatch TripRequested DriverAvailable" by (simp add: mem_world_def demo_node_def)
  have d: "db mem_world v = v" for v by (simp add: mem_world_def)
  have calm: "calm mem_world all_decline" by (simp add: calm_def all_decline_def)
  have c: "0 < OfferWindow DefaultConfig + offerRecordGrace \<and> in_i64 (MaxRounds DefaultConfig)"
    by (simp add: DefaultConfig_def offerRecordGrace_def second_def in_i64_def)
  have t: "dispatch_typed (db mem_world (world ?n))" unfolding w by (rule demo_dispatch_typed)
  note s = demo_trip_at [of TripRequested DriverAvailable, folded w]
  have k: "\<forall>k \<in> set demo_ranked. driver_state_of (db mem_world (world ?n)) (DriverID (rc_Driver k)) \<noteq> None"
    using demo_dispatch_facts(1) by (simp add: demo_ranked_def demo_record_def w)
  have a: "\<forall>win w rec. offer_at (db mem_world w) ''t1'' = Inr rec \<and> or_State rec = OfferPending \<and>
      or_DriverID rec \<in> DriverID ` rc_Driver ` set demo_ranked \<longrightarrow> heard_answer ''t1'' (fst (arrivals all_decline ''t1'' win w)) \<noteq> Accepted"
    by (simp add: all_decline_def heard_answer_def)
  have g: "driver_state_of (db mem_world (world ?n)) (DriverID (rc_Driver ?k)) = None"
    by (simp add: w demo_record_def driver_state_of_def hash_field_def demo_dispatch_live) (simp add: demo_driver_def)
  have asked: "filter (\<lambda>i. driver_state_of (db mem_world (world ?n)) i = Some DriverAvailable) (map (DriverID \<circ> rc_Driver) demo_ranked) = [''d1'']"
    using demo_dispatch_facts(1) by (simp add: demo_ranked_def demo_record_def w)
  have m: "int (length (filter (\<lambda>i. driver_state_of (db mem_world (world ?n)) i = Some DriverAvailable) (map (DriverID \<circ> rc_Driver) demo_ranked)))
      < MaxRounds DefaultConfig" unfolding asked by (simp add: DefaultConfig_def)
  have o: "offers_made ?n = []" by (simp add: offers_made_def demo_node_def List.map_filter_def)
  have st: "driver_state_of (db mem_world (world ?n)) ''d1'' = Some DriverAvailable" unfolding w by (rule demo_dispatch_facts)
  show ?thesis
    using Run_vanished_candidate [OF mem.quiet_store_axioms calm c t s _ k a g m, of 1012 demo_ranked] st
    unfolding Let_def asked o unfolding d by auto
qed

end
