(* ===== verification/Integrity.thy ===== *)
theory Integrity
  imports OfferStore
begin

text \<open>
  The protocol the services follow on the Redis they share: an abstract transition system
  whose steps are the atomic requests that change the keyspace, and the passing of time.
  Its invariant is the integrity of the keyspace: every key holds the type its readers
  expect, every state is one of its machine, and every reference to a trip names a trip
  that can be read. Theory \<open>System\<close> shows that the code takes no other step.
\<close>

section \<open>Integrity of a keyspace\<close>

definition driver_names :: "string set" where
  "driver_names = {DriverOffline, DriverAvailable, DriverOffered, DriverEnRoute, DriverOnTrip}"

definition trip_names :: "string set" where
  "trip_names = {TripRequested, TripOffered, TripMatched, TripUnfulfilled}"

definition offer_names :: "string set" where
  "offer_names = {OfferPending, OfferAccepted, OfferDeclined, OfferTimedOut}"

text \<open>The fields of a record that can be read as a trip, in one of the four states.\<close>

definition trip_fields_ok :: "'w ext \<Rightarrow> (string \<rightharpoonup> string) \<Rightarrow> bool" where
  "trip_fields_ok X m \<longleftrightarrow>
     (\<exists>a. ParseFloat X (field m ''origin_lat'') = Inr a) \<and> (\<exists>b. ParseFloat X (field m ''origin_lng'') = Inr b) \<and>
     (\<exists>n. parse_int64 (field m ''created_at'') = Inr n) \<and> (\<exists>s \<in> trip_names. m ''state'' = Some s)"

definition trip_known :: "'w ext \<Rightarrow> rdb \<Rightarrow> string \<Rightarrow> bool" where
  "trip_known X d t \<longleftrightarrow> trip_fields_ok X (trip_field d t)"

definition keyspace_typed :: "rdb \<Rightarrow> bool" where
  "keyspace_typed d \<longleftrightarrow> drv_typed d \<and> trip_typed d \<and> offer_typed d \<and> surge_typed d \<and>
     (\<forall>t v e. live d (tripKey t) = Some (v, e) \<longrightarrow> e = None)"

definition states_valid :: "rdb \<Rightarrow> bool" where
  "states_valid d \<longleftrightarrow>
     (\<forall>i s. hash_field d (driverKey i) ''state'' = Some s \<longrightarrow> s \<in> driver_names) \<and>
     (\<forall>t s. offer_field d t ''state'' = Some s \<longrightarrow> s \<in> offer_names)"

definition refs_valid :: "'w ext \<Rightarrow> rdb \<Rightarrow> bool" where
  "refs_valid X d \<longleftrightarrow>
     (\<forall>t. trip_field d t \<noteq> Map.empty \<longrightarrow> trip_known X d t) \<and>
     (\<forall>k t. str_at d (idemKey k) = Some t \<longrightarrow> trip_known X d t) \<and>
     (\<forall>t. offer_field d t \<noteq> Map.empty \<longrightarrow> trip_known X d t) \<and>
     (\<forall>i t. offered_to d i = Some t \<longrightarrow> trip_known X d t) \<and>
     (\<forall>t \<in> offered_set d. trip_known X d t)"

definition integrity :: "'w ext \<Rightarrow> rdb \<Rightarrow> bool" where
  "integrity X d \<longleftrightarrow> keyspace_typed d \<and> states_valid d \<and> refs_valid X d"

lemma trip_known_at:
  assumes "trip_known X d t"
  shows "\<exists>trip. trip_at X d t = Inr trip \<and> tr_State trip \<in> trip_names"
proof -
  have "trip_field d t \<noteq> Map.empty" using assms by (auto simp: trip_known_def trip_fields_ok_def)
  then show ?thesis
    using assms by (auto simp: trip_known_def trip_fields_ok_def trip_at_def parseTripRecord_def field_def)
qed

lemma trip_at_known:
  assumes "integrity X d" "trip_at X d t = Inr trip"
  shows "trip_known X d t"
proof -
  have "trip_field d t \<noteq> Map.empty" using assms(2) by (auto simp: trip_at_def)
  then show ?thesis using assms(1) by (simp add: integrity_def refs_valid_def)
qed

section \<open>The steps\<close>

inductive redis_step :: "'w ext \<Rightarrow> rdb \<Rightarrow> rdb \<Rightarrow> bool" for X :: "'w ext" where
  time: "0 \<le> dt \<Longrightarrow> redis_step X d (elapse dt d)"
| ping: "0 < ttl \<Longrightarrow> redis_step X d (move_effect i lat lng c upd ttl d)"
| since: "redis_step X d (redis_effect (HSETNX (driverKey i) ''available_since'' v) d)"
| driver: "to \<in> driver_names \<Longrightarrow> set extra \<subseteq> {''available_since''} \<times> UNIV \<Longrightarrow>
    redis_step X d (redis_effect (HSET (driverKey i) ((''state'', to) # extra)) d)"
| swept: "redis_step X d (redis_effect (SREM (cell_set_key c) ids) d)"
| new_trip: "is_f64 lat \<Longrightarrow> is_f64 lng \<Longrightarrow> in_i64 now \<Longrightarrow>
    redis_step X d (put_new_trip t rider (fmt_f64 X lat) (fmt_f64 X lng) k (itoa now) d)"
| trip: "trip_known X d t \<Longrightarrow> to \<in> trip_names \<Longrightarrow> set extra \<subseteq> {''matched_driver_id''} \<times> UNIV \<Longrightarrow>
    redis_step X d (put_trip t ((''state'', to) # extra) d)"
| listed: "trip_known X d t \<Longrightarrow> redis_step X d (redis_effect (SADD offeredTripsKey t) d)"
| unlisted: "redis_step X d (redis_effect (SREM offeredTripsKey ts) d)"
| offer: "trip_known X d t \<Longrightarrow> 0 < ttl \<Longrightarrow> redis_step X d (open_offer t i rno created ttl ttl' d)"
| answer: "trip_known X d t \<Longrightarrow> to \<in> offer_names \<Longrightarrow>
    redis_step X d (redis_effect (HSET (offerKey t) [(''state'', to)]) d)"
| released: "redis_step X d (redis_effect (DEL (driverOfferKey i)) d)"
| surge: "redis_step X d (redis_effect (SET (surge_key c) v (Some ttl)) d)"

abbreviation redis_steps :: "'w ext \<Rightarrow> rdb \<Rightarrow> rdb \<Rightarrow> bool" where
  "redis_steps X \<equiv> (redis_step X)\<^sup>*\<^sup>*"

section \<open>What a step changes of each view\<close>

text \<open>The views through which the services read the keyspace.\<close>

definition same_drivers :: "rdb \<Rightarrow> rdb \<Rightarrow> bool" where
  "same_drivers d d' \<longleftrightarrow> (\<forall>i. hash_field d' (driverKey i) = hash_field d (driverKey i))"

definition same_trips :: "rdb \<Rightarrow> rdb \<Rightarrow> bool" where
  "same_trips d d' \<longleftrightarrow> (\<forall>t. trip_field d' t = trip_field d t) \<and> (\<forall>k. str_at d' (idemKey k) = str_at d (idemKey k)) \<and>
     offered_set d' = offered_set d"

definition same_offers :: "rdb \<Rightarrow> rdb \<Rightarrow> bool" where
  "same_offers d d' \<longleftrightarrow> (\<forall>t. offer_field d' t = offer_field d t) \<and> (\<forall>i. offered_to d' i = offered_to d i)"

lemma integrity_same_trips:
  assumes "integrity X d" "keyspace_typed d'" "same_trips d d'" "states_valid d'"
    and "\<And>t. offer_field d' t \<noteq> Map.empty \<Longrightarrow> trip_known X d t"
    and "\<And>i t. offered_to d' i = Some t \<Longrightarrow> trip_known X d t"
  shows "integrity X d'"
  using assms by (simp add: integrity_def refs_valid_def trip_known_def same_trips_def)

lemma integrity_same:
  assumes "integrity X d" "keyspace_typed d'" "same_trips d d'" "same_offers d d'"
    and "\<And>i s. hash_field d' (driverKey i) ''state'' = Some s \<Longrightarrow> s \<in> driver_names"
  shows "integrity X d'"
proof (rule integrity_same_trips [OF assms(1-3)])
  show "states_valid d'" using assms by (simp add: integrity_def states_valid_def same_offers_def)
qed (use assms in \<open>auto simp: integrity_def refs_valid_def same_offers_def\<close>)

section \<open>Integrity is an invariant\<close>

lemma integrity_typed: "integrity X d \<Longrightarrow> drv_typed d" "integrity X d \<Longrightarrow> trip_typed d"
  "integrity X d \<Longrightarrow> offer_typed d" "integrity X d \<Longrightarrow> surge_typed d"
  by (simp_all add: integrity_def keyspace_typed_def)

lemma surge_typed_frame: "(\<forall>c'. surge_key c' \<noteq> cmd_key c) \<Longrightarrow> surge_typed (redis_effect c d) = surge_typed d"
  by (simp add: surge_typed_def effect_frame)

lemma trips_kept_frame: "(\<forall>t. tripKey t \<noteq> cmd_key c) \<Longrightarrow> live (redis_effect c d) (tripKey t) = live d (tripKey t)"
  by (simp add: effect_frame)

text \<open>A write outside the keys of a store leaves the store's views alone.\<close>

lemma same_frames:
  "(\<forall>i. driverKey i \<noteq> cmd_key c) \<Longrightarrow> same_drivers d (redis_effect c d)"
  "(\<forall>t. tripKey t \<noteq> cmd_key c) \<Longrightarrow> (\<forall>k. idemKey k \<noteq> cmd_key c) \<Longrightarrow> offeredTripsKey \<noteq> cmd_key c \<Longrightarrow>
     same_trips d (redis_effect c d)"
  "(\<forall>t. offerKey t \<noteq> cmd_key c) \<Longrightarrow> (\<forall>i. driverOfferKey i \<noteq> cmd_key c) \<Longrightarrow> same_offers d (redis_effect c d)"
  by (simp_all add: same_drivers_def same_trips_def same_offers_def hash_field_frame str_at_frame set_at_frame
      trip_field_def offered_set_def offer_field_def offered_to_def)

text \<open>Writes to the driver store.\<close>

definition driver_write :: "cmd \<Rightarrow> bool" where
  "driver_write c \<longleftrightarrow> (\<exists>i fvs. c = HSET (driverKey i) fvs) \<or> (\<exists>i f v. c = HSETNX (driverKey i) f v) \<or>
     (\<exists>i n. c = EXPIRE (driverKey i) n) \<or> (\<exists>k i. c = SADD (cell_set_key k) i) \<or> (\<exists>k ids. c = SREM (cell_set_key k) ids)"

lemma driver_write_frame:
  assumes "driver_write c"
  shows "same_trips d (redis_effect c d)" "same_offers d (redis_effect c d)"
    and "keyspace_typed d \<Longrightarrow> keyspace_typed (redis_effect c d)"
proof -
  show "same_trips d (redis_effect c d)" "same_offers d (redis_effect c d)"
    using assms by (auto intro!: same_frames simp: driver_write_def)
  show "keyspace_typed (redis_effect c d)" if "keyspace_typed d"
    using assms that
    by (auto simp: driver_write_def keyspace_typed_def trip_typed_frame offer_typed_frame surge_typed_frame effect_frame)
qed

lemma same_trans:
  "same_trips d d1 \<Longrightarrow> same_trips d1 d2 \<Longrightarrow> same_trips d d2"
  "same_offers d d1 \<Longrightarrow> same_offers d1 d2 \<Longrightarrow> same_offers d d2"
  by (simp_all add: same_trips_def same_offers_def)

lemma integrity_driver_write:
  assumes "driver_write c" "integrity X d"
    and "\<And>i s. hash_field (redis_effect c d) (driverKey i) ''state'' = Some s \<Longrightarrow> s \<in> driver_names"
  shows "integrity X (redis_effect c d)"
  using assms driver_write_frame [OF assms(1), of d] integrity_same by (metis integrity_def)

lemma put_fields_keep: "set fvs \<subseteq> {f} \<times> UNIV \<Longrightarrow> g \<noteq> f \<Longrightarrow> put_fields fvs m g = m g"
  by (induction fvs arbitrary: m) auto

lemma integrity_driver:
  assumes "integrity X d" "to \<in> driver_names" "set extra \<subseteq> {''available_since''} \<times> UNIV"
  shows "integrity X (redis_effect (HSET (driverKey i) ((''state'', to) # extra)) d)"
proof (rule integrity_driver_write [OF _ assms(1)])
  fix j s assume "hash_field (redis_effect (HSET (driverKey i) ((''state'', to) # extra)) d) (driverKey j) ''state'' = Some s"
  then have "(if j = i then Some to else hash_field d (driverKey j) ''state'') = Some s"
    using put_fields_keep [OF assms(3)] by (simp add: hash_field_hset integrity_typed [OF assms(1)] split: if_splits)
  then show "s \<in> driver_names" using assms(1,2) by (auto simp: integrity_def states_valid_def split: if_splits)
qed (auto simp: driver_write_def)

lemma integrity_since:
  assumes "integrity X d"
  shows "integrity X (redis_effect (HSETNX (driverKey i) ''available_since'' v) d)"
    and "integrity X (redis_effect (SREM (cell_set_key c) ids) d)"
    and "integrity X (redis_effect (SADD (cell_set_key c) x) d)"
    and "0 < n \<Longrightarrow> integrity X (redis_effect (EXPIRE (driverKey i) n) d)"
proof -
  have v: "s \<in> driver_names" if "hash_field d (driverKey j) ''state'' = Some s" for j s
    using assms that by (auto simp: integrity_def states_valid_def)
  note t = integrity_typed(1) [OF assms]
  show "integrity X (redis_effect (HSETNX (driverKey i) ''available_since'' v) d)"
    by (rule integrity_driver_write [OF _ assms]) (auto simp: driver_write_def hash_field_hsetnx t dest!: v)
  show "integrity X (redis_effect (SREM (cell_set_key c) ids) d)" "integrity X (redis_effect (SADD (cell_set_key c) x) d)"
    by (rule integrity_driver_write [OF _ assms]; auto simp: driver_write_def dest!: v)+
  show "integrity X (redis_effect (EXPIRE (driverKey i) n) d)" if "0 < n"
    by (rule integrity_driver_write [OF _ assms]) (auto simp: driver_write_def hash_field_expire that dest!: v)
qed

lemma integrity_ping:
  assumes "integrity X d" "0 < ttl"
  shows "integrity X (move_effect i lat lng c upd ttl d)"
proof -
  have 1: "integrity X (drop_old_cell i c d)"
    using assms(1) integrity_since(2) by (auto simp: drop_old_cell_def split: option.splits)
  have 2: "integrity X (redis_effect (SADD (cell_set_key c) i) (drop_old_cell i c d))" (is "integrity X ?d2")
    by (rule integrity_since(3) [OF 1])
  have st: "state_or_available d i \<in> driver_names"
    using assms(1) by (auto simp: state_or_available_def integrity_def states_valid_def driver_names_def driver_states split: option.splits)
  have 3: "integrity X (redis_effect (HSET (driverKey i) (loc_fields lat lng c (state_or_available d i) upd)) ?d2)"
  proof (rule integrity_driver_write [OF _ 2])
    fix j s assume "hash_field (redis_effect (HSET (driverKey i) (loc_fields lat lng c (state_or_available d i) upd)) ?d2)
        (driverKey j) ''state'' = Some s"
    then have "(if j = i then Some (state_or_available d i) else hash_field ?d2 (driverKey j) ''state'') = Some s"
      by (simp add: hash_field_hset integrity_typed [OF 2] loc_fields_def split: if_splits)
    then show "s \<in> driver_names" using st 2 by (auto simp: integrity_def states_valid_def split: if_splits)
  qed (auto simp: driver_write_def)
  show ?thesis unfolding move_effect_def using integrity_since(4) [OF 3] assms(2) by (simp add: second_def)
qed

text \<open>References, one by one.\<close>

lemma integrity_refs:
  assumes "integrity X d"
  shows "trip_field d t \<noteq> Map.empty \<Longrightarrow> trip_known X d t" "str_at d (idemKey k) = Some t \<Longrightarrow> trip_known X d t"
    "offer_field d t \<noteq> Map.empty \<Longrightarrow> trip_known X d t" "offered_to d i = Some t \<Longrightarrow> trip_known X d t"
    "t \<in> offered_set d \<Longrightarrow> trip_known X d t"
  using assms by (auto simp: integrity_def refs_valid_def)

text \<open>Writes to trips: a known trip stays known, and no other trip is touched.\<close>

lemma trip_known_steps:
  assumes "trip_typed d" "trip_known X d t'"
  shows "to \<in> trip_names \<Longrightarrow> set extra \<subseteq> {''matched_driver_id''} \<times> UNIV \<Longrightarrow>
      trip_known X (put_trip t ((''state'', to) # extra) d) t'"
    and "\<lbrakk>\<exists>a. ParseFloat X lat = Inr a; \<exists>b. ParseFloat X lng = Inr b; \<exists>n. parse_int64 created = Inr n\<rbrakk> \<Longrightarrow>
      trip_known X (put_new_trip t rider lat lng k created d) t'"
  using assms
  by (auto simp: trip_known_def put_trip_fields put_new_trip_facts new_trip_fields_def trip_fields_ok_def
      put_fields_keep field_def trip_names_def trip_states)

lemma trip_write_frame:
  assumes "integrity X d"
  shows "keyspace_typed (put_trip t fvs d)" "same_offers d (put_trip t fvs d)"
    "hash_field (put_trip t fvs d) (driverKey i) = hash_field d (driverKey i)"
    "str_at (put_trip t fvs d) (idemKey k) = str_at d (idemKey k)"
proof -
  have k: "keyspace_typed d" using assms by (simp add: integrity_def)
  moreover have "e = None" if "live (put_trip t fvs d) (tripKey t') = Some (v, e)" for t' v e
    using that k unfolding keyspace_typed_def put_trip_def
    by (auto simp: live_effect split: if_splits option.splits rval.splits prod.splits)
  ultimately show "keyspace_typed (put_trip t fvs d)"
    by (auto simp: keyspace_typed_def put_trip_def drv_typed_frame offer_typed_frame surge_typed_frame)
  show "same_offers d (put_trip t fvs d)" unfolding put_trip_def by (rule same_frames) simp_all
  show "hash_field (put_trip t fvs d) (driverKey i) = hash_field d (driverKey i)"
    "str_at (put_trip t fvs d) (idemKey k) = str_at d (idemKey k)"
    by (simp_all add: put_trip_def hash_field_frame str_at_frame)
qed

lemma integrity_trips:
  assumes "integrity X d" "keyspace_typed d'" "same_offers d d'"
    and "\<And>i. hash_field d' (driverKey i) = hash_field d (driverKey i)"
    and "\<And>t. trip_known X d t \<Longrightarrow> trip_known X d' t"
    and "\<And>t. trip_field d' t \<noteq> Map.empty \<Longrightarrow> trip_known X d' t"
    and "\<And>k t. str_at d' (idemKey k) = Some t \<Longrightarrow> trip_known X d' t"
    and "\<And>t. t \<in> offered_set d' \<Longrightarrow> trip_known X d' t"
  shows "integrity X d'"
  using assms by (simp add: integrity_def states_valid_def refs_valid_def same_offers_def)

lemma integrity_trip:
  assumes "integrity X d" "trip_known X d t" "to \<in> trip_names" "set extra \<subseteq> {''matched_driver_id''} \<times> UNIV"
  shows "integrity X (put_trip t ((''state'', to) # extra) d)"
proof (rule integrity_trips [OF assms(1)])
  have k: "trip_known X (put_trip t ((''state'', to) # extra) d) t'" if "trip_known X d t'" for t'
    using integrity_typed(2) [OF assms(1)] that assms(3,4) by (rule trip_known_steps(1))
  then show "trip_known X d t' \<Longrightarrow> trip_known X (put_trip t ((''state'', to) # extra) d) t'" for t' .
  show "trip_known X (put_trip t ((''state'', to) # extra) d) t'"
    if "trip_field (put_trip t ((''state'', to) # extra) d) t' \<noteq> Map.empty" for t'
  proof (cases "t' = t")
    case False
    then have "trip_field d t' \<noteq> Map.empty" using that by (simp add: put_trip_fields integrity_typed(2) [OF assms(1)])
    then show ?thesis using k assms(1) by (simp add: integrity_def refs_valid_def)
  qed (use k assms(2) in simp)
  show "trip_known X (put_trip t ((''state'', to) # extra) d) t'"
    if "str_at (put_trip t ((''state'', to) # extra) d) (idemKey k') = Some t'" for k' t'
    using that k integrity_refs(2) [OF assms(1)] by (simp add: trip_write_frame [OF assms(1)])
  show "trip_known X (put_trip t ((''state'', to) # extra) d) t'"
    if "t' \<in> offered_set (put_trip t ((''state'', to) # extra) d)" for t'
    using that k integrity_refs(5) [OF assms(1)] by simp
qed (simp_all add: trip_write_frame [OF assms(1)])

lemma integrity_idem:
  assumes "integrity X d"
  shows "keyspace_typed (redis_effect (SET (idemKey k) t ttl) d)"
    "same_offers d (redis_effect (SET (idemKey k) t ttl) d)"
  using assms
  by (auto simp: integrity_def keyspace_typed_def drv_typed_frame offer_typed_frame surge_typed_frame effect_frame
      intro!: same_frames)

lemma integrity_new_trip:
  assumes "integrity X d" "text_formats X" "is_f64 lat" "is_f64 lng" "in_i64 now"
  shows "integrity X (put_new_trip t rider (fmt_f64 X lat) (fmt_f64 X lng) k (itoa now) d)" (is "integrity X ?d")
proof (rule integrity_trips [OF assms(1)])
  let ?fs = "new_trip_fields rider (fmt_f64 X lat) (fmt_f64 X lng) k (itoa now)"
  let ?e = "redis_effect (SET (idemKey k) t (Some IdempotencyTTL)) d"
  note ty = integrity_typed(2) [OF assms(1)]
  note f = put_new_trip_facts [OF ty, of t rider "fmt_f64 X lat" "fmt_f64 X lng" k "itoa now"]
  note p = text_formats.parse_fmt [OF assms(2)]
  have known: "trip_known X ?d t'" if "t' = t \<or> trip_known X d t'" for t'
    using that p assms(3-5)
    by (auto simp: trip_known_def f new_trip_fields_def trip_fields_ok_def field_def trip_names_def trip_states)
  then show "trip_known X d t' \<Longrightarrow> trip_known X ?d t'" for t' by blast
  show "keyspace_typed ?d"
  proof -
    have "keyspace_typed ?e" by (rule integrity_idem [OF assms(1)])
    moreover have "e = None" if "live ?d (tripKey t') = Some (v, e)" for t' v e
      using that calculation unfolding keyspace_typed_def put_new_trip_def put_trip_def
      by (auto simp: live_effect split: if_splits option.splits rval.splits prod.splits)
    ultimately show ?thesis
      by (auto simp: keyspace_typed_def put_new_trip_def put_trip_def drv_typed_frame offer_typed_frame surge_typed_frame)
  qed
  show "same_offers d ?d"
    unfolding put_new_trip_def put_trip_def
    by (rule same_trans(2) [OF integrity_idem(2) [OF assms(1)]]) (auto intro: same_frames)
  show "hash_field ?d (driverKey i) = hash_field d (driverKey i)" for i
    by (simp add: put_new_trip_def put_trip_def hash_field_frame)
  show "trip_known X ?d t'" if "trip_field ?d t' \<noteq> Map.empty" for t'
    using that assms(1) known [of t'] by (auto simp: f integrity_def refs_valid_def split: if_splits)
  show "trip_known X ?d t'" if "str_at ?d (idemKey k') = Some t'" for k' t'
  proof (cases "k' = k")
    case False
    then have "str_at d (idemKey k') = Some t'" using that by (simp add: put_new_trip_def put_trip_def str_at_frame)
    then show ?thesis using assms(1) known [of t'] by (simp add: integrity_def refs_valid_def)
  qed (use that f(3) known in simp)
  show "trip_known X ?d t'" if "t' \<in> offered_set ?d" for t'
    using that assms(1) known [of t'] by (auto simp: f integrity_def refs_valid_def)
qed

lemma integrity_index:
  assumes "integrity X d" "c = SREM offeredTripsKey ts \<or> (c = SADD offeredTripsKey t \<and> trip_known X d t)"
  shows "integrity X (redis_effect c d)"
proof (rule integrity_trips [OF assms(1)])
  note ty = integrity_typed(2) [OF assms(1)]
  have f: "trip_field (redis_effect c d) t' = trip_field d t'" "str_at (redis_effect c d) (idemKey k) = str_at d (idemKey k)" for t' k
    using assms(2) by (auto simp: trip_field_def hash_field_frame str_at_frame)
  have s: "offered_set (redis_effect c d) = offered_set d - set ts \<or>
      offered_set (redis_effect c d) = insert t (offered_set d) \<and> trip_known X d t"
    using assms(2) ty by (auto simp: offered_set_def set_at_writes trip_typed_def)
  show "keyspace_typed (redis_effect c d)"
    using assms by (auto simp: integrity_def keyspace_typed_def drv_typed_frame offer_typed_frame surge_typed_frame effect_frame)
  show "same_offers d (redis_effect c d)" using assms(2) by (auto intro!: same_frames)
  show "hash_field (redis_effect c d) (driverKey i) = hash_field d (driverKey i)" for i
    using assms(2) by (auto simp: hash_field_frame)
  have k: "trip_known X (redis_effect c d) t' = trip_known X d t'" for t' by (simp add: trip_known_def f)
  then show "trip_known X d t' \<Longrightarrow> trip_known X (redis_effect c d) t'" for t' by simp
  show "trip_known X (redis_effect c d) t'" if "trip_field (redis_effect c d) t' \<noteq> Map.empty" for t'
    using that integrity_refs(1) [OF assms(1)] by (simp add: k f)
  show "trip_known X (redis_effect c d) t'" if "str_at (redis_effect c d) (idemKey k') = Some t'" for k' t'
    using that integrity_refs(2) [OF assms(1)] by (simp add: k f)
  show "trip_known X (redis_effect c d) t'" if "t' \<in> offered_set (redis_effect c d)" for t'
    using that s integrity_refs(5) [OF assms(1)] by (auto simp: k)
qed

text \<open>Writes to offers.\<close>

lemma offer_write_frame:
  assumes "integrity X d" "(\<exists>t fvs. c = HSET (offerKey t) fvs) \<or> (\<exists>t n. c = EXPIRE (offerKey t) n) \<or>
      (\<exists>i v ttl. c = SET (driverOfferKey i) v ttl) \<or> (\<exists>i. c = DEL (driverOfferKey i))"
  shows "keyspace_typed (redis_effect c d)" "same_trips d (redis_effect c d)"
    "hash_field (redis_effect c d) (driverKey i) = hash_field d (driverKey i)"
proof -
  show "keyspace_typed (redis_effect c d)"
    using assms by (auto simp: integrity_def keyspace_typed_def drv_typed_frame trip_typed_frame surge_typed_frame effect_frame)
  show "same_trips d (redis_effect c d)" "hash_field (redis_effect c d) (driverKey i) = hash_field d (driverKey i)"
    using assms(2) by (auto intro!: same_frames simp: hash_field_frame)
qed

lemma integrity_offer_write:
  assumes "integrity X d" "(\<exists>t fvs. c = HSET (offerKey t) fvs) \<or> (\<exists>t n. c = EXPIRE (offerKey t) n) \<or>
      (\<exists>i v ttl. c = SET (driverOfferKey i) v ttl) \<or> (\<exists>i. c = DEL (driverOfferKey i))"
    and "\<And>t s. offer_field (redis_effect c d) t ''state'' = Some s \<Longrightarrow> s \<in> offer_names"
    and "\<And>t. offer_field (redis_effect c d) t \<noteq> Map.empty \<Longrightarrow> trip_known X d t"
    and "\<And>i t. offered_to (redis_effect c d) i = Some t \<Longrightarrow> trip_known X d t"
  shows "integrity X (redis_effect c d)"
proof (rule integrity_same_trips [OF assms(1) offer_write_frame(1,2) [OF assms(1,2)] _ assms(4,5)])
  show "states_valid (redis_effect c d)"
    using assms(1,3) by (simp add: integrity_def states_valid_def offer_write_frame(3) [OF assms(1,2)])
qed

lemma offer_field_hset:
  "offer_typed d \<Longrightarrow> offer_field (redis_effect (HSET (offerKey t) fvs) d) t' =
     (if t' = t then put_fields fvs (offer_field d t) else offer_field d t')"
  by (simp add: offer_field_def hash_field_hset_at hash_field_frame offer_typed_def)

lemma integrity_offer_hset:
  assumes "integrity X d" "trip_known X d t" "put_fields fvs (offer_field d t) ''state'' = Some s" "s \<in> offer_names"
  shows "integrity X (redis_effect (HSET (offerKey t) fvs) d)"
  by (rule integrity_offer_write [OF assms(1)])
    (use assms in \<open>auto simp: offer_field_hset offered_to_def str_at_frame integrity_typed integrity_def refs_valid_def
        states_valid_def split: if_splits\<close>)

lemma integrity_offer_misc:
  assumes "integrity X d"
  shows "0 < n \<Longrightarrow> integrity X (redis_effect (EXPIRE (offerKey t) n) d)"
    and "trip_known X d t \<Longrightarrow> integrity X (redis_effect (SET (driverOfferKey i) t ttl) d)"
    and "integrity X (redis_effect (DEL (driverOfferKey i)) d)"
proof -
  note r = integrity_refs [OF assms]
  have v: "s \<in> offer_names" if "hash_field d (offerKey t) ''state'' = Some s" for t s
    using assms that by (auto simp: integrity_def states_valid_def offer_field_def)
  show "integrity X (redis_effect (EXPIRE (offerKey t) n) d)" if "0 < n"
    by (rule integrity_offer_write [OF assms])
      (use that r v in \<open>auto simp: offer_field_def hash_field_expire_at offered_to_def str_at_frame\<close>)
  show "integrity X (redis_effect (SET (driverOfferKey i) t ttl) d)" if "trip_known X d t"
  proof (rule integrity_offer_write [OF assms])
    show "trip_known X d t'" if "offered_to (redis_effect (SET (driverOfferKey i) t ttl) d) j = Some t'" for j t'
      using that \<open>trip_known X d t\<close> r(4) [of j t']
      by (cases "j = i") (auto simp: offered_to_def str_at_frame)
  qed (use r(3) v in \<open>auto simp: offer_field_def hash_field_frame\<close>)
  show "integrity X (redis_effect (DEL (driverOfferKey i)) d)"
  proof (rule integrity_offer_write [OF assms])
    show "trip_known X d t'" if "offered_to (redis_effect (DEL (driverOfferKey i)) d) j = Some t'" for j t'
      using that r(4) [of j t'] by (cases "j = i") (auto simp: offered_to_def str_at_frame str_at_def live_effect)
  qed (use r(3) v in \<open>auto simp: offer_field_def hash_field_frame\<close>)
qed

lemma trip_known_frame: "(\<forall>t. tripKey t \<noteq> cmd_key c) \<Longrightarrow> trip_known X (redis_effect c d) t = trip_known X d t"
  by (simp add: trip_known_def trip_field_def hash_field_frame)

lemma integrity_offer:
  assumes "integrity X d" "trip_known X d t" "0 < ttl"
  shows "integrity X (open_offer t i rno created ttl ttl' d)"
proof -
  have 1: "integrity X (redis_effect (HSET (offerKey t) (offer_fields i rno created)) d)" (is "integrity X ?d1")
    by (rule integrity_offer_hset [OF assms(1,2), where s = OfferPending]) (simp_all add: offer_fields_def offer_names_def)
  have 2: "integrity X (redis_effect (EXPIRE (offerKey t) ttl) ?d1)" by (rule integrity_offer_misc(1) [OF 1 assms(3)])
  show ?thesis
    unfolding open_offer_def by (rule integrity_offer_misc(2) [OF 2]) (simp add: trip_known_frame assms(2))
qed

lemma integrity_answer:
  assumes "integrity X d" "trip_known X d t" "to \<in> offer_names"
  shows "integrity X (redis_effect (HSET (offerKey t) [(''state'', to)]) d)"
  by (rule integrity_offer_hset [OF assms(1,2) _ assms(3)]) simp

lemma integrity_surge:
  assumes "integrity X d"
  shows "integrity X (redis_effect (SET (surge_key c) v ttl) d)"
proof (rule integrity_same [OF assms])
  let ?c = "SET (surge_key c) v ttl"
  have "surge_typed (redis_effect ?c d)"
    using assms by (auto simp: integrity_def keyspace_typed_def surge_typed_def live_effect str_entry_def)
  then show "keyspace_typed (redis_effect ?c d)"
    using assms by (auto simp: integrity_def keyspace_typed_def drv_typed_frame trip_typed_frame offer_typed_frame effect_frame)
  show "same_trips d (redis_effect ?c d)" "same_offers d (redis_effect ?c d)" by (auto intro!: same_frames)
  show "s \<in> driver_names" if "hash_field (redis_effect ?c d) (driverKey i) ''state'' = Some s" for i s
    using that assms by (auto simp: hash_field_frame integrity_def states_valid_def)
qed

text \<open>Time passes: entries vanish, but never a trip.\<close>

lemma elapse_views:
  "hash_field (elapse dt d) k = hash_field d k \<or> hash_field (elapse dt d) k = Map.empty"
  "str_at (elapse dt d) k = str_at d k \<or> str_at (elapse dt d) k = None"
  "set_at (elapse dt d) k = set_at d k \<or> set_at (elapse dt d) k = {}"
  "(\<And>v e. live d k = Some (v, e) \<Longrightarrow> e = None) \<Longrightarrow> live (elapse dt d) k = live d k"
  by (auto simp: hash_field_def str_at_def set_at_def elapse_def fun_eq_iff split: option.splits)

lemma elapse_sub:
  "hash_field (elapse dt d) k f = Some v \<Longrightarrow> hash_field d k f = Some v"
  "hash_field (elapse dt d) k \<noteq> Map.empty \<Longrightarrow> hash_field d k \<noteq> Map.empty"
  "str_at (elapse dt d) k = Some x \<Longrightarrow> str_at d k = Some x"
  "y \<in> set_at (elapse dt d) k \<Longrightarrow> y \<in> set_at d k"
  using elapse_views(1-3) [of dt d k] by auto

lemma integrity_time:
  assumes "integrity X d"
  shows "integrity X (elapse dt d)" and "trip_known X (elapse dt d) t = trip_known X d t"
proof -
  have ty: "keyspace_typed d" using assms by (simp add: integrity_def)
  have l: "live (elapse dt d) (tripKey t) = live d (tripKey t)" for t
    using ty by (intro elapse_views(4)) (auto simp: keyspace_typed_def)
  have "hash_field (elapse dt d) (tripKey t) = hash_field d (tripKey t)" for t
    by (intro ext) (simp add: hash_field_def l)
  then have k: "trip_known X (elapse dt d) t = trip_known X d t" for t
    by (simp add: trip_known_def trip_field_def)
  then show "trip_known X (elapse dt d) t = trip_known X d t" .
  have "keyspace_typed (elapse dt d)"
    using ty unfolding keyspace_typed_def l
    by (auto simp: drv_typed_def trip_typed_def offer_typed_def surge_typed_def entry_elapse)
  moreover have "states_valid (elapse dt d)"
    using assms by (auto simp: integrity_def states_valid_def offer_field_def dest: elapse_sub(1))
  moreover have "refs_valid X (elapse dt d)"
    unfolding refs_valid_def k trip_field_def offer_field_def offered_to_def offered_set_def
  proof (intro conjI allI ballI impI)
    note r = integrity_refs [OF assms, unfolded trip_field_def offer_field_def offered_to_def offered_set_def]
    show "trip_known X d t" if "hash_field (elapse dt d) (tripKey t) \<noteq> Map.empty" for t
      by (rule r(1) [OF elapse_sub(2) [OF that]])
    show "trip_known X d t" if "str_at (elapse dt d) (idemKey k) = Some t" for k t
      by (rule r(2) [OF elapse_sub(3) [OF that]])
    show "trip_known X d t" if "hash_field (elapse dt d) (offerKey t) \<noteq> Map.empty" for t
      by (rule r(3) [OF elapse_sub(2) [OF that]])
    show "trip_known X d t" if "str_at (elapse dt d) (driverOfferKey i) = Some t" for i t
      by (rule r(4) [OF elapse_sub(3) [OF that]])
    show "trip_known X d t" if "t \<in> set_at (elapse dt d) offeredTripsKey" for t
      by (rule r(5) [OF elapse_sub(4) [OF that]])
  qed
  ultimately show "integrity X (elapse dt d)" by (simp add: integrity_def)
qed

text \<open>Every step keeps integrity, and keeps every known trip known.\<close>

lemma integrity_step:
  assumes "redis_step X d d'" "integrity X d" "text_formats X"
  shows "integrity X d'"
  using assms
proof (cases rule: redis_step.cases)
  case (new_trip lat lng now t rider k)
  then show ?thesis using integrity_new_trip [OF assms(2,3)] by simp
next
  case (trip t to extra)
  then show ?thesis using integrity_trip [OF assms(2)] by simp
qed (use assms(2) in \<open>simp_all add: integrity_time integrity_ping integrity_driver integrity_since integrity_index
    integrity_offer integrity_answer integrity_offer_misc integrity_surge\<close>)

lemma trip_known_driver_write: "driver_write c \<Longrightarrow> trip_known X (redis_effect c d) t = trip_known X d t"
  using driver_write_frame(1) [of c d] by (simp add: trip_known_def same_trips_def)

lemma trip_known_move: "trip_known X (move_effect i lat lng c upd ttl d) t = trip_known X d t"
proof -
  have "trip_known X (drop_old_cell i c d) t = trip_known X d t"
    by (simp add: drop_old_cell_def trip_known_frame split: option.splits)
  then show ?thesis by (simp add: move_effect_def trip_known_frame)
qed

lemma trip_known_step:
  assumes "redis_step X d d'" "integrity X d" "text_formats X" "trip_known X d t"
  shows "trip_known X d' t"
  using assms(1)
proof (cases rule: redis_step.cases)
  case (new_trip lat lng now t' rider k)
  have "\<exists>n. parse_int64 (itoa now) = Inr n" using new_trip(4) by simp
  then show ?thesis
    unfolding new_trip(1)
    using trip_known_steps(2) [OF integrity_typed(2) [OF assms(2)] assms(4)] text_formats.parse_fmt [OF assms(3)] new_trip(2,3)
    by blast
next
  case (trip t' to extra)
  then show ?thesis using trip_known_steps(1) [OF integrity_typed(2) [OF assms(2)] assms(4)] by simp
next
  case (offer t' ttl i rno created ttl')
  then show ?thesis using assms(4) by (simp add: open_offer_def trip_known_frame)
qed (use assms(4) in \<open>simp_all add: integrity_time(2) [OF assms(2)] trip_known_move trip_known_frame\<close>)

lemma integrity_steps:
  assumes "redis_steps X d d'" "integrity X d" "text_formats X"
  shows "integrity X d'" and "trip_known X d t \<Longrightarrow> trip_known X d' t"
proof -
  from assms have "integrity X d' \<and> (trip_known X d t \<longrightarrow> trip_known X d' t)" for t
    by (induction rule: rtranclp_induct) (auto intro: integrity_step trip_known_step)
  then show "integrity X d'" "trip_known X d t \<Longrightarrow> trip_known X d' t" by blast+
qed

lemma empty_views [simp]:
  "hash_field empty_db k = Map.empty" "str_at empty_db k = None" "set_at empty_db k = {}" "live empty_db k = None"
  by (auto simp: hash_field_def str_at_def set_at_def empty_db_def)

lemma integrity_empty: "integrity X empty_db"
  by (simp add: integrity_def keyspace_typed_def states_valid_def refs_valid_def drv_typed_def surge_typed_def
      offer_field_def trip_field_def offered_to_def offered_set_def)

end
