(* ===== verification/System.thy ===== *)
theory System
  imports Integrity Services SurgeService Recovery
begin

text \<open>
  The whole system: riders, drivers, disco processes, sweeps and the surge service at work
  on one Redis, in any order and at the same time. Every operation only takes steps of the
  protocol of theory \<open>Integrity\<close>, provided the other clients whose requests come in
  between do; so the integrity of the keyspace is an invariant of the system.
\<close>

section \<open>Guarantees\<close>

text \<open>
  Started where \<open>P\<close> holds, \<open>m\<close> takes the keyspace, seen through \<open>v\<close>, along steps of the
  protocol, its own and those of others, whether or not it succeeds.
\<close>

definition guar :: "'w ext \<Rightarrow> ('s \<Rightarrow> rdb) \<Rightarrow> (rdb \<Rightarrow> bool) \<Rightarrow> ('s, 'a) io \<Rightarrow> bool" where
  "guar X v P m \<longleftrightarrow> (\<forall>s. P (v s) \<longrightarrow> redis_steps X (v s) (v (snd (m s))))"

definition kept :: "'w ext \<Rightarrow> (rdb \<Rightarrow> bool) \<Rightarrow> bool" where
  "kept X P \<longleftrightarrow> (\<forall>d d'. redis_steps X d d' \<longrightarrow> P d \<longrightarrow> P d')"

definition knows :: "'w ext \<Rightarrow> string \<Rightarrow> rdb \<Rightarrow> bool" where
  "knows X t d \<longleftrightarrow> integrity X d \<and> trip_known X d t"

named_theorems guar_intro "rules that take an operation apart"

lemma one_step: "redis_step X d d' \<Longrightarrow> redis_steps X d d'"
  by (rule r_into_rtranclp)

lemma guarI: "(\<And>s. P (v s) \<Longrightarrow> redis_steps X (v s) (v (snd (m s)))) \<Longrightarrow> guar X v P m"
  by (simp add: guar_def)

lemma guarD: "guar X v P m \<Longrightarrow> P (v s) \<Longrightarrow> redis_steps X (v s) (v (snd (m s)))"
  by (simp add: guar_def)

lemma guar_still: "(\<And>s. v (snd (m s)) = v s) \<Longrightarrow> guar X v P m"
  by (simp add: guar_def)

lemma guar_pure [guar_intro]: "guar X v P (io_return x)" "guar X v P (io_fail e)" "guar X v P (io_lift r)"
  by (simp_all add: guar_still)

lemma guar_bind:
  assumes "kept X P" "guar X v P m" "\<And>x. guar X v P (f x)"
  shows "guar X v P (io_bind m f)"
proof (rule guarI)
  fix s assume P: "P (v s)"
  obtain r s' where m: "m s = (r, s')" by (cases "m s")
  then have st: "redis_steps X (v s) (v s')" using guarD [OF assms(2) P] by simp
  then have P': "P (v s')" using assms(1) P unfolding kept_def by blast
  show "redis_steps X (v s) (v (snd (io_bind m f s)))"
  proof (cases r)
    case (Inr x)
    then show ?thesis using m rtranclp_trans [OF st guarD [OF assms(3) P']] by simp
  qed (use m st in simp)
qed

text \<open>What a step has found out holds for the rest.\<close>

lemma guar_then:
  assumes "guar X v P m" "\<And>x s s'. P (v s) \<Longrightarrow> m s = (Inr x, s') \<Longrightarrow> Q x (v s')" "\<And>x. guar X v (Q x) (f x)"
  shows "guar X v P (io_bind m f)"
proof (rule guarI)
  fix s assume P: "P (v s)"
  obtain r s' where m: "m s = (r, s')" by (cases "m s")
  then have st: "redis_steps X (v s) (v s')" using guarD [OF assms(1) P] by simp
  show "redis_steps X (v s) (v (snd (io_bind m f s)))"
  proof (cases r)
    case (Inr x)
    then have "Q x (v s')" using assms(2) [OF P] m by simp
    then show ?thesis using Inr m rtranclp_trans [OF st guarD [OF assms(3)]] by simp
  qed (use m st in simp)
qed

lemma guar_wrap [guar_intro]: "guar X v P m \<Longrightarrow> guar X v P (io_wrap msg m)"
  by (simp add: guar_def)

lemma guar_try [guar_intro]: "guar X v P m \<Longrightarrow> guar X v P (io_try m)"
  by (simp add: guar_def)

lemma guar_if [guar_intro]: "(c \<Longrightarrow> guar X v P a) \<Longrightarrow> (\<not> c \<Longrightarrow> guar X v P b) \<Longrightarrow> guar X v P (if c then a else b)"
  by simp

lemma guar_option [guar_intro]:
  "(x = None \<Longrightarrow> guar X v P a) \<Longrightarrow> (\<And>y. x = Some y \<Longrightarrow> guar X v P (b y)) \<Longrightarrow> guar X v P (case x of None \<Rightarrow> a | Some y \<Rightarrow> b y)"
  by (cases x) simp_all

lemma guar_sum [guar_intro]:
  "(\<And>e. x = Inl e \<Longrightarrow> guar X v P (a e)) \<Longrightarrow> (\<And>y. x = Inr y \<Longrightarrow> guar X v P (b y)) \<Longrightarrow>
     guar X v P (case x of Inl e \<Rightarrow> a e | Inr y \<Rightarrow> b y)"
  by (cases x) simp_all

lemma guar_weaken: "guar X v Q m \<Longrightarrow> (\<And>d. P d \<Longrightarrow> Q d) \<Longrightarrow> guar X v P m"
  by (simp add: guar_def)

text \<open>The same operation on a node and in a cluster.\<close>

lemma guar_on_world [guar_intro]: "guar X (db X) P m \<Longrightarrow> guar X (\<lambda>n. db X (world n)) P (on_world m)"
  by (simp add: guar_def)

lemma guar_on_shared [guar_intro]: "guar X (db X) P m \<Longrightarrow> guar X (\<lambda>C. db X (shared C)) P (on_shared m)"
  by (simp add: guar_def on_shared_def split_beta)

lemma guar_on_node [guar_intro]:
  fixes X :: "'w ext" and m :: "('w node, 'a) io"
  assumes m: "guar X (\<lambda>n. db X (world n)) P m"
  shows "guar X (\<lambda>C. db X (shared C)) P (on_node a m)"
proof (rule guarI)
  fix C :: "'w cluster" assume P: "P (db X (shared C))"
  show "redis_steps X (db X (shared C)) (db X (shared (snd (on_node a m C))))"
  proof (cases "procs C a")
    case (Some p)
    then show ?thesis using guarD [OF m, of "node_at C p"] P by (simp add: on_node_def split_beta node_at_def)
  qed (simp add: on_node_def)
qed

section \<open>Requests\<close>

locale shared_redis = redis_server X "redis_steps X" + text_formats X for X :: "'w ext"
begin

lemma kept_integrity: "kept X (integrity X)"
  using integrity_steps(1) text_formats_axioms unfolding kept_def by blast

lemma kept_knows: "kept X (knows X t)"
  using integrity_steps text_formats_axioms unfolding kept_def knows_def by blast

lemmas bind_integrity [guar_intro] = guar_bind [OF kept_integrity]
lemmas bind_knows [guar_intro] = guar_bind [OF kept_knows]

lemma guar_knows: "guar X v (integrity X) m \<Longrightarrow> guar X v (knows X t) m"
  by (erule guar_weaken) (simp add: knows_def)

lemma guar_request:
  assumes "kept X P" "\<And>w. P (db X w) \<Longrightarrow> redis_steps X (db X w) (db X (snd (m w)))"
  shows "guar X (db X) P (request X m)"
proof (rule guarI)
  fix w assume P: "P (db X w)"
  have l: "redis_steps X (db X w) (db X (snd (link X w)))" by (rule link_env)
  then have "P (db X (snd (link X w)))" using assms(1) P unfolding kept_def by blast
  then have "redis_steps X (db X w) (db X (snd (m (snd (link X w)))))" using rtranclp_trans [OF l assms(2)] by simp
  with l show "redis_steps X (db X w) (db X (snd (request X m w)))"
    by (auto simp: request_def split: prod.splits option.splits netfault.splits)
qed

lemma guar_call:
  assumes "kept X P" "\<And>d. P d \<Longrightarrow> redis_steps X d (redis_effect c d)"
  shows "guar X (db X) P (call X c)" "guar X (db X) P (call_string X c)" "guar X (db X) P (call_fields X c)"
    "guar X (db X) P (call_strings X c)" "guar X (db X) P (call_unit X c)"
proof -
  show *: "guar X (db X) P (call X c)"
    unfolding call_def by (rule guar_request [OF assms(1)]) (simp add: assms(2))
  show "guar X (db X) P (call_string X c)" "guar X (db X) P (call_fields X c)"
    "guar X (db X) P (call_strings X c)" "guar X (db X) P (call_unit X c)"
    unfolding call_string_def call_fields_def call_strings_def call_unit_def
    by (rule guar_bind [OF assms(1) *], rule guar_pure)+
qed

text \<open>Reads change nothing, writes are steps.\<close>

lemma guar_reads [guar_intro]:
  assumes "kept X P"
  shows "guar X (db X) P (call_string X (GET k))" "guar X (db X) P (call_string X (HGET k f))"
    "guar X (db X) P (call_fields X (HGETALL k))" "guar X (db X) P (call_strings X (SMEMBERS k))"
    "guar X (db X) P (call X (EXISTS k))" "guar X (db X) P (call X (HGETALL k))"
  by (intro guar_call [OF assms]; simp)+

lemma guar_write:
  assumes "kept X P" "\<And>d. P d \<Longrightarrow> redis_step X d (redis_effect c d)"
  shows "guar X (db X) P (call_unit X c)"
  by (rule guar_call(5) [OF assms(1)]) (rule r_into_rtranclp, rule assms(2))

lemma guar_pipeline:
  assumes "kept X P" "\<And>c. c \<in> set cs \<Longrightarrow> guar X (db X) P (call X c)"
  shows "guar X (db X) P (pipeline X cs)"
  using assms(2) by (induction cs) (auto intro!: guar_bind [OF assms(1)] guar_pure)

lemmas kept_both [guar_intro] = kept_integrity kept_knows

end

section \<open>The stores\<close>

context shared_redis
begin

lemma moved:
  assumes "integrity X (db X w)" "0 < ttl"
  shows "redis_steps X (db X w) (db X (snd (moveDriverScript X (driverKey i) (cellKey X c) i a b (CellString X c) u ttl w)))"
proof -
  obtain w' where "moveDriverScript X (driverKey i) (cell_set_key (CellString X c)) i a b (CellString X c) u ttl w =
      (Inr (state_or_available (db X w) i), w')" and "db X w' = move_effect i a b (CellString X c) u ttl (db X w)"
    using moveDriverScript_run integrity_typed(1) [OF assms(1)] by blast
  then show ?thesis using redis_step.ping [OF assms(2), THEN one_step] by (simp add: cellKey_def)
qed

lemma guar_UpdateLocation: "guar X (db X) (integrity X) (UpdateLocation X res i lat lng)"
proof -
  have ttl: "0 < DriverLocationTTL div second" by (simp add: DriverLocationTTL_def second_def)
  have a: "guar X (db X) (integrity X) (\<lambda>w. request X (moveDriverScript X (driverKey i) (cellKey X c) i a b (CellString X c)
      (itoa (to_unix (wall X w))) (DriverLocationTTL div second)) w)" for c a b
    by (rule guarI, rule guarD [OF guar_request [OF kept_integrity moved [OF _ ttl]]])
  have b: "guar X (db X) (integrity X)
      (\<lambda>w. call_unit X (HSETNX (driverKey i) ''available_since'' (itoa (to_unix (wall X w)))) w)"
    by (rule guarI, rule guarD [OF guar_write [OF kept_integrity redis_step.since]])
  have "guar X (db X) (integrity X) (\<lambda>w. (Inr (ev w), w))" for ev :: "_ \<Rightarrow> event" by (simp add: guar_still)
  then show ?thesis unfolding UpdateLocation_def by (intro guar_intro a b)
qed

lemma guar_SetState: "to \<in> driver_names \<Longrightarrow> guar X (db X) (integrity X) (SetState X i to)"
proof -
  assume to: "to \<in> driver_names"
  have w: "guar X (db X) (integrity X) (\<lambda>w.
       if to = DriverAvailable
       then call_unit X (HSET (driverKey i) [(''state'', to), (''available_since'', itoa (to_unix (wall X w)))]) w
       else call_unit X (HSET (driverKey i) [(''state'', to)]) w)"
  proof (rule guarI)
    fix w assume I: "integrity X (db X w)"
    have "guar X (db X) (integrity X) (call_unit X (HSET (driverKey i) ((''state'', to) # extra)))"
      if "set extra \<subseteq> {''available_since''} \<times> UNIV" for extra
      by (rule guar_write [OF kept_integrity redis_step.driver [OF to that]])
    from guarD [OF this I, of "[(''available_since'', itoa (to_unix (wall X w)))]"] guarD [OF this I, of "[]"]
    show "redis_steps X (db X w) (db X (snd (if to = DriverAvailable
       then call_unit X (HSET (driverKey i) [(''state'', to), (''available_since'', itoa (to_unix (wall X w)))]) w
       else call_unit X (HSET (driverKey i) [(''state'', to)]) w)))" by (cases "to = DriverAvailable") simp_all
  qed
  show ?thesis unfolding SetState_def SetState_write_def by (intro guar_intro w)
qed

lemma guar_GetDrivers: "guar X (db X) (integrity X) (GetDrivers X ids)"
  unfolding GetDrivers_def Let_def
  by (intro guar_intro guar_pipeline [OF kept_integrity]) (auto intro: guar_reads [OF kept_integrity])

lemma guar_DriversInCell: "guar X (db X) (integrity X) (DriversInCell X c)"
proof -
  have "guar X (db X) (integrity X) (call_unit X (SREM (cellKey X c) ids))" for ids
    unfolding cellKey_def by (rule guar_write [OF kept_integrity redis_step.swept])
  then show ?thesis
    unfolding DriversInCell_def Let_def
    by (intro guar_intro guar_pipeline [OF kept_integrity]) (auto intro: guar_reads [OF kept_integrity])
qed

lemma guar_GetTrip: "guar X (db X) (integrity X) (GetTrip X t)"
  unfolding GetTrip_def by (intro guar_intro)

lemma GetTrip_knows: "integrity X (db X w) \<Longrightarrow> GetTrip X t w = (Inr trip, w') \<Longrightarrow> knows X t (db X w')"
  using GetTrip_true trip_at_known guarD [OF guar_GetTrip, of w t] integrity_steps(1) text_formats_axioms
  unfolding knows_def by (metis snd_conv)

lemma created:
  assumes "integrity X (db X w)" "is_f64 lat" "is_f64 lng"
  shows "redis_steps X (db X w) (db X (snd (createTripScript X (idemKey k) (tripKey cand) cand rider (fmt_f64 X lat) (fmt_f64 X lng)
      (itoa (to_unix (wall X w1))) (IdempotencyTTL div second) k w)))"
proof -
  let ?u = "to_unix (wall X w1)"
  obtain w' where "createTripScript X (idemKey k) (tripKey cand) cand rider (fmt_f64 X lat) (fmt_f64 X lng) (itoa ?u)
      (IdempotencyTTL div second) k w = (Inr (case str_at (db X w) (idemKey k) of Some t \<Rightarrow> t | None \<Rightarrow> cand), w')"
    and "db X w' = (case str_at (db X w) (idemKey k) of Some t \<Rightarrow> db X w
      | None \<Rightarrow> put_new_trip cand rider (fmt_f64 X lat) (fmt_f64 X lng) k (itoa ?u) (db X w))"
    using createTripScript_run integrity_typed(2) [OF assms(1)] by blast
  then show ?thesis
    using redis_step.new_trip [OF assms(2,3) clock_range, THEN one_step] by (auto split: option.splits)
qed

lemma guar_CreateTrip:
  assumes "is_f64 lat" "is_f64 lng"
  shows "guar X (db X) (integrity X) (CreateTrip X rider lat lng k)"
proof (rule guarI)
  fix w assume I: "integrity X (db X w)"
  obtain cand w1 where u: "uuid X w = (cand, w1)" by (cases "uuid X w")
  have d: "db X w1 = db X w" using uuid_db [of w] u by simp
  let ?s = "createTripScript X (idemKey k) (tripKey cand) cand rider (fmt_f64 X lat) (fmt_f64 X lng)
      (itoa (to_unix (wall X w1))) (IdempotencyTTL div second) k"
  have "guar X (db X) (integrity X) (io_bind (io_wrap ''create trip script'' (request X ?s)) (GetTrip X))"
    by (intro guar_intro guar_GetTrip guar_request [OF kept_integrity] created [OF _ assms])
  from guarD [OF this, of w1] show "redis_steps X (db X w) (db X (snd (CreateTrip X rider lat lng k w)))"
    using I d by (simp add: CreateTrip_def u)
qed

lemma CreateTrip_knows:
  assumes "is_f64 lat" "is_f64 lng" "integrity X (db X w)" "CreateTrip X rider lat lng k w = (Inr trip, w')"
  shows "knows X (TripID trip) (db X w')"
  using CreateTrip_true [OF assms(4)] trip_at_known guarD [OF guar_CreateTrip [OF assms(1,2)] assms(3), of rider k]
    integrity_steps(1) [OF _ assms(3) text_formats_axioms] assms(4)
  unfolding knows_def by (metis snd_conv)

lemma guar_transitionTo:
  assumes "to \<in> trip_names" "set extra \<subseteq> {''matched_driver_id''} \<times> UNIV"
  shows "guar X (db X) (knows X t) (transitionTo X t to extra)"
proof -
  have "guar X (db X) (knows X t) (call_unit X (HSET (tripKey t) ((''state'', to) # extra)))"
    by (rule guar_write [OF kept_knows]) (simp add: knows_def redis_step.trip assms flip: put_trip_def)
  moreover have "guar X (db X) (knows X t) (call_unit X (SADD offeredTripsKey t))"
    by (rule guar_write [OF kept_knows]) (simp add: knows_def redis_step.listed)
  moreover have "guar X (db X) (knows X t) (call_unit X (SREM offeredTripsKey [t]))"
    by (rule guar_write [OF kept_knows]) (simp add: redis_step.unlisted)
  ultimately show ?thesis
    unfolding transitionTo_def transition_write_def by (intro guar_intro)
qed

lemma guar_marks [guar_intro]:
  "guar X (db X) (knows X t) (SetTripState X t TripOffered)" "guar X (db X) (knows X t) (MarkMatched X t i)"
  "guar X (db X) (knows X t) (MarkUnfulfilled X t)"
  unfolding SetTripState_def MarkMatched_def MarkUnfulfilled_def
  by (rule guar_transitionTo; simp add: trip_names_def)+

lemma guar_CreateOffer:
  assumes "0 < ttl"
  shows "guar X (db X) (knows X t) (CreateOffer X t i rno ttl)"
proof (rule guarI)
  fix w assume K: "knows X t (db X w)"
  let ?c = "itoa (to_unix (wall X w))"
  let ?cs = "[HSET (offerKey t) (offer_fields i rno ?c), EXPIRE (offerKey t) (ExpireTTL X ttl), SET (driverOfferKey i) t (SetTTL X ttl)]"
  have "redis_steps X (db X w) (db X (snd (server_calls X ?cs w)))" if k: "knows X t (db X w)" for w
  proof -
    have o: "offer_typed (db X w)" using k integrity_typed(3) unfolding knows_def by blast
    let ?w1 = "snd (server_call X (HSET (offerKey t) (offer_fields i rno ?c)) w)"
    obtain r1 where r1: "fst (server_call X (HSET (offerKey t) (offer_fields i rno ?c)) w) = Inr r1"
      using o server_write(1) [of w "offerKey t"] unfolding offer_typed_def by blast
    let ?w2 = "snd (server_call X (EXPIRE (offerKey t) (ExpireTTL X ttl)) ?w1)"
    obtain r2 where r2: "fst (server_call X (EXPIRE (offerKey t) (ExpireTTL X ttl)) ?w1) = Inr r2" using server_write(5) by blast
    have e: "db X (snd (server_calls X ?cs w)) = open_offer t i rno ?c (ExpireTTL X ttl) (SetTTL X ttl) (db X w)"
      by (simp add: io_known r1 r2 open_offer_def)
    show ?thesis unfolding e by (rule one_step, rule redis_step.offer [OF _ ttl_pos [OF assms]]) (use k in \<open>simp add: knows_def\<close>)
  qed
  from guarD [OF guar_request [OF kept_knows this] K]
  show "redis_steps X (db X w) (db X (snd (CreateOffer X t i rno ttl w)))"
    by (simp add: CreateOffer_def tx_pipeline_def offer_fields_def)
qed

lemma guar_offer_reads [guar_intro]:
  assumes "kept X P"
  shows "guar X (db X) P (GetOffer X t)" "guar X (db X) P (CurrentOfferFor X i)"
  unfolding GetOffer_def CurrentOfferFor_def
  by (intro guar_bind [OF assms] guar_intro guar_reads [OF assms])+

lemma guar_SetOfferState:
  assumes "to \<in> offer_names"
  shows "guar X (db X) (knows X t) (SetOfferState X t i to)"
proof -
  have "guar X (db X) (knows X t) (call_unit X (HSET (offerKey t) [(''state'', to)]))"
    by (rule guar_write [OF kept_knows]) (simp add: knows_def redis_step.answer assms)
  moreover have "guar X (db X) (knows X t) (call_unit X (DEL (driverOfferKey i)))"
    by (rule guar_write [OF kept_knows]) (rule redis_step.released)
  ultimately show ?thesis unfolding SetOfferState_def SetOfferState_write_def by (intro guar_intro)
qed

lemma guar_SetMultiplier: "guar X (db X) (integrity X) (SetMultiplier X c m)"
  unfolding SetMultiplier_def surgeKey_def surge_ttl by (intro guar_intro guar_write [OF kept_integrity] redis_step.surge)

lemma guar_OfferedTrips: "guar X (db X) (integrity X) (OfferedTrips X)"
  unfolding OfferedTrips_def by (intro guar_intro)

end

section \<open>Matching and offers\<close>

text \<open>What happens while a dispatch waits is the work of others.\<close>

definition waits_ok :: "'w ext \<Rightarrow> 'w waits \<Rightarrow> bool" where
  "waits_ok X W \<longleftrightarrow> (\<forall>t n w. redis_steps X (db X w) (db X (snd (arrivals W t n w)))) \<and>
     (\<forall>n w. redis_steps X (db X w) (db X (snd (pause W n w))))"

lemma guar_publish [guar_intro]:
  "guar X (\<lambda>n. db X (world n)) P (recordOutcome matched k)" "guar X (\<lambda>n. db X (world n)) P (publishTrip X t c st i)" "guar X (\<lambda>n. db X (world n)) P (publishOffer X t i rno c st)"
  by (simp_all add: guar_still)

lemma guar_waits:
  assumes "waits_ok X W"
  shows "guar X (\<lambda>n. db X (world n)) P (awaitResponse W cfg t)" "guar X (\<lambda>n. db X (world n)) P (sleep W delay)"
  using assms by (simp_all add: guar_def waits_ok_def awaitResponse_def sleep_def Let_def split_beta)

context shared_redis
begin

lemma guar_FindCandidates: "guar X (db X) (integrity X) (FindCandidates X (DriversInCell X) (GetDrivers X) c cfg)"
proof -
  have scan: "guar X (db X) (integrity X) (scan_cells (DriversInCell X) (GetDrivers X) cs scanned cands)" for cs scanned cands
    by (induction cs arbitrary: scanned cands)
      (auto intro!: guar_intro guar_DriversInCell guar_GetDrivers)
  have "guar X (db X) (integrity X) (expand_rings X (DriversInCell X) (GetDrivers X) c cfg ks scanned cands)" for ks scanned cands
    by (induction ks arbitrary: scanned cands) (auto intro!: guar_intro scan split: prod.splits)
  then show ?thesis unfolding FindCandidates_def .
qed

lemma guar_tolerant: "to \<in> driver_names \<Longrightarrow> guar X (\<lambda>n. db X (world n)) (knows X t) (SetState_tolerant X i to msg)"
  unfolding SetState_tolerant_def by (intro guar_intro guar_knows guar_SetState)

lemma guar_give_up: "guar X (\<lambda>n. db X (world n)) (knows X t) (give_up X t c k)"
  unfolding give_up_def by (intro guar_intro)

lemma names [simp]:
  "DriverOffered \<in> driver_names" "DriverEnRoute \<in> driver_names" "DriverAvailable \<in> driver_names"
  "OfferAccepted \<in> offer_names" "OfferDeclined \<in> offer_names" "OfferTimedOut \<in> offer_names"
  by (simp_all add: driver_names_def offer_names_def)

lemma guar_accept_round: "guar X (\<lambda>n. db X (world n)) (knows X t) (accept_round X t c i rno)"
  unfolding accept_round_def by (intro guar_intro guar_SetOfferState guar_tolerant names)

lemma guar_close_round: "guar X (\<lambda>n. db X (world n)) (knows X t) (close_round X t c i rno resp)"
  unfolding close_round_def by (intro guar_intro guar_SetOfferState guar_tolerant names)

lemma guar_offer_loop:
  assumes "waits_ok X W" "0 < OfferWindow cfg + offerRecordGrace"
  shows "guar X (\<lambda>n. db X (world n)) (knows X t) (offer_loop X W cfg t c ids rounds backoff)"
proof (induction ids arbitrary: rounds backoff)
  case Nil
  then show ?case by (simp add: guar_give_up)
next
  case (Cons i ids)
  show ?case
    unfolding offer_loop.simps
    by (intro guar_intro guar_knows guar_SetState guar_CreateOffer guar_waits guar_accept_round guar_close_round guar_give_up
        Cons.IH assms names)
qed

lemma guar_Run:
  assumes "waits_ok X W" "0 < OfferWindow cfg + offerRecordGrace"
  shows "guar X (\<lambda>n. db X (world n)) (integrity X) (Run X W cfg t c cands)"
  unfolding Run_def
proof (rule guar_then [where Q = "\<lambda>_. knows X t"])
  show "guar X (\<lambda>n. db X (world n)) (integrity X) (io_wrap ''get trip'' (on_world (GetTrip X t)))"
    by (intro guar_intro guar_GetTrip)
  show "knows X t (db X (world n'))"
    if "integrity X (db X (world n))" "io_wrap ''get trip'' (on_world (GetTrip X t)) n = (Inr trip, n')" for trip n n'
    using that GetTrip_knows by (auto simp: io_wrap_def dest!: on_world_cases split: prod.splits sum.splits)
  show "guar X (\<lambda>n. db X (world n)) (knows X t)
     (let loop = offer_loop X W cfg t c (map (DriverID \<circ> rc_Driver) cands) 0 (BaseBackoff cfg) in
      if tr_State trip = TripRequested then
        (if cands = [] then give_up X t c 0
         else io_bind (io_wrap ''mark trip offered'' (on_world (SetTripState X t TripOffered))) (\<lambda>_.
              io_bind (publishTrip X t c TripOffered '''') (\<lambda>_. loop)))
      else if tr_State trip = TripOffered then (if cands = [] then give_up X t c 0 else loop)
      else io_fail (ErrorMsg ''trip is in terminal state, cannot dispatch''))" for trip
    unfolding Let_def by (intro guar_intro guar_give_up guar_offer_loop assms)
qed

text \<open>Searching and ranking for a trip, then dispatching it.\<close>

lemma guar_rank [guar_intro]: "guar X (\<lambda>n. db X (world n)) P (\<lambda>n. (f n, n))"
  by (simp add: guar_still)

lemma guar_resumeIfStuck:
  assumes "waits_ok X (rc_Waits R)" "0 < OfferWindow (rc_Cfg R) + offerRecordGrace"
    and "rc_lookup_cell R = DriversInCell X" "rc_lookup_many R = GetDrivers X"
  shows "guar X (\<lambda>n. db X (world n)) (integrity X) (resumeIfStuck X R t)"
  unfolding resumeIfStuck_def assms(3,4)
  by (intro guar_intro guar_GetTrip guar_FindCandidates guar_Run assms(1,2))

lemma guar_Sweep:
  assumes "waits_ok X (rc_Waits R)" "0 < OfferWindow (rc_Cfg R) + offerRecordGrace"
    and "rc_lookup_cell R = DriversInCell X" "rc_lookup_many R = GetDrivers X"
  shows "guar X (\<lambda>n. db X (world n)) (integrity X) (Sweep X R)"
proof -
  have "guar X (\<lambda>n. db X (world n)) (integrity X) (sweep_trips X R ts k)" for ts k
  proof (induction ts arbitrary: k)
    case (Cons t ts)
    show ?case unfolding sweep_trips.simps by (intro guar_intro guar_resumeIfStuck [OF assms] Cons.IH)
  qed (simp add: guar_pure)
  then show ?thesis unfolding Sweep_def by (intro guar_intro guar_OfferedTrips)
qed

section \<open>The services\<close>

lemma guar_awaitResolution:
  assumes "waits_ok X W"
  shows "guar X (db X) (integrity X) (awaitResolution X W ticks t)"
proof (induction ticks)
  case 0
  show ?case by (subst awaitResolution.simps, simp only: nat.case, intro guar_intro guar_GetTrip)
next
  case (Suc n)
  have "guar X (db X) (integrity X) (\<lambda>w. case pause W (200 * millisecond) w of (elapsed, w') \<Rightarrow>
      if elapsed then awaitResolution X W n t w' else io_fail ContextDone w')"
  proof (rule guarI)
    fix w assume I: "integrity X (db X w)"
    let ?w = "snd (pause W (200 * millisecond) w)"
    have p: "redis_steps X (db X w) (db X ?w)" using assms by (simp add: waits_ok_def)
    then have "integrity X (db X ?w)" using I kept_integrity by (simp add: kept_def)
    then have "redis_steps X (db X w) (db X (snd (awaitResolution X W n t ?w)))"
      using rtranclp_trans [OF p guarD [OF Suc]] by simp
    with p show "redis_steps X (db X w) (db X (snd (case pause W (200 * millisecond) w of (elapsed, w') \<Rightarrow>
        if elapsed then awaitResolution X W n t w' else io_fail ContextDone w')))"
      by (auto simp: split_beta simp del: awaitResolution.simps)
  qed
  then show ?case by (subst awaitResolution.simps, simp only: nat.case, intro guar_intro guar_GetTrip)
qed

lemma guar_Handle:
  assumes "waits_ok X (lh_Waits h)" "0 < OfferWindow (lh_Cfg h) + offerRecordGrace"
    and "is_f64 (dq_OriginLat req)" "is_f64 (dq_OriginLng req)"
  shows "guar X (\<lambda>n. db X (world n)) (integrity X) (Handle X h ticks req)"
  unfolding Handle_def dispatch_trip_def
  by (intro guar_intro guar_CreateTrip guar_awaitResolution guar_FindCandidates guar_Run guar_GetTrip assms)

lemma guar_hub_respond [guar_intro]: "guar X (\<lambda>n. db X (world n)) P (hub_respond t resp)"
  by (simp add: guar_still hub_respond_def split_beta)

lemma guar_HandleOfferResponse: "guar X (\<lambda>n. db X (world n)) (integrity X) (HandleOfferResponse X req)"
  unfolding HandleOfferResponse_def by (intro guar_intro)

end

text \<open>Routing does not touch the keyspace itself.\<close>

lemma guar_route:
  assumes "kept X P" "guar X v P (handle req)" "\<And>conn. guar X v P (rpc conn req)" "\<And>addr. guar X v P (rt_dial r addr)"
  shows "guar X v P (route sum64 r handle rpc c req)"
proof -
  have remote: "guar X v P (io_bind (io_wrap ''router: dial'' (rt_dial r addr)) (\<lambda>conn.
      io_wrap ''router: forward to node'' (rpc conn req)))" for addr
    by (intro guar_bind [OF assms(1)] guar_wrap assms(3,4))
  show ?thesis
    using guarD [OF assms(2)] guarD [OF remote] by (auto simp: guar_def route_def split: prod.splits)
qed

lemma guar_dial: "guar X v P (rt_dial (disco_router D a p) addr)"
  by (simp add: guar_def disco_router_def)

definition deployment_ok :: "'w ext \<Rightarrow> 'w deployment \<Rightarrow> bool" where
  "deployment_ok X D \<longleftrightarrow> waits_ok X (lh_Waits (dep_handler D)) \<and> 0 < OfferWindow (lh_Cfg (dep_handler D)) + offerRecordGrace"

context shared_redis
begin

lemma guar_serve_Dispatch:
  assumes D: "deployment_ok X D" and f: "is_f64 (dq_OriginLat req)" "is_f64 (dq_OriginLng req)"
  shows "guar X (\<lambda>C. db X (shared C)) (integrity X) (serve_Dispatch X D ticks hops a req)"
proof (induction hops arbitrary: a)
  case (Suc hops)
  have "guar X (\<lambda>C. db X (shared C)) (integrity X) (grpc_Dispatch X D ticks a p (serve_Dispatch X D ticks hops) req)" for p
    unfolding grpc_Dispatch_def Route_def
    using D by (intro guar_intro guar_route [OF kept_integrity] guar_dial Suc.IH guar_Handle f) (simp_all add: deployment_ok_def)
  then show ?case by (auto simp: guar_def split: option.splits)
qed (simp add: guar_pure)

lemma guar_serve_RespondToOffer:
  "guar X (\<lambda>C. db X (shared C)) (integrity X) (serve_RespondToOffer X D hops a req)"
proof (induction hops arbitrary: a)
  case (Suc hops)
  have "guar X (\<lambda>C. db X (shared C)) (integrity X) (grpc_RespondToOffer X D a p (serve_RespondToOffer X D hops) req)" for p
    unfolding grpc_RespondToOffer_def RouteOfferResponse_def
    by (intro guar_intro guar_route [OF kept_integrity] guar_dial Suc.IH guar_HandleOfferResponse guar_GetTrip)
  then show ?case by (auto simp: guar_def split: option.splits)
qed (simp add: guar_pure)

lemma guar_handleCreateTrip:
  assumes "deployment_ok X D" "\<And>req. decoded = Some req \<Longrightarrow> is_f64 (tq_Lat req) \<and> is_f64 (tq_Lng req)"
  shows "guar X (\<lambda>C. db X (shared C)) (integrity X) (handleCreateTrip (serve_Dispatch X D ticks hops a) key decoded)"
  unfolding handleCreateTrip_def answer_def
  using assms by (intro guar_intro guar_serve_Dispatch) simp_all

lemma guar_handleRespondOffer:
  "guar X (\<lambda>C. db X (shared C)) (integrity X) (handleRespondOffer (serve_RespondToOffer X D hops a) i decoded)"
  unfolding handleRespondOffer_def answer_def by (intro guar_intro guar_serve_RespondToOffer)

lemma guar_handleLocation: "guar X (db X) (integrity X) (handleLocation X res i decoded)"
  unfolding handleLocation_def by (intro guar_intro guar_UpdateLocation)

lemma guar_handleGetOffer: "guar X (db X) (integrity X) (handleGetOffer X i)"
  unfolding handleGetOffer_def answer_def by (intro guar_intro)

lemma guar_write_multipliers: "guar X (db X) (integrity X) (write_multipliers X a)"
proof -
  have "guar X (db X) (integrity X) (write_cells X a now cs)" for now cs
  proof (induction cs)
    case (Cons c cs)
    show ?case
    proof (rule guarI)
      fix w assume I: "integrity X (db X w)"
      let ?m = "SetMultiplier X c (agg_Multiplier c now DefaultMultiplierConfig a)"
      have p: "redis_steps X (db X w) (db X (snd (?m w)))" by (rule guarD [OF guar_SetMultiplier I])
      then have "integrity X (db X (snd (?m w)))" using I kept_integrity by (simp add: kept_def)
      then show "redis_steps X (db X w) (db X (snd (write_cells X a now (c # cs) w)))"
        using rtranclp_trans [OF p guarD [OF Cons]] by (simp add: split_beta)
    qed
  qed (simp only: write_cells.simps guar_pure)
  then show ?thesis by (simp add: guar_def write_multipliers_def)
qed

end

section \<open>The system\<close>

text \<open>
  A step of the system is one complete operation of one of its parts; other parts and other
  clients act on the keyspace between its requests (\<open>env\<close> of \<open>redis_server\<close>), and a
  process that crashes in the middle is one whose remaining requests are lost. Processes
  start, stop and learn about each other at any time.
\<close>

inductive system_step :: "'w ext \<Rightarrow> 'w deployment \<Rightarrow> 'w cluster \<Rightarrow> 'w cluster \<Rightarrow> bool" for X D where
  rider: "(\<And>req. decoded = Some req \<Longrightarrow> is_f64 (tq_Lat req) \<and> is_f64 (tq_Lng req)) \<Longrightarrow>
    system_step X D C (snd (handleCreateTrip (serve_Dispatch X D ticks hops a) key decoded C))"
| driver_ping: "system_step X D C (snd (on_shared (handleLocation X res i decoded) C))"
| driver_poll: "system_step X D C (snd (on_shared (handleGetOffer X i) C))"
| driver_answer: "system_step X D C (snd (handleRespondOffer (serve_RespondToOffer X D hops a) i response C))"
| sweep: "system_step X D C (snd (on_node a (Sweep X (disco_reconciler X D)) C))"
| surge_tick: "system_step X D C (snd (on_shared (write_multipliers X agg) C))"
| gossip: "procs C a = Some p \<Longrightarrow>
    system_step X D C (C\<lparr>procs := (procs C)(a \<mapsto> p\<lparr>p_Member := notify (dep_sum64 D) ev (p_Member p)\<rparr>)\<rparr>)"
| start: "p_Hub p = NewResponseHub \<Longrightarrow> p_Published p = [] \<Longrightarrow> p_Metrics p = no_metrics \<Longrightarrow> procs C a = None \<Longrightarrow>
    system_step X D C (C\<lparr>procs := (procs C)(a \<mapsto> p)\<rparr>)"
| stop: "system_step X D C (C\<lparr>procs := (procs C)(a := None)\<rparr>)"
| others: "redis_steps X (db X (shared C)) (db X w) \<Longrightarrow> system_step X D C (C\<lparr>shared := w\<rparr>)"

context shared_redis
begin

lemma system_step_redis:
  assumes "system_step X D C C'" "deployment_ok X D" "integrity X (db X (shared C))"
  shows "redis_steps X (db X (shared C)) (db X (shared C'))"
  using assms(1)
proof (cases rule: system_step.cases)
  case (rider decoded ticks hops a key)
  then show ?thesis using guarD [OF guar_handleCreateTrip [OF assms(2)], of decoded] assms(3) by blast
next
  case (driver_ping res i decoded)
  then show ?thesis using guarD [OF guar_on_shared [OF guar_handleLocation], of C] assms(3) by simp
next
  case (driver_poll i)
  then show ?thesis using guarD [OF guar_on_shared [OF guar_handleGetOffer], of C] assms(3) by simp
next
  case (driver_answer hops a i response)
  then show ?thesis using guarD [OF guar_handleRespondOffer] assms(3) by blast
next
  case (sweep a)
  have "guar X (\<lambda>n. db X (world n)) (integrity X) (Sweep X (disco_reconciler X D))"
    using assms(2) by (intro guar_Sweep) (simp_all add: deployment_ok_def disco_reconciler_def)
  then show ?thesis using sweep guarD [OF guar_on_node, of X "integrity X" _ C a] assms(3) by simp
next
  case (surge_tick agg)
  then show ?thesis using guarD [OF guar_on_shared [OF guar_write_multipliers], of C] assms(3) by simp
qed simp_all

end

text \<open>
  C3. The whole program refines the protocol: whatever riders, drivers, processes, sweeps
  and the surge service do, in any order, with requests of others in between, messages
  lost, and processes started, stopped and gossiping, the shared keyspace only takes steps
  of the protocol. So integrity is an invariant: no key ever holds a value of the wrong
  type, every stored driver, trip and offer state is one of its machine, and every
  idempotency key, offer, reverse index entry and member of the recovery index names a
  trip whose record is complete and can be read. (Coordinates are JSON numbers, so float64
  values; what happens while a dispatch waits are steps of others.)
\<close>

theorem system_integrity:
  assumes "redis_server X (redis_steps X)" and "text_formats X" and "deployment_ok X D"
    and "(system_step X D)\<^sup>*\<^sup>* C C'" and "integrity X (db X (shared C))"
  shows "redis_steps X (db X (shared C)) (db X (shared C')) \<and> integrity X (db X (shared C'))"
  using assms(4)
proof (induction rule: rtranclp_induct)
  case base
  then show ?case using assms(5) by simp
next
  case (step C1 C2)
  have X: "shared_redis X" using assms(1,2) by (rule shared_redis.intro)
  have s: "redis_steps X (db X (shared C1)) (db X (shared C2))"
    using shared_redis.system_step_redis [OF X step.hyps(2) assms(3)] step.IH by blast
  then show ?case using step.IH integrity_steps(1) [OF s _ assms(2)] by (meson rtranclp_trans)
qed

lemma redis_server_more: "redis_server X env \<Longrightarrow> (\<And>d d'. env d d' \<Longrightarrow> env' d d') \<Longrightarrow> redis_server X env'"
  unfolding redis_server_def by blast

interpretation shared_mem: shared_redis mem_world
proof (rule shared_redis.intro)
  show "redis_server mem_world (redis_steps mem_world)"
    by (rule redis_server_more [OF quiet_redis.axioms(1) [OF mem.quiet_redis_axioms]]) simp
qed (rule mem.text_formats_axioms)

lemma demo_deployment_ok: "deployment_ok mem_world demo_deployment"
  by (simp add: deployment_ok_def demo_deployment_def demo_handler_def waits_ok_def all_accept_def
      DefaultConfig_def offerRecordGrace_def time_units)

text \<open>A driver's ping, then a rider's request, on an empty Redis.\<close>

definition demo_run :: "rdb cluster" where
  "demo_run = snd (handleCreateTrip (serve_Dispatch mem_world demo_deployment 5 2 ''addr-a'') ''k1''
     (Some \<lparr>tq_RiderID = ''r1'', tq_Lat = Fin 12, tq_Lng = Fin 77\<rparr>)
     (snd (on_shared (handleLocation mem_world 8 ''d1'' (Some \<lparr>lq_Lat = Fin 12, lq_Lng = Fin 77\<rparr>))
       (pair_cluster empty_db NewResponseHub))))"

theorem system_integrity_witness:
  "integrity mem_world (shared demo_run) \<and> redis_steps mem_world empty_db (shared demo_run)"
proof -
  let ?C = "pair_cluster empty_db NewResponseHub"
  let ?C1 = "snd (on_shared (handleLocation mem_world 8 ''d1'' (Some \<lparr>lq_Lat = Fin 12, lq_Lng = Fin 77\<rparr>)) ?C)"
  have f: "is_f64 (Fin 12)" "is_f64 (Fin 77)" using rnd_dyadic [of 12 0] rnd_dyadic [of 77 0] by (simp_all add: is_f64_def)
  have "system_step mem_world demo_deployment ?C ?C1" by (rule system_step.driver_ping)
  moreover have "system_step mem_world demo_deployment ?C1 demo_run"
    unfolding demo_run_def by (rule system_step.rider) (use f in auto)
  ultimately have run: "(system_step mem_world demo_deployment)\<^sup>*\<^sup>* ?C demo_run" by (meson r_into_rtranclp rtranclp_trans)
  have d: "db mem_world w = w" for w by (simp add: mem_world_def)
  have C: "shared ?C = empty_db" by (simp add: pair_cluster_def)
  show ?thesis
    using system_integrity [OF shared_mem.redis_server_axioms mem.text_formats_axioms demo_deployment_ok run]
    unfolding d C using integrity_empty by blast
qed

section \<open>What integrity gives the services\<close>

lemma known_new_trip:
  assumes "integrity X d" "text_formats X" "is_f64 lat" "is_f64 lng" "in_i64 now"
  shows "trip_known X (put_new_trip t rider (fmt_f64 X lat) (fmt_f64 X lng) k (itoa now) d) t"
  by (rule integrity_refs(2) [OF integrity_new_trip [OF assms], where k = k])
    (simp add: put_new_trip_facts integrity_typed [OF assms(1)])

text \<open>
  C16. No request meets a broken reference: on a keyspace with integrity, undisturbed, the
  trip named by a driver's current offer can be read, so routing an answer never fails on
  it; every trip the recovery index lists can be read; and creating a trip always
  succeeds, whatever the idempotency key names.
\<close>

theorem no_dangling_trips:
  assumes "quiet_store X" and "integrity X (db X w)"
  shows "(\<forall>i t w'. CurrentOfferFor X i w = (Inr t, w') \<longrightarrow>
      (\<exists>trip. fst (GetTrip X t w') = Inr trip \<and> tr_State trip \<in> trip_names)) \<and>
    (\<exists>ts w'. OfferedTrips X w = (Inr ts, w') \<and>
      (\<forall>t \<in> set ts. \<exists>trip. fst (GetTrip X t w') = Inr trip \<and> tr_State trip \<in> trip_names)) \<and>
    (\<forall>rider lat lng k. is_f64 lat \<and> is_f64 lng \<longrightarrow>
      (\<exists>trip. fst (CreateTrip X rider lat lng k w) = Inr trip \<and> tr_State trip \<in> trip_names))"
proof (intro conjI allI impI)
  have q: "quiet_redis X" and tf: "text_formats X" using assms(1) by (simp_all add: quiet_store_def)
  note ty = integrity_typed [OF assms(2)] and refs = integrity_refs [OF assms(2)]
  have get: "\<exists>trip. fst (GetTrip X t w') = Inr trip \<and> tr_State trip \<in> trip_names"
    if "db X w' = db X w" "trip_known X (db X w) t" for t w'
    using trip_known_at [OF that(2)] quiet_redis.GetTrip_quiet(1) [OF q, of w' t] ty(2) that(1) by simp
  show "\<exists>trip. fst (GetTrip X t w') = Inr trip \<and> tr_State trip \<in> trip_names"
    if c: "CurrentOfferFor X i w = (Inr t, w')" for i t w'
  proof (rule get)
    note r = quiet_redis.CurrentOfferFor_quiet [OF q ty(3), of i]
    show "db X w' = db X w" using r(2) c by simp
    show "trip_known X (db X w) t" using r(1) c refs(4) by (auto split: option.splits)
  qed
  have "set_entry (live (db X w) offeredTripsKey)" using ty(2) by (simp add: trip_typed_def)
  then obtain ts where ts: "fst (OfferedTrips X w) = Inr ts" "set ts = offered_set (db X w)"
    using quiet_redis.typed_reads(4) [OF q] unfolding OfferedTrips_def offered_set_def by (metis io_wrap_ok fst_conv)
  have "db X (snd (OfferedTrips X w)) = db X w"
    using quiet_redis.call_typed_db(3) [OF q] by (simp add: OfferedTrips_def)
  then show "\<exists>ts w'. OfferedTrips X w = (Inr ts, w') \<and>
      (\<forall>t \<in> set ts. \<exists>trip. fst (GetTrip X t w') = Inr trip \<and> tr_State trip \<in> trip_names)"
    using ts get refs(5) by (metis prod.collapse)
  show "\<exists>trip. fst (CreateTrip X rider lat lng k w) = Inr trip \<and> tr_State trip \<in> trip_names"
    if f: "is_f64 lat \<and> is_f64 lng" for rider lat lng k
  proof -
    let ?t = "case str_at (db X w) (idemKey k) of Some t \<Rightarrow> t | None \<Rightarrow> fst (uuid X w)"
    let ?w' = "snd (CreateTrip X rider lat lng k w)"
    have "trip_known X (db X ?w') ?t"
    proof (rule quiet_redis.CreateTrip_quiet [OF q ty(2), of rider lat lng k])
      fix created
      assume "db X ?w' = (case str_at (db X w) (idemKey k) of Some t \<Rightarrow> db X w
          | None \<Rightarrow> put_new_trip (fst (uuid X w)) rider (fmt_f64 X lat) (fmt_f64 X lng) k created (db X w))"
        and "created = itoa (to_unix (wall X (snd (uuid X w))))"
      then show ?thesis
        using refs(2) known_new_trip [OF assms(2) tf] f text_formats.clock_range [OF tf] by (simp split: option.splits)
    qed
    moreover have "fst (CreateTrip X rider lat lng k w) = trip_at X (db X ?w') ?t"
      by (rule quiet_redis.CreateTrip_quiet [OF q ty(2), of rider lat lng k])
    ultimately show ?thesis using trip_known_at by metis
  qed
qed

definition demo_offered :: rdb where
  "demo_offered = open_offer ''t1'' ''d1'' 1 ''990'' (25 * second) (Some (25 * second))
     (put_new_trip ''t1'' ''r1'' (fmt_f64 mem_world (Fin 12)) (fmt_f64 mem_world (Fin 77)) ''k1'' (itoa 990) empty_db)"

lemma demo_offered_integrity: "integrity mem_world demo_offered" "offered_to demo_offered ''d1'' = Some ''t1''"
proof -
  have f: "is_f64 (Fin 12)" "is_f64 (Fin 77)" using rnd_dyadic [of 12 0] rnd_dyadic [of 77 0] by (simp_all add: is_f64_def)
  have n: "in_i64 990" by (simp add: in_i64_def)
  note e = integrity_new_trip [OF integrity_empty mem.text_formats_axioms f n]
    known_new_trip [OF integrity_empty mem.text_formats_axioms f n]
  then show "integrity mem_world demo_offered"
    unfolding demo_offered_def by (intro integrity_offer) (simp_all add: second_def)
  show "offered_to demo_offered ''d1'' = Some ''t1''"
    unfolding demo_offered_def using open_offer_facts(3) [OF integrity_typed(3) [OF e(1)]] by (simp add: second_def)
qed

theorem no_dangling_trips_witness:
  "\<exists>w' trip. CurrentOfferFor mem_world ''d1'' demo_offered = (Inr ''t1'', w') \<and>
     fst (GetTrip mem_world ''t1'' w') = Inr trip \<and> tr_State trip \<in> trip_names"
proof -
  have d: "db mem_world demo_offered = demo_offered" by (simp add: mem_world_def)
  have i: "integrity mem_world (db mem_world demo_offered)" unfolding d by (rule demo_offered_integrity)
  have "fst (CurrentOfferFor mem_world ''d1'' demo_offered) = Inr ''t1''"
    using mem.CurrentOfferFor_quiet(1) [OF integrity_typed(3) [OF i], of "''d1''"] by (simp add: d demo_offered_integrity)
  then obtain w' where "CurrentOfferFor mem_world ''d1'' demo_offered = (Inr ''t1'', w')" by (metis prod.collapse)
  with no_dangling_trips [OF mem.quiet_store_axioms i] show ?thesis by blast
qed

end
