(* ===== verification/LoadGen.thy ===== *)
theory LoadGen
  imports Handling
begin

text \<open>
  \<open>cmd/loadgen\<close>: synthetic drivers and riders against the dispatch engine. Random numbers
  are parameters; \<open>rand.Float64\<close> returns values in [0, 1). The goroutines and the clock
  of the program are not modelled, only what each turn of a driver or rider does and how
  the report is computed.
\<close>

section \<open>Where drivers and riders are\<close>

definition minLat :: rat where "minLat = 1720 / 100"
definition maxLat :: rat where "maxLat = 1755 / 100"
definition minLng :: rat where "minLng = 7830 / 100"
definition maxLng :: rat where "maxLng = 7865 / 100"
definition walkStepDeg :: rat where "walkStepDeg = 3 / 1000"

definition clamp :: "f64 \<Rightarrow> f64 \<Rightarrow> f64 \<Rightarrow> f64" where
  "clamp v lo hi = (if f_lt v lo then lo else if f_lt hi v then hi else v)"

definition randPoint :: "f64 \<Rightarrow> f64 \<Rightarrow> f64 \<times> f64" where
  "randPoint r1 r2 = (f_add (rnd minLat) (f_mul r1 (rnd (maxLat - minLat))), f_add (rnd minLng) (f_mul r2 (rnd (maxLng - minLng))))"

definition randomWalk :: "f64 \<Rightarrow> f64 \<Rightarrow> f64 \<times> f64 \<Rightarrow> f64 \<times> f64" where
  "randomWalk r1 r2 = (\<lambda>(lat, lng).
     (clamp (f_add lat (f_mul (f_sub r1 (Fin (1 / 2))) (rnd walkStepDeg))) (rnd minLat) (rnd maxLat),
      clamp (f_add lng (f_mul (f_sub r2 (Fin (1 / 2))) (rnd walkStepDeg))) (rnd minLng) (rnd maxLng)))"

section \<open>A rider\<close>

definition DefaultResolution :: int where "DefaultResolution = 8"

definition runRider :: "'w ext \<Rightarrow> 'w waits \<Rightarrow> Config \<Rightarrow> estimator \<Rightarrow> string \<Rightarrow> f64 \<Rightarrow> f64 \<Rightarrow> ('w node, bool) io" where
  "runRider X W cfg est riderID lat lng =
     io_bind (io_wrap ''create trip'' (on_world (CreateTrip X riderID lat lng riderID))) (\<lambda>trip.
     io_bind (io_wrap ''cell for origin'' (io_lift (CellFor X lat lng DefaultResolution))) (\<lambda>origin.
     io_bind (io_wrap ''find candidates''
       (on_world (FindCandidates X (DriversInCell X) (GetDrivers X) origin DefaultSearchConfig))) (\<lambda>candidates.
     io_bind (io_wrap ''rank'' (\<lambda>n. (Rank est \<lparr>Lat = lat, Lng = lng\<rparr> candidates DefaultRankConfig (wall X (world n)), n))) (\<lambda>ranked.
     io_bind (Run X W cfg (TripID trip) origin ranked) (\<lambda>r. io_return (fst r))))))"

section \<open>A driver\<close>

text \<open>
  A turn of a driver: a ping, or a poll that finds an offer unless it is already responding,
  and later the response to it. The flag is the atomic \<open>responding\<close>.
\<close>

definition ping_turn :: "'w ext \<Rightarrow> string \<Rightarrow> f64 \<Rightarrow> f64 \<Rightarrow> f64 \<times> f64 \<Rightarrow> ('w, unit) io \<times> (f64 \<times> f64)" where
  "ping_turn X driverID r1 r2 pos =
     (let pos = randomWalk r1 r2 pos
      in (io_bind (io_try (UpdateLocation X DefaultResolution driverID (fst pos) (snd pos))) (\<lambda>_. io_return ()), pos))"

definition poll_turn :: "'w ext \<Rightarrow> string \<Rightarrow> bool \<Rightarrow> 'w \<Rightarrow> string option \<times> bool \<times> 'w" where
  "poll_turn X driverID responding w =
     (if responding then (None, True, w)
      else case CurrentOfferFor X driverID w of
        (Inl e, w') \<Rightarrow> (None, False, w')
      | (Inr tripID, w') \<Rightarrow> (Some tripID, True, w'))"

definition respond_turn :: "f64 \<Rightarrow> f64 \<Rightarrow> string \<Rightarrow> ResponseHub \<Rightarrow> ResponseHub" where
  "respond_turn acceptProb r tripID h = snd (Respond tripID (if f_lt r acceptProb then Accepted else Declined) h)"

section \<open>The report\<close>

text \<open>\<open>percentile\<close> of a sorted list; the index of Go's slice is in range or the program panics (\<open>None\<close>).\<close>

definition percentile :: "(f64 \<Rightarrow> int) \<Rightarrow> int list \<Rightarrow> f64 \<Rightarrow> int option" where
  "percentile oor xs p =
     (if xs = [] then Some 0
      else let idx = f_to_i64 oor (f_mul p (f_of_int (int (length xs))));
               idx = (if idx \<ge> int (length xs) then int (length xs) - 1 else idx)
           in if idx < 0 then None else Some (xs ! nat idx))"

definition pct :: "int \<Rightarrow> int \<Rightarrow> f64" where
  "pct n all = (if all = 0 then Fin 0 else f_mul (f_div (f_of_int n) (f_of_int all)) (Fin 100))"

definition latency_report :: "(f64 \<Rightarrow> int) \<Rightarrow> int list \<Rightarrow> (int option \<times> int option \<times> int option) option" where
  "latency_report oor latencies =
     (let xs = sort latencies
      in if xs = [] then None
         else Some (percentile oor xs (Fin (1 / 2)), percentile oor xs (rnd (95 / 100)), percentile oor xs (rnd (99 / 100))))"

section \<open>Walks stay in the box\<close>

definition within_box :: "f64 \<times> f64 \<Rightarrow> bool" where
  "within_box pos \<longleftrightarrow> f_le (rnd minLat) (fst pos) \<and> f_le (fst pos) (rnd maxLat) \<and>
     f_le (rnd minLng) (snd pos) \<and> f_le (snd pos) (rnd maxLng)"

lemma clamp_between:
  assumes "v \<noteq> NaN" "f_le lo hi"
  shows "f_le lo (clamp v lo hi)" "f_le (clamp v lo hi) hi"
proof -
  have n: "lo \<noteq> NaN" "hi \<noteq> NaN" using f_le_not_NaN [OF assms(2)] by simp_all
  show "f_le lo (clamp v lo hi)" "f_le (clamp v lo hi) hi"
    using assms n by (auto simp: clamp_def f_lt_iff)
qed

lemma rnd_interval:
  assumes "a \<le> x" "x \<le> b" "rnd a = Fin a'" "rnd b = Fin b'"
  obtains y where "rnd x = Fin y" "a' \<le> y" "y \<le> b'"
proof -
  have "f_le (Fin a') (rnd x)" "f_le (rnd x) (Fin b')"
    using rnd_mono [OF assms(1)] rnd_mono [OF assms(2)] assms(3,4) by simp_all
  then show thesis using that by (cases "rnd x") auto
qed

lemma rnd_unit:
  assumes "- 1 \<le> x" "x \<le> 1"
  obtains y where "rnd x = Fin y" "- 1 \<le> y" "y \<le> 1"
proof -
  have m: "rnd (- 1) = Fin (- 1)" using rnd_int [of "- 1"] by simp
  show thesis using rnd_interval [OF assms m rnd_one] that .
qed

lemma walk_step:
  assumes "0 \<le> r" "r < 1"
  obtains s where "f_mul (f_sub (Fin r) (Fin (1 / 2))) (rnd walkStepDeg) = Fin s"
proof -
  obtain h where h: "rnd (r - 1 / 2) = Fin h" "- 1 \<le> h" "h \<le> 1" using assms by (auto intro: rnd_unit [of "r - 1 / 2"])
  obtain w where w: "rnd walkStepDeg = Fin w" "- 1 \<le> w" "w \<le> 1" by (rule rnd_unit [of walkStepDeg]) (simp_all add: walkStepDeg_def)
  have "\<bar>h * w\<bar> \<le> 1" using h w mult_le_one [of "\<bar>h\<bar>" "\<bar>w\<bar>"] by (simp add: abs_mult)
  then obtain s where "rnd (h * w) = Fin s" by (auto intro: rnd_unit [of "h * w"])
  then show thesis using that h w by (simp add: f_sub_def)
qed

lemma randomWalk_within_box:
  assumes "0 \<le> r1" "r1 < 1" "0 \<le> r2" "r2 < 1"
  shows "within_box (randomWalk (Fin r1) (Fin r2) (Fin lat, Fin lng))"
proof -
  obtain s1 s2 where s: "f_mul (f_sub (Fin r1) (Fin (1 / 2))) (rnd walkStepDeg) = Fin s1"
    "f_mul (f_sub (Fin r2) (Fin (1 / 2))) (rnd walkStepDeg) = Fin s2"
    using walk_step assms by metis
  have "f_le (rnd minLat) (rnd maxLat)" "f_le (rnd minLng) (rnd maxLng)"
    by (rule rnd_mono; simp add: minLat_def maxLat_def minLng_def maxLng_def)+
  then show ?thesis by (simp add: within_box_def randomWalk_def s clamp_between)
qed

section \<open>The report is ordered\<close>

lemma trunc_rat_mono: "0 \<le> x \<Longrightarrow> x \<le> y \<Longrightarrow> 0 \<le> trunc_rat x \<and> trunc_rat x \<le> trunc_rat y"
  by (simp add: trunc_rat_def floor_mono)

text \<open>The index of a percentile \<open>p\<close> between 0 and 1 of \<open>n\<close> values, before it is cut to the last.\<close>

definition percentile_index :: "nat \<Rightarrow> rat \<Rightarrow> int" where
  "percentile_index n p = min (int n - 1) (trunc_rat (case rnd (p * rat_of_nat n) of Fin y \<Rightarrow> y | _ \<Rightarrow> 0))"

lemma percentile_at:
  assumes "xs \<noteq> []" "length xs < 2 ^ 53" "0 \<le> p" "p \<le> 1"
  shows "percentile oor xs (Fin p) = Some (xs ! nat (percentile_index (length xs) p))"
    and "0 \<le> percentile_index (length xs) p" "percentile_index (length xs) p < int (length xs)"
proof -
  let ?n = "length xs"
  have n: "rnd (rat_of_nat ?n) = Fin (rat_of_nat ?n)" using rnd_int [of "int ?n"] assms(2) by simp
  have "p * rat_of_nat ?n \<le> rat_of_nat ?n" using mult_right_mono [OF assms(4), of "rat_of_nat ?n"] by simp
  then obtain y where y: "rnd (p * rat_of_nat ?n) = Fin y" "0 \<le> y" "y \<le> rat_of_nat ?n"
    using rnd_interval [OF _ _ rnd_0 n, of "p * rat_of_nat ?n"] assms(3) by auto
  have t: "0 \<le> trunc_rat y" "trunc_rat y \<le> int ?n"
    using trunc_rat_mono [OF y(2,3)] by (simp_all add: trunc_rat_def)
  then have i: "in_i64 (trunc_rat y)" using assms(2) by (simp add: in_i64_def)
  have pos: "0 < int ?n" using assms(1) by simp
  show "0 \<le> percentile_index ?n p" "percentile_index ?n p < int ?n"
    using t pos by (auto simp: percentile_index_def y(1))
  show "percentile oor xs (Fin p) = Some (xs ! nat (percentile_index ?n p))"
  proof (cases "int ?n \<le> trunc_rat y")
    case True
    then have "trunc_rat y = int ?n" using t(2) by simp
    then show ?thesis using assms(1) i pos by (simp add: percentile_def percentile_index_def Let_def f_of_int_def n y(1))
  next
    case False
    then have "min (int ?n - 1) (trunc_rat y) = trunc_rat y" by simp
    then show ?thesis
      using False assms(1) i t(1) by (simp add: percentile_def percentile_index_def Let_def f_of_int_def n y(1))
  qed
qed

lemma percentile_mono:
  assumes "sorted xs" "xs \<noteq> []" "length xs < 2 ^ 53" "0 \<le> p" "p \<le> q" "q \<le> 1"
  shows "\<exists>a b. percentile oor xs (Fin p) = Some a \<and> percentile oor xs (Fin q) = Some b \<and> a \<le> b \<and> {a, b} \<subseteq> set xs"
proof -
  let ?n = "length xs"
  have q: "0 \<le> q" "p \<le> 1" using assms by simp_all
  note p' = percentile_at [OF assms(2,3,4) q(2)] and q' = percentile_at [OF assms(2,3) q(1) assms(6)]
  have le: "p * rat_of_nat ?n \<le> q * rat_of_nat ?n" using assms(5) by (simp add: mult_right_mono)
  have n: "rnd (rat_of_nat ?n) = Fin (rat_of_nat ?n)" using rnd_int [of "int ?n"] assms(3) by simp
  have up: "q * rat_of_nat ?n \<le> rat_of_nat ?n" using mult_right_mono [OF assms(6), of "rat_of_nat ?n"] by simp
  obtain y where y: "rnd (q * rat_of_nat ?n) = Fin y" "0 \<le> y"
    using rnd_interval [OF _ up rnd_0 n] q(1) by auto
  obtain x where x: "rnd (p * rat_of_nat ?n) = Fin x" "0 \<le> x" "x \<le> y"
    using rnd_interval [OF _ le rnd_0 y(1)] assms(4) by auto
  have "percentile_index ?n p \<le> percentile_index ?n q"
    using trunc_rat_mono [OF x(2,3)] by (auto simp: percentile_index_def x(1) y(1) min_def)
  then have "xs ! nat (percentile_index ?n p) \<le> xs ! nat (percentile_index ?n q)"
    using p'(2) q'(3) by (intro sorted_nth_mono [OF assms(1)]) auto
  then show ?thesis using p' q' by auto
qed

text \<open>
  The report of a run: the latencies reported as the 50th, 95th and 99th percentile are
  latencies that were measured, in ascending order.
\<close>

lemma latency_report_ordered:
  assumes "latencies \<noteq> []" "length latencies < 2 ^ 53"
  shows "\<exists>a b c. latency_report oor latencies = Some (Some a, Some b, Some c) \<and> a \<le> b \<and> b \<le> c \<and> {a, b, c} \<subseteq> set latencies"
proof -
  let ?xs = "sort latencies"
  have "length ?xs = length latencies" by simp
  then have ne: "?xs \<noteq> []" using assms(1) by (metis length_0_conv)
  have xs: "sorted ?xs" "?xs \<noteq> []" "length ?xs < 2 ^ 53" using ne assms(2) by simp_all
  have half: "rnd (1 / 2) = Fin (1 / 2)" using rnd_dyadic [of 1 1] by simp
  have b: "(1 / 2 :: rat) \<le> 95 / 100" "(95 / 100 :: rat) \<le> 1" "(95 / 100 :: rat) \<le> 99 / 100" "(99 / 100 :: rat) \<le> 1"
    by simp_all
  obtain p where p: "rnd (95 / 100) = Fin p" "1 / 2 \<le> p" "p \<le> 1" using rnd_interval [OF b(1,2) half rnd_one] .
  obtain q where q: "rnd (99 / 100) = Fin q" "p \<le> q" "q \<le> 1" using rnd_interval [OF b(3,4) p(1) rnd_one] .
  have "0 \<le> (1 / 2 :: rat)" "0 \<le> p" using p by simp_all
  obtain a b where ab: "percentile oor ?xs (Fin (1 / 2)) = Some a" "percentile oor ?xs (Fin p) = Some b" "a \<le> b" "{a, b} \<subseteq> set ?xs"
    using percentile_mono [OF xs \<open>0 \<le> 1 / 2\<close> p(2,3)] by blast
  moreover obtain c where "percentile oor ?xs (Fin q) = Some c" "b \<le> c" "c \<in> set ?xs"
    using percentile_mono [OF xs \<open>0 \<le> p\<close> q(2,3), of oor] ab(2) by auto
  ultimately show ?thesis unfolding latency_report_def Let_def p(1) q(1) using xs(2) by auto
qed

end
