(* ===== verification/Settings.thy ===== *)
theory Settings
  imports GoLib
begin

text \<open>
  How \<open>cmd/disco\<close> reads its settings from the environment (the other commands use the same
  \<open>envOr\<close>). The environment is a function, empty where a variable is not set. Strings are
  ASCII, as host names and ports are.
\<close>

type_synonym environment = "string \<Rightarrow> string"

definition envOr :: "environment \<Rightarrow> string \<Rightarrow> string \<Rightarrow> string" where
  "envOr Getenv key fallback = (let v = Getenv key in if v \<noteq> [] then v else fallback)"

definition envOrInt :: "environment \<Rightarrow> string \<Rightarrow> int \<Rightarrow> int" where
  "envOrInt Getenv key fallback =
     (let v = Getenv key in
      if v = [] then fallback
      else case parse_int64 v of Inl e \<Rightarrow> fallback | Inr n \<Rightarrow> n)"

text \<open>\<open>strings.Split\<close> by a separator that is not empty, and \<open>strings.TrimSpace\<close>.\<close>

fun cut :: "string \<Rightarrow> string \<Rightarrow> (string \<times> string) option" where
  "cut sep [] = (if sep = [] then Some ([], []) else None)"
| "cut sep (c # s) =
     (if take (length sep) (c # s) = sep then Some ([], drop (length sep) (c # s))
      else map_option (\<lambda>(a, b). (c # a, b)) (cut sep s))"

lemma cut_length: "cut sep s = Some (a, b) \<Longrightarrow> length b + length sep \<le> length s"
  by (induction s arbitrary: a) (auto split: if_splits dest!: arg_cong [where f = length])

function strings_Split :: "string \<Rightarrow> string \<Rightarrow> string list" where
  "strings_Split s sep =
     (if sep = [] then map (\<lambda>c. [c]) s
      else case cut sep s of None \<Rightarrow> [s] | Some (a, b) \<Rightarrow> a # strings_Split b sep)"
  by pat_completeness auto
termination
  by (relation "measure (\<lambda>(s, sep). length s)") (auto dest!: cut_length, metis length_greater_0_conv less_add_same_cancel1 order_less_le_trans)

declare strings_Split.simps [simp del]

definition white :: "char \<Rightarrow> bool" where
  "white c \<longleftrightarrow> c \<in> {CHR 0x20, CHR 0x09, CHR 0x0A, CHR 0x0B, CHR 0x0C, CHR 0x0D}"

definition TrimSpace :: "string \<Rightarrow> string" where
  "TrimSpace s = rev (dropWhile white (rev (dropWhile white s)))"

definition splitNonEmpty :: "string \<Rightarrow> string \<Rightarrow> string list" where
  "splitNonEmpty s sep =
     (if s = [] then [] else filter (\<lambda>p. p \<noteq> []) (map TrimSpace (strings_Split s sep)))"

section \<open>Lists of addresses\<close>

lemma cut_char: "cut [c] s = (if c \<in> set s then Some (takeWhile (\<lambda>x. x \<noteq> c) s, drop 1 (dropWhile (\<lambda>x. x \<noteq> c) s)) else None)"
  by (induction s) auto

lemma Split_char:
  "strings_Split s [c] = (if c \<in> set s then takeWhile (\<lambda>x. x \<noteq> c) s # strings_Split (drop 1 (dropWhile (\<lambda>x. x \<noteq> c) s)) [c] else [s])"
  by (subst strings_Split.simps) (simp add: cut_char)

text \<open>The list written with a separator is read back, if no entry is empty, padded or contains the separator.\<close>

fun join_with :: "char \<Rightarrow> string list \<Rightarrow> string" where
  "join_with c [] = []"
| "join_with c [x] = x"
| "join_with c (x # xs) = x @ c # join_with c xs"

lemma Split_joined: "xs \<noteq> [] \<Longrightarrow> \<forall>x \<in> set xs. c \<notin> set x \<Longrightarrow> strings_Split (join_with c xs) [c] = xs"
proof (induction c xs rule: join_with.induct)
  case (2 c x)
  then show ?case by (subst Split_char) simp
next
  case (3 c x y ys)
  have "\<forall>z \<in> set x. z \<noteq> c" using "3.prems" by auto
  then have "takeWhile (\<lambda>z. z \<noteq> c) (x @ c # join_with c (y # ys)) = x" "dropWhile (\<lambda>z. z \<noteq> c) (x @ c # join_with c (y # ys)) = c # join_with c (y # ys)"
    by (simp_all add: takeWhile_append dropWhile_append)
  with 3 show ?case by (subst Split_char) simp
qed simp

lemma splitNonEmpty_joined:
  assumes "\<forall>x \<in> set xs. x \<noteq> [] \<and> c \<notin> set x \<and> TrimSpace x = x"
  shows "splitNonEmpty (join_with c xs) [c] = xs"
proof (cases xs)
  case (Cons x ys)
  then have "join_with c xs \<noteq> []" using assms by (cases ys) auto
  moreover have "map TrimSpace xs = xs" using assms by (simp add: map_idI)
  moreover have "filter (\<lambda>p. p \<noteq> []) xs = xs" using assms by (simp add: filter_id_conv)
  ultimately show ?thesis using assms Cons Split_joined [of xs c] by (simp add: splitNonEmpty_def)
qed (simp add: splitNonEmpty_def)

lemma splitNonEmpty_entries: "x \<in> set (splitNonEmpty s sep) \<Longrightarrow> x \<noteq> []"
  by (auto simp: splitNonEmpty_def split: if_splits)

text \<open>Without \<open>KAFKA_BROKERS\<close> there is still a broker, so the publisher is never the no-op one.\<close>

lemma default_brokers:
  assumes "Getenv ''KAFKA_BROKERS'' = []"
  shows "splitNonEmpty (envOr Getenv ''KAFKA_BROKERS'' ''localhost:9092'') '','' = [''localhost:9092'']"
proof -
  have "TrimSpace ''localhost:9092'' = ''localhost:9092''" by code_simp
  then show ?thesis using assms splitNonEmpty_joined [of "[''localhost:9092'']" "CHR '',''"] by (simp add: envOr_def)
qed

text \<open>A port that was written in decimal is read back; anything that is no number counts as not set.\<close>

lemma envOrInt_port:
  assumes "in_i64 n" "Getenv key = itoa n"
  shows "envOrInt Getenv key fallback = n"
proof -
  have p: "parse_int64 (itoa n) = Inr n" using assms(1) by simp
  then have "itoa n \<noteq> []" by (metis parse_int64_empty sum.distinct(1))
  then show ?thesis using assms(2) p by (simp add: envOrInt_def)
qed

end
