(* ===== verification/SurgeProcess.thy ===== *)
theory SurgeProcess
  imports SurgeService
begin

text \<open>
  The goroutines of \<open>cmd/surge\<close> beside each other: the two consumers, the loop that writes
  the multipliers and the one that prunes share the aggregator, whose mutex makes each of
  its methods one step. A step relation interleaves them freely; the time between steps,
  the server and its other clients act through \<open>env\<close>.
\<close>

section \<open>The loops\<close>

text \<open>
  \<open>writeMultipliersLoop\<close> waits for its ticker or the context, or is ranging over the cells
  it read at a tick; the label is the multiplier it wrote, with its cell and time. Reading the
  aggregator and writing to Redis are one step, which stands where the aggregator is read.
\<close>

datatype writer = WaitTick | WriteRest int "cell list" | WriterReturned

inductive writer_step :: "'w ext \<Rightarrow> aggregator \<Rightarrow> bool \<Rightarrow> writer \<times> 'w \<Rightarrow> (cell \<times> int \<times> f64) option \<Rightarrow> writer \<times> 'w \<Rightarrow> bool"
  for X a cancelled where
  writer_done: "cancelled \<Longrightarrow> writer_step X a cancelled (WaitTick, w) None (WriterReturned, w)"
| writer_tick: "writer_step X a cancelled (WaitTick, w) None (WriteRest (wall X w) (Cells a), w)"
| writer_cell: "m = agg_Multiplier c now DefaultMultiplierConfig a \<Longrightarrow>
    writer_step X a cancelled (WriteRest now (c # cs), w) (Some (c, now, m)) (WriteRest now cs, snd (SetMultiplier X c m w))"
| writer_wait: "writer_step X a cancelled (WriteRest now [], w) None (WaitTick, w)"

text \<open>The pruning goroutine; the label is the time it pruned at.\<close>

inductive pruner_step :: "'w ext \<Rightarrow> 'w \<Rightarrow> bool \<Rightarrow> bool \<times> aggregator \<Rightarrow> int option \<Rightarrow> bool \<times> aggregator \<Rightarrow> bool"
  for X w cancelled where
  pruner_done: "cancelled \<Longrightarrow> pruner_step X w cancelled (True, a) None (False, a)"
| pruner_tick: "pruner_step X w cancelled (True, a) (Some (wall X w)) (True, prune_tick X a w)"

inductive_cases writer_stepE: "writer_step X a cancelled s l s'"
inductive_cases pruner_stepE: "pruner_step X w cancelled s l s'"

section \<open>The process\<close>

record 'w surge_process =
  sp_world :: 'w
  sp_agg :: aggregator
  sp_cancelled :: bool
  sp_writer :: writer
  sp_pruning :: bool

text \<open>\<open>main\<close> up to its goroutines: it exits when Redis does not answer the ping.\<close>

definition surge_start :: "unit result \<Rightarrow> 'w \<Rightarrow> 'w surge_process result" where
  "surge_start ping w =
     (case ping of
        Inl e \<Rightarrow> Inl (Errorf ''surge-aggregator: connect to redis'' e)
      | Inr _ \<Rightarrow> Inr \<lparr>sp_world = w, sp_agg = NewAggregator DefaultWindow, sp_cancelled = False,
          sp_writer = WaitTick, sp_pruning = True\<rparr>)"

datatype surge_label =
    GotTrip "TripLifecycleEvent option"
  | GotDriver "DriverLocationEvent option"
  | Wrote cell int f64
  | Pruned int
  | Silent

inductive surge_step :: "'w ext \<Rightarrow> (rdb \<Rightarrow> rdb \<Rightarrow> bool) \<Rightarrow> 'w surge_process \<Rightarrow> surge_label \<Rightarrow> 'w surge_process \<Rightarrow> bool"
  for X env where
  trip_message: "surge_step X env p (GotTrip m) (p\<lparr>sp_agg := on_trip_message X m (sp_agg p)\<rparr>)"
| driver_message: "surge_step X env p (GotDriver m) (p\<lparr>sp_agg := on_driver_message X m (sp_agg p)\<rparr>)"
| write_step: "writer_step X (sp_agg p) (sp_cancelled p) (sp_writer p, sp_world p) l (wr, w) \<Longrightarrow>
    surge_step X env p (case l of None \<Rightarrow> Silent | Some (c, now, m) \<Rightarrow> Wrote c now m) (p\<lparr>sp_writer := wr, sp_world := w\<rparr>)"
| prune_step: "pruner_step X (sp_world p) (sp_cancelled p) (sp_pruning p, sp_agg p) l (b, a) \<Longrightarrow>
    surge_step X env p (case l of None \<Rightarrow> Silent | Some now \<Rightarrow> Pruned now) (p\<lparr>sp_pruning := b, sp_agg := a\<rparr>)"
| interrupted: "surge_step X env p Silent (p\<lparr>sp_cancelled := True\<rparr>)"
| others_step: "env (db X (sp_world p)) (db X w) \<Longrightarrow> surge_step X env p Silent (p\<lparr>sp_world := w\<rparr>)"

inductive_cases surge_stepE: "surge_step X env p l p'"

inductive surge_run :: "'w ext \<Rightarrow> (rdb \<Rightarrow> rdb \<Rightarrow> bool) \<Rightarrow> 'w surge_process \<Rightarrow> surge_label list \<Rightarrow> 'w surge_process \<Rightarrow> bool"
  for X env where
  run_start: "surge_run X env p [] p"
| run_step: "surge_run X env p ls q \<Longrightarrow> surge_step X env q l r \<Longrightarrow> surge_run X env p (ls @ [l]) r"

section \<open>What the aggregator knows of the window\<close>

text \<open>The entries of a map that count at the time \<open>T\<close>.\<close>

definition recent :: "int \<Rightarrow> int \<Rightarrow> (string \<times> int) list \<Rightarrow> (string \<rightharpoonup> int)" where
  "recent T win m i = (case map_of m i of Some ts \<Rightarrow> if in_window T win ts then Some ts else None | None \<Rightarrow> None)"

lemma recent_Nil [simp]: "recent T win [] = Map.empty"
  by (rule ext) (simp add: recent_def)

lemma recent_update: "recent T win (AList.update i ts m) = (recent T win m)(i := if in_window T win ts then Some ts else None)"
  by (rule ext) (simp add: recent_def update_conv')

lemma recent_delete: "recent T win (AList.delete i m) = (recent T win m)(i := None)"
  by (rule ext) (simp add: recent_def delete_conv')

lemma recent_prune:
  assumes "map_ok m" "t \<le> T"
  shows "recent T win (pruneMap m t win) = recent T win m"
proof
  fix i
  have f: "map_of (pruneMap m t win) i = (case map_of m i of Some ts \<Rightarrow> if in_window t win ts then Some ts else None | None \<Rightarrow> None)"
    unfolding pruneMap_eq [OF assms(1)]
    by (simp add: map_of_filter_conv [OF assms(1)] split: option.splits)
  show "recent T win (pruneMap m t win) i = recent T win m i"
    using in_window_antimono [OF assms(2)] by (auto simp: recent_def f split: option.splits)
qed

lemma count_recent:
  assumes "map_ok m"
  shows "countWithinWindow m T win = int (card (dom (recent T win m)))"
proof -
  let ?xs = "filter (\<lambda>(id, ts). in_window T win ts) m"
  have "dom (recent T win m) = set (map fst ?xs)"
    using map_ok_map_of [OF assms] by (force simp: recent_def split: option.splits if_splits)
  moreover have "distinct (map fst ?xs)" using map_ok_filter [OF assms] by (simp add: map_ok_def)
  ultimately have "card (dom (recent T win m)) = length ?xs" by (metis distinct_card length_map)
  then show ?thesis by (simp add: countWithinWindow_eq)
qed

text \<open>Two aggregators that count alike from the time \<open>T\<close> on.\<close>

definition counts_alike :: "int \<Rightarrow> aggregator \<Rightarrow> aggregator \<Rightarrow> bool" where
  "counts_alike T a b \<longleftrightarrow> agg_ok a \<and> agg_ok b \<and> window a = window b \<and>
     (\<forall>k. recent T (window b) (openTrips (cell_of a k)) = recent T (window b) (openTrips (cell_of b k)) \<and>
          recent T (window b) (availableDrivers (cell_of a k)) = recent T (window b) (availableDrivers (cell_of b k)))"

lemma counts_alike_Ratio:
  assumes "counts_alike T a b"
  shows "Ratio k T a = Ratio k T b"
proof -
  have "cell_ok (cell_of a k)" "cell_ok (cell_of b k)" using assms by (simp_all add: counts_alike_def cell_of_ok)
  then show ?thesis using assms by (simp add: Ratio_counts count_recent cell_ok_def counts_alike_def)
qed

lemma cell_of_Record:
  "cell_of (RecordTrip k t st ts a) k' = (if k' = k then trip_update t st ts (cell_of a k) else cell_of a k')"
  "cell_of (RecordDriver k d st ts a) k' = (if k' = k then driver_update d st ts (cell_of a k) else cell_of a k')"
  by (simp_all add: cell_of_def cells_RecordTrip cells_RecordDriver)

lemma counts_alike_Record:
  assumes "counts_alike T a b"
  shows "counts_alike T (RecordTrip k t st ts a) (RecordTrip k t st ts b)"
    "counts_alike T (RecordDriver k t st ts a) (RecordDriver k t st ts b)"
  using assms
  by (auto simp: counts_alike_def agg_ok_RecordTrip agg_ok_RecordDriver cell_of_Record trip_update_def driver_update_def
      recent_update recent_delete)

lemma cell_of_Prune:
  assumes "agg_ok a"
  shows "cell_of (Prune now a) k = prune_cell now (window a) (cell_of a k)"
proof (cases "map_of (cells a) k")
  case None
  then show ?thesis by (simp add: cell_of_def cells_Prune [OF assms] prune_cell_def pruneMap_def)
next
  case (Some c)
  then show ?thesis
    by (cases "prune_cell now (window a) c") (auto simp: cell_of_def cells_Prune [OF assms] prune_result_def Let_def)
qed

lemma window_Prune [simp]: "window (Prune now a) = window a"
  by (simp add: Prune_def)

lemma counts_alike_Prune:
  assumes "counts_alike T a b" "now \<le> T"
  shows "counts_alike T (Prune now a) b"
proof -
  have a: "agg_ok a" "\<And>k. cell_ok (cell_of a k)" using assms(1) by (simp_all add: counts_alike_def cell_of_ok)
  then show ?thesis
    using assms agg_ok_Prune [OF a(1), of now]
    by (simp add: counts_alike_def cell_of_Prune prune_cell_def recent_prune cell_ok_def)
qed

lemma counts_alike_messages:
  assumes "counts_alike T a b"
  shows "counts_alike T (on_trip_message X m a) (on_trip_message X m b)"
    "counts_alike T (on_driver_message X m' a) (on_driver_message X m' b)"
  using assms by (auto simp: on_trip_message_def on_driver_message_def Let_def counts_alike_Record split: option.splits)

section \<open>The aggregator refines the log of messages\<close>

text \<open>The aggregator that heard the messages of a run and was never pruned.\<close>

fun hear :: "'w ext \<Rightarrow> surge_label \<Rightarrow> aggregator \<Rightarrow> aggregator" where
  "hear X (GotTrip m) a = on_trip_message X m a"
| "hear X (GotDriver m) a = on_driver_message X m a"
| "hear X _ a = a"

definition heard :: "'w ext \<Rightarrow> surge_label list \<Rightarrow> aggregator" where
  "heard X ls = fold (hear X) ls (NewAggregator DefaultWindow)"

lemma heard_simps [simp]: "heard X [] = NewAggregator DefaultWindow" "heard X (ls @ [l]) = hear X l (heard X ls)"
  by (simp_all add: heard_def)

lemma surge_run_counts:
  assumes "surge_run X env p ls q" "sp_agg p = NewAggregator DefaultWindow" "\<forall>t. Pruned t \<in> set ls \<longrightarrow> t \<le> T"
  shows "counts_alike T (sp_agg q) (heard X ls)"
  using assms
proof (induction rule: surge_run.induct)
  case (run_start p)
  then show ?case by (simp add: counts_alike_def agg_ok_New)
next
  case (run_step p ls q l r)
  have IH: "counts_alike T (sp_agg q) (heard X ls)" using run_step by auto
  show ?case using run_step.hyps(2)
  proof (cases rule: surge_step.cases)
    case (prune_step l' b a)
    then show ?thesis using IH run_step.prems
      by (auto simp: prune_tick_def counts_alike_Prune elim!: pruner_stepE)
  qed (use IH in \<open>auto simp: counts_alike_messages split: option.splits prod.splits\<close>)
qed

text \<open>
  C10. Prices follow the events: every multiplier the service writes is the default curve of
  the ratio of the open trips to the available drivers among all the messages it ever got,
  counted at the time of the tick, however messages, prunings and the writes of a tick
  interleave (if the clock it prunes by was not ahead of that time).
\<close>

theorem surge_prices_follow_events:
  assumes "surge_start ping w = Inr p" and "surge_run X env p ls q" and "surge_step X env q (Wrote c now m) r"
    and "\<forall>t. Pruned t \<in> set ls \<longrightarrow> t \<le> now"
  shows "m = agg_Multiplier c now DefaultMultiplierConfig (heard X ls)"
proof -
  have "sp_agg p = NewAggregator DefaultWindow" using assms(1) by (auto simp: surge_start_def split: sum.splits)
  from counts_alike_Ratio [OF surge_run_counts [OF assms(2) this assms(4)]]
  have "agg_Multiplier c now DefaultMultiplierConfig (sp_agg q) = agg_Multiplier c now DefaultMultiplierConfig (heard X ls)"
    by (simp add: agg_Multiplier_def)
  moreover have "m = agg_Multiplier c now DefaultMultiplierConfig (sp_agg q)"
    using assms(3) by (auto elim!: surge_stepE writer_stepE split: option.splits)
  ultimately show ?thesis by simp
qed

definition demo_trip_event :: TripLifecycleEvent where
  "demo_trip_event = \<lparr>tl_TripID = ''t1'', tl_State = ''OFFERED'', tl_Cell = CellString mem_world 7, tl_DriverID = [],
     tl_Timestamp = 400 * second\<rparr>"

text \<open>A trip is heard of, a pruning comes in between, then the tick writes the ceiling for its cell.\<close>

definition demo_surge :: "rdb surge_process" where
  "demo_surge = \<lparr>sp_world = empty_db\<lparr>rnow := 410 * second\<rparr>, sp_agg = NewAggregator DefaultWindow, sp_cancelled = False,
     sp_writer = WaitTick, sp_pruning = True\<rparr>"

lemma demo_surge_run:
  obtains q r where "surge_run mem_world (=) demo_surge [GotTrip (Some demo_trip_event), Pruned (410 * second), Silent] q"
    "surge_step mem_world (=) q (Wrote 7 (410 * second) (Fin 3)) r"
proof -
  let ?w = "empty_db\<lparr>rnow := 410 * second\<rparr>"
  let ?a = "on_trip_message mem_world (Some demo_trip_event) (NewAggregator DefaultWindow)"
  let ?p1 = "demo_surge\<lparr>sp_agg := ?a\<rparr>"
  have now: "wall mem_world ?w = 410 * second" by (simp add: mem_world_def mem_clock_def second_def)
  have a: "?a = \<lparr>window = 300 * second, cells = [(7, \<lparr>openTrips = [(''t1'', 400 * second)], availableDrivers = []\<rparr>)]\<rparr>"
    by (simp add: on_trip_message_def demo_trip_event_def mem_world_def mem_cell_roundtrip RecordTrip_def cellFor_def
        NewAggregator_def DefaultWindow_def time_units Let_def)
  have pr: "prune_tick mem_world ?a ?w = ?a"
    by (simp add: a prune_tick_def now [simplified time_units, simplified] Prune_def prune_cell_def pruneMap_def time_sub_def time_units in_i64_def)
  have m: "agg_Multiplier 7 (410 * second) DefaultMultiplierConfig ?a = Fin 3"
    using default_surge_curve [of ?a 7, OF _ refl _ refl, of _ "410 * second"]
    by (simp add: a countWithinWindow_def time_sub_def time_units in_i64_def)
  have s1: "surge_step mem_world (=) demo_surge (GotTrip (Some demo_trip_event)) ?p1"
    using trip_message [of mem_world "(=)" demo_surge "Some demo_trip_event"] by (simp add: demo_surge_def)
  have "pruner_step mem_world (sp_world ?p1) (sp_cancelled ?p1) (sp_pruning ?p1, sp_agg ?p1) (Some (410 * second)) (True, ?a)"
    using pruner_tick [of mem_world ?w False ?a] unfolding pr now by (simp add: demo_surge_def)
  from surge_step.prune_step [OF this, of "(=)"]
  have s2: "surge_step mem_world (=) ?p1 (Pruned (410 * second)) ?p1" by (simp add: demo_surge_def)
  let ?p2 = "?p1\<lparr>sp_writer := WriteRest (410 * second) [7]\<rparr>"
  have "writer_step mem_world (sp_agg ?p1) (sp_cancelled ?p1) (sp_writer ?p1, sp_world ?p1) None (WriteRest (410 * second) [7], ?w)"
    using writer_tick [of mem_world ?a False ?w] unfolding now by (simp add: demo_surge_def a Cells_def)
  from surge_step.write_step [OF this, of "(=)"]
  have s3: "surge_step mem_world (=) ?p1 Silent ?p2" by (simp add: demo_surge_def)
  have "writer_step mem_world (sp_agg ?p2) (sp_cancelled ?p2) (sp_writer ?p2, sp_world ?p2) (Some (7, 410 * second, Fin 3))
      (WriteRest (410 * second) [], snd (SetMultiplier mem_world 7 (Fin 3) ?w))"
    using writer_cell [OF m [symmetric], of mem_world False "[]" ?w] by (simp add: demo_surge_def)
  from surge_step.write_step [OF this, of "(=)"]
  have s4: "surge_step mem_world (=) ?p2 (Wrote 7 (410 * second) (Fin 3))
      (?p2\<lparr>sp_writer := WriteRest (410 * second) [], sp_world := snd (SetMultiplier mem_world 7 (Fin 3) ?w)\<rparr>)" by simp
  have "surge_run mem_world (=) demo_surge (([] @ [GotTrip (Some demo_trip_event)]) @ [Pruned (410 * second)]) ?p1"
    by (rule run_step [OF run_step [OF run_start s1] s2])
  from run_step [OF this s3] s4 that show thesis by simp
qed

theorem surge_prices_follow_events_witness:
  "agg_Multiplier 7 (410 * second) DefaultMultiplierConfig
     (heard mem_world [GotTrip (Some demo_trip_event), Pruned (410 * second), Silent]) = Fin 3"
proof -
  have start: "surge_start (Inr ()) (empty_db\<lparr>rnow := 410 * second\<rparr>) = Inr demo_surge"
    by (simp add: surge_start_def demo_surge_def)
  obtain q r where run: "surge_run mem_world (=) demo_surge [GotTrip (Some demo_trip_event), Pruned (410 * second), Silent] q"
    "surge_step mem_world (=) q (Wrote 7 (410 * second) (Fin 3)) r" by (rule demo_surge_run)
  show ?thesis using surge_prices_follow_events [OF start run] by simp
qed

section \<open>Prices stay in bounds\<close>

definition prices_ok :: "'w ext \<Rightarrow> rdb \<Rightarrow> bool" where
  "prices_ok X d \<longleftrightarrow> (\<forall>c. live d (surgeKey X c) = None \<or>
     (\<exists>m t. live d (surgeKey X c) = Some (RStr (fmt_f64 X m), t) \<and> price m))"

lemma prices_ok_SET:
  assumes "prices_ok X d" "price m"
  shows "prices_ok X (redis_effect (SET (surgeKey X c) (fmt_f64 X m) ttl) d)"
  using assms unfolding prices_ok_def live_effect by auto

context redis_server
begin

lemma SetMultiplier_prices:
  assumes "env_keeps (prices_ok X)" "prices_ok X (db X w)" "price m"
  shows "prices_ok X (db X (snd (SetMultiplier X c m w)))"
  using call_typed_inv(4) [OF assms(1) prices_ok_SET [OF _ assms(3)] assms(2)] by (simp add: SetMultiplier_def)

lemma GetMultiplier_prices:
  assumes "text_formats X" "env_keeps (prices_ok X)" "prices_ok X (db X w)"
  shows "case fst (GetMultiplier X c w) of
      Inr m \<Rightarrow> f_le (Fin 1) m \<and> f_le m (Fin 3)
    | Inl e \<Rightarrow> \<exists>e'. e = Errorf ''get surge multiplier'' e'"
proof (cases rule: request_cases [of "server_call X (GET (surgeKey X c))" w])
  case (1 e)
  then show ?thesis by (simp add: GetMultiplier_def call_string_def call_def io_known)
next
  case (2 w1)
  let ?k = "surgeKey X c"
  have "prices_ok X (db X w1)" using assms(2,3) link_env [of w] unfolding 2(1) env_keeps_def by blast
  then consider "live (db X w1) ?k = None" | m t where "live (db X w1) ?k = Some (RStr (fmt_f64 X m), t)" "price m"
    unfolding prices_ok_def by metis
  then show ?thesis
  proof cases
    case 1
    then have "fst (call_string X (GET ?k) w) = Inr None"
      using exec_reply [of "GET ?k" w1] by (simp add: call_string_def call_def io_known 2(2) server_call_fst as_string_def)
    then show ?thesis by (simp add: GetMultiplier_def io_known)
  next
    case (2 m t)
    then have "fst (call_string X (GET ?k) w) = Inr (Some (fmt_f64 X m))"
      using exec_reply [of "GET ?k" w1] \<open>request X _ w = _\<close>
      by (simp add: call_string_def call_def io_known server_call_fst as_string_def)
    then show ?thesis using 2(2) text_formats.parse_fmt [OF assms(1), of m]
      by (simp add: GetMultiplier_def io_known price_def)
  qed
qed

lemma surge_run_prices:
  assumes "env_keeps (prices_ok X)" "surge_run X env p ls q" "prices_ok X (db X (sp_world p))"
  shows "prices_ok X (db X (sp_world q))"
  using assms(2,3)
proof (induction rule: surge_run.induct)
  case (run_step p ls q l r)
  then have IH: "prices_ok X (db X (sp_world q))" by simp
  show ?case using run_step.hyps(2)
  proof (cases rule: surge_step.cases)
    case (write_step l' wr w)
    then show ?thesis using IH
      by (auto simp: SetMultiplier_prices [OF assms(1)] agg_Multiplier_def default_price elim!: writer_stepE)
  next
    case (others_step w)
    then show ?thesis using IH assms(1) unfolding env_keeps_def by auto
  qed (use IH in auto)
qed simp

end

text \<open>
  C22. A price is always between 1 and 3: at any moment of a run of the service, with
  requests lost and other clients acting in between (that leave the keys of prices alone or
  let them expire), a quote for any cell reads such a multiplier, or fails because Redis
  does; what is stored can always be parsed.
\<close>

theorem surge_prices_bounded:
  assumes "redis_server X env" and "text_formats X" and "\<forall>d d'. env d d' \<longrightarrow> prices_ok X d \<longrightarrow> prices_ok X d'"
    and "surge_start ping w = Inr p" and "prices_ok X (db X w)" and "surge_run X env p ls q"
  shows "case fst (GetMultiplier X c (sp_world q)) of
      Inr m \<Rightarrow> f_le (Fin 1) m \<and> f_le m (Fin 3)
    | Inl e \<Rightarrow> \<exists>e'. e = Errorf ''get surge multiplier'' e'"
proof -
  have k: "redis_server.env_keeps env (prices_ok X)" using assms(3) redis_server.env_keeps_def [OF assms(1)] by simp
  have "sp_world p = w" using assms(4) by (auto simp: surge_start_def split: sum.splits)
  then have "prices_ok X (db X (sp_world q))"
    using redis_server.surge_run_prices [OF assms(1) k assms(6)] assms(5) by simp
  then show ?thesis by (rule redis_server.GetMultiplier_prices [OF assms(1,2) k])
qed

theorem surge_prices_bounded_witness:
  "\<exists>q. surge_run mem_world (=) demo_surge [GotTrip (Some demo_trip_event), Pruned (410 * second), Silent] q \<and>
    (case fst (GetMultiplier mem_world 7 (sp_world q)) of Inr m \<Rightarrow> f_le (Fin 1) m \<and> f_le m (Fin 3)
     | Inl e \<Rightarrow> \<exists>e'. e = Errorf ''get surge multiplier'' e')"
proof -
  have start: "surge_start (Inr ()) (empty_db\<lparr>rnow := 410 * second\<rparr>) = Inr demo_surge"
    by (simp add: surge_start_def demo_surge_def)
  obtain q r where run: "surge_run mem_world (=) demo_surge [GotTrip (Some demo_trip_event), Pruned (410 * second), Silent] q"
    "surge_step mem_world (=) q (Wrote 7 (410 * second) (Fin 3)) r" by (rule demo_surge_run)
  have ok: "prices_ok mem_world (db mem_world (empty_db\<lparr>rnow := 410 * second\<rparr>))"
    by (simp add: prices_ok_def mem_world_def empty_db_def)
  show ?thesis
    using surge_prices_bounded [OF quiet_redis.axioms(1) [OF mem.quiet_redis_axioms] mem.text_formats_axioms _ start ok run(1), of 7]
      run(1) by blast
qed

section \<open>A price can outlive its cell\<close>

lemma default_curve_0: "config_Multiplier DefaultMultiplierConfig (Fin 0) = Fin 1"
  using rnd_6_5 by (auto simp: config_Multiplier_def DefaultMultiplierConfig_def mk_step_def Let_def f_lt_def)

context quiet_store
begin

lemma write_cells_entry:
  assumes "surge_typed (db X w)"
  shows "surge_typed (db X (snd (write_cells X a now cs w))) \<and> rnow (db X (snd (write_cells X a now cs w))) = rnow (db X w) \<and>
    live (db X (snd (write_cells X a now cs w))) (surgeKey X c) =
      (if c \<in> set cs then Some (RStr (fmt_f64 X (agg_Multiplier c now DefaultMultiplierConfig a)), Some (rnow (db X w) + SurgeTTL))
       else live (db X w) (surgeKey X c))"
  using assms
proof (induction cs arbitrary: w)
  case (Cons k cs)
  let ?m = "agg_Multiplier k now DefaultMultiplierConfig a"
  have f: "is_f64 ?m" by (simp add: agg_Multiplier_def default_multiplier_f64)
  note s = SetMultiplier_quiet [OF Cons.prems f, of k]
  show ?case
    using Cons.IH [OF s(2)] s(1) CellString_inj [of c k]
    by (auto simp: split_beta live_effect surgeKey_def)
qed simp

end

text \<open>
  C37. A price can outlive its demand: once the pruning goroutine has dropped a cell, no tick
  writes it any more, so the multiplier of its last tick is quoted until the key expires, up
  to ten minutes later, although the cell's ratio has long been that of no demand.
\<close>

theorem surge_price_outlives_cell:
  assumes "quiet_store X" and "surge_typed (db X w)" and "c \<in> set (Cells a)" and "c \<notin> set (Cells (Prune now a))"
    and "db X w' = elapse dt (db X (snd (write_multipliers X a w)))" and "dt < SurgeTTL"
  shows "fst (GetMultiplier X c (snd (write_multipliers X (Prune now a) w'))) =
      Inr (agg_Multiplier c (wall X w) DefaultMultiplierConfig a) \<and>
    agg_Multiplier c (wall X w') DefaultMultiplierConfig (Prune now a) = Fin 1"
proof -
  let ?t = "write_multipliers X a w" and ?m = "agg_Multiplier c (wall X w) DefaultMultiplierConfig a"
  have e: "surge_typed (db X (snd ?t))"
    "live (db X (snd ?t)) (surgeKey X c) = Some (RStr (fmt_f64 X ?m), Some (rnow (db X w) + SurgeTTL))"
    "rnow (db X (snd ?t)) = rnow (db X w)"
    using quiet_store.write_cells_entry [OF assms(1,2), of a "wall X w" "Cells a" c] assms(3) by (simp_all add: write_multipliers_def)
  have t: "surge_typed (db X w')" using e(1) by (simp add: assms(5) surge_typed_def entry_elapse)
  have l: "live (db X w') (surgeKey X c) = Some (RStr (fmt_f64 X ?m), Some (rnow (db X w) + SurgeTTL))"
    using live_elapse_expiry [OF e(2), of dt] assms(6) by (simp add: assms(5) e(3))
  have "fst (GetMultiplier X c (snd (write_multipliers X (Prune now a) w'))) = fst (GetMultiplier X c w')"
    using quiet_store.write_cells_read [OF assms(1) t, of "Prune now a" "wall X w'" "Cells (Prune now a)" c] assms(4)
    by (simp add: write_multipliers_def)
  moreover have "fst (GetMultiplier X c w') = Inr ?m"
    using l quiet_store.GetMultiplier_quiet [OF assms(1) t, of c]
      text_formats.parse_fmt [OF quiet_store.axioms(2) [OF assms(1)], of ?m] default_multiplier_f64
    by (simp add: str_at_def agg_Multiplier_def)
  moreover have "map_of (cells (Prune now a)) c = None" using assms(4) by (simp add: Cells_def map_of_eq_None_iff)
  then have "agg_Multiplier c (wall X w') DefaultMultiplierConfig (Prune now a) = Fin 1"
    using default_curve_0 by (simp add: agg_Multiplier_def Ratio_def)
  ultimately show ?thesis by simp
qed

definition brief_agg :: aggregator where
  "brief_agg = RecordTrip 7 ''t1'' ''OFFERED'' (400 * second) (NewAggregator 0)"

theorem surge_price_outlives_cell_witness:
  "let w = empty_db\<lparr>rnow := 699 * second\<rparr>; w' = elapse (9 * minute) (snd (write_multipliers mem_world brief_agg w)) in
     fst (GetMultiplier mem_world 7 (snd (write_multipliers mem_world (Prune (701 * second) brief_agg) w'))) = Inr (Fin 3)"
proof -
  let ?w = "empty_db\<lparr>rnow := 699 * second\<rparr>"
  have a: "brief_agg = \<lparr>window = 300 * second, cells = [(7, \<lparr>openTrips = [(''t1'', 400 * second)], availableDrivers = []\<rparr>)]\<rparr>"
    by (simp add: brief_agg_def RecordTrip_def cellFor_def NewAggregator_def DefaultWindow_def time_units Let_def)
  have t: "surge_typed (db mem_world ?w)" by (simp add: mem_world_def surge_typed_def empty_db_def)
  have c: "7 \<in> set (Cells brief_agg)" "7 \<notin> set (Cells (Prune (701 * second) brief_agg))"
    by (simp_all add: a Cells_def Prune_def prune_cell_def pruneMap_def time_sub_def time_units in_i64_def)
  have now: "wall mem_world ?w = 699 * second" by (simp add: mem_world_def mem_clock_def second_def)
  have m: "agg_Multiplier 7 (699 * second) DefaultMultiplierConfig brief_agg = Fin 3"
    using default_surge_curve [of brief_agg 7, OF _ refl _ refl, of _ "699 * second"]
    by (simp add: a countWithinWindow_def time_sub_def time_units in_i64_def)
  have e: "db mem_world (elapse (9 * minute) (snd (write_multipliers mem_world brief_agg ?w))) =
      elapse (9 * minute) (db mem_world (snd (write_multipliers mem_world brief_agg ?w)))" by (simp add: mem_world_def)
  have "9 * minute < SurgeTTL" by (simp add: SurgeTTL_def time_units)
  from surge_price_outlives_cell [OF mem.quiet_store_axioms t c e this] m show ?thesis
    unfolding now Let_def by simp
qed

end
