(* ===== verification/DemandFlow.thy ===== *)
theory DemandFlow
  imports Offers SurgeProcess
begin

text \<open>
  From a dispatch to the price: the trip events \<open>Run\<close> publishes (\<open>internal/offers\<close>) and what they
  do to the aggregator of \<open>cmd/surge\<close> that hears them.
\<close>

section \<open>The trip events of a dispatch\<close>

fun trip_event :: "event \<Rightarrow> TripLifecycleEvent option" where
  "trip_event (TripLifecycle e) = Some e"
| "trip_event _ = None"

definition trip_events :: "'w node \<Rightarrow> TripLifecycleEvent list" where
  "trip_events n = List.map_filter trip_event (published n)"

text \<open>Which steps tell of the trip: only the publishing of its events.\<close>

lemma mute_offer [simp, intro]: "mute trip_event (publishOffer X t i rno c st)"
  by (simp add: emits_def publishOffer_def List.map_filter_def)

lemma mute_close [simp, intro]: "mute trip_event (close_round X t c i rno resp)"
  unfolding close_round_def by (intro mute_bind emits_if emits_case mute_wrap mute_steps mute_offer mute_tolerant)

text \<open>What a trip event says.\<close>

definition about :: "'w ext \<Rightarrow> string \<Rightarrow> cell \<Rightarrow> trip_state \<Rightarrow> string \<Rightarrow> TripLifecycleEvent \<Rightarrow> bool" where
  "about X t c st i e \<longleftrightarrow> tl_TripID e = t \<and> tl_Cell e = CellString X c \<and> tl_State e = st \<and> tl_DriverID e = i"

lemma tells_publishTrip: "emits trip_event (publishTrip X t c st i) (\<lambda>r es. \<exists>e. es = [e] \<and> about X t c st i e)"
  by (simp add: emits_def trip_events_def publishTrip_def about_def List.map_filter_def)

text \<open>The last event: exactly one when the dispatch succeeds, which says how it ended.\<close>

definition outcome_told :: "'w ext \<Rightarrow> string \<Rightarrow> cell \<Rightarrow> (bool \<times> string) result \<Rightarrow> TripLifecycleEvent list \<Rightarrow> bool" where
  "outcome_told X t c r es \<longleftrightarrow>
     (case r of Inl e \<Rightarrow> es = []
      | Inr (m, i) \<Rightarrow> \<exists>e. es = [e] \<and> about X t c (if m then TripMatched else TripUnfulfilled) i e)"

lemma outcome_told_fail [simp]: "outcome_told X t c (Inl e) es \<longleftrightarrow> es = []"
  by (simp add: outcome_told_def)

lemma tells_publish_return:
  assumes "i' = i" "st = (if m then TripMatched else TripUnfulfilled)"
  shows "emits trip_event (io_bind (publishTrip X t c st i) (\<lambda>_. io_bind (recordOutcome m k) (\<lambda>_. io_return (m, i')))) (outcome_told X t c)"
  using assms
  by (simp add: emits_def trip_events_def publishTrip_def io_bind_def publish_def recordOutcome_def outcome_told_def about_def io_return_def
      List.map_filter_def)

lemma offer_loop_tells: "emits trip_event (offer_loop X W cfg t c ids rounds backoff) (outcome_told X t c)"
proof -
  have give_up: "emits trip_event (give_up X t c k) (outcome_told X t c)" for k
    unfolding give_up_def by (intro emits_after_mute [OF mute_steps(1)] tells_publish_return) auto
  have accept: "emits trip_event (accept_round X t c i rno) (outcome_told X t c)" for i rno
    unfolding accept_round_def
    by (intro emits_after_mute [OF mute_wrap [OF mute_steps(1)]] emits_after_mute [OF mute_offer]
        emits_after_mute [OF mute_tolerant] tells_publish_return) auto
  show ?thesis
  proof (induction ids arbitrary: rounds backoff)
    case (Cons i ids)
    have fail: "emits trip_event (io_fail e) (outcome_told X t c)" for e by (simp add: emits_def io_fail_def)
    show ?case
      unfolding offer_loop.simps
      by (intro emits_if emits_case emits_after_mute [OF mute_steps(2)] emits_after_mute [OF mute_wrap [OF mute_steps(1)]]
          emits_after_mute [OF mute_offer] emits_after_mute [OF mute_steps(5)] emits_after_mute [OF mute_close]
          emits_after_mute [OF mute_steps(6)] Cons.IH give_up accept fail) (simp_all only: outcome_told_fail)
  qed (simp add: give_up)
qed

text \<open>All trip events of a dispatch: perhaps one \<open>OFFERED\<close>, then the outcome.\<close>

definition dispatch_told :: "'w ext \<Rightarrow> string \<Rightarrow> cell \<Rightarrow> (bool \<times> string) result \<Rightarrow> TripLifecycleEvent list \<Rightarrow> bool" where
  "dispatch_told X t c r es \<longleftrightarrow> (\<exists>before told. es = before @ told \<and>
     (before = [] \<or> (\<exists>e. before = [e] \<and> about X t c TripOffered '''' e)) \<and> outcome_told X t c r told)"

lemma dispatch_toldI:
  shows told_whole: "outcome_told X t c r es \<Longrightarrow> dispatch_told X t c r es"
    and told_offered: "about X t c TripOffered '''' e \<Longrightarrow> outcome_told X t c r es \<Longrightarrow> dispatch_told X t c r (e # es)"
proof -
  show "outcome_told X t c r es \<Longrightarrow> dispatch_told X t c r es"
    unfolding dispatch_told_def by (intro exI [of _ "[]"] exI [of _ es]) simp
  show "about X t c TripOffered '''' e \<Longrightarrow> outcome_told X t c r es \<Longrightarrow> dispatch_told X t c r (e # es)"
    unfolding dispatch_told_def by (intro exI [of _ "[e]"] exI [of _ es]) simp
qed

lemma Run_tells: "emits trip_event (Run X W cfg t c cands) (dispatch_told X t c)"
proof -
  note loop = offer_loop_tells [of X W cfg t c]
  have whole: "emits trip_event m (dispatch_told X t c)" if "emits trip_event m (outcome_told X t c)" for m :: "('a node, bool \<times> string) io"
    by (rule emits_mono [OF that told_whole])
  have give_up: "emits trip_event (give_up X t c 0) (dispatch_told X t c)"
    using whole [OF loop [of "[]" 0]] by simp
  have none: "dispatch_told X t c (Inl e) []" for e by (rule told_whole) simp
  have fail: "emits trip_event (io_fail e) (dispatch_told X t c)" for e :: go_error
    by (rule emits_mono [where Q = "\<lambda>r es. r = Inl e \<and> es = []"]) (auto simp: none emits_def io_fail_def)
  have opened: "emits trip_event (io_bind (publishTrip X t c TripOffered '''') (\<lambda>_. offer_loop X W cfg t c ids r b)) (dispatch_told X t c)" for ids r b
    by (rule emits_bind [OF tells_publishTrip loop]) (auto intro: told_offered)
  have offered: "emits trip_event (io_bind (io_wrap ''mark trip offered'' (on_world (SetTripState X t TripOffered))) (\<lambda>_.
      io_bind (publishTrip X t c TripOffered '''') (\<lambda>_. offer_loop X W cfg t c ids r b))) (dispatch_told X t c)" for ids r b
    by (intro emits_after_mute [OF _ opened none] mute_wrap mute_steps)
  show ?thesis
    unfolding Run_def Let_def
    by (intro emits_after_mute emits_if give_up fail offered whole [OF loop] mute_wrap mute_steps none)
qed

section \<open>What the aggregator makes of it\<close>

text \<open>The open trips and available drivers of a cell.\<close>

definition open_trips :: "aggregator \<Rightarrow> cell \<Rightarrow> (string \<rightharpoonup> int)" where
  "open_trips a k = map_of (openTrips (cell_of a k))"

definition available_in :: "aggregator \<Rightarrow> cell \<Rightarrow> (string \<rightharpoonup> int)" where
  "available_in a k = map_of (availableDrivers (cell_of a k))"

definition hear_trips :: "'w ext \<Rightarrow> TripLifecycleEvent list \<Rightarrow> aggregator \<Rightarrow> aggregator" where
  "hear_trips X es a = fold (\<lambda>e. on_trip_message X (Some e)) es a"

context text_formats
begin

lemma hear_trip:
  assumes "CellIsValid X c" "about X t c st i e"
  shows "open_trips (on_trip_message X (Some e) a) k =
      (if k \<noteq> c then open_trips a k
       else if st = TripRequested \<or> st = TripOffered then (open_trips a k)(t \<mapsto> tl_Timestamp e)
       else if st = TripMatched \<or> st = TripUnfulfilled then (open_trips a k)(t := None)
       else open_trips a k)"
    "available_in (on_trip_message X (Some e) a) k = available_in a k"
  using assms
  by (auto simp: on_trip_message_def about_def cell_roundtrip open_trips_def available_in_def cell_of_Record trip_update_def
      trip_states Let_def)

end

text \<open>
  C11. A resolved dispatch leaves no demand behind: the trip events of a dispatch are at most
  one \<open>OFFERED\<close> and then, exactly if it succeeds, one that tells its outcome (\<open>MATCHED\<close> with the
  driver it returns, or \<open>UNFULFILLED\<close>), all for the trip's own cell. So when the surge service
  has heard the events of a dispatch that succeeds, the trip is open in no cell it was not open
  in before, not in its own either, and nothing else it knows has changed. A dispatch that fails
  after announcing the trip as \<open>OFFERED\<close> leaves it counted as open; one that fails without
  having done so changes nothing.
\<close>

theorem dispatch_closes_demand:
  assumes "text_formats X" and "CellIsValid X c" and "Run X W cfg t c cands n = (r, n')"
  shows "\<exists>offered told. trip_events n' = trip_events n @ offered @ told \<and>
    (offered = [] \<or> (\<exists>e. offered = [e] \<and> about X t c TripOffered '''' e)) \<and>
    (case r of Inl _ \<Rightarrow> told = []
     | Inr (matched, i) \<Rightarrow> \<exists>e. told = [e] \<and> about X t c (if matched then TripMatched else TripUnfulfilled) i e) \<and>
    (\<forall>a k. available_in (hear_trips X (offered @ told) a) k = available_in a k \<and>
       open_trips (hear_trips X (offered @ told) a) k =
         (if k \<noteq> c then open_trips a k
          else case r of Inr _ \<Rightarrow> (open_trips a k)(t := None)
               | Inl _ \<Rightarrow> if offered = [] then open_trips a k else (open_trips a k)(t \<mapsto> tl_Timestamp (hd offered))))"
proof -
  note hear = text_formats.hear_trip [OF assms(1,2)]
  obtain first last where es: "trip_events n' = trip_events n @ first @ last" "outcome_told X t c r last"
    "first = [] \<or> (\<exists>e. first = [e] \<and> about X t c TripOffered '''' e)"
    using Run_tells [of X W cfg t c cands] assms(3)
    unfolding emits_def dispatch_told_def trip_events_def by (metis fst_conv snd_conv)
  have st: "TripOffered \<noteq> TripMatched" "TripOffered \<noteq> TripUnfulfilled" "TripMatched \<noteq> TripRequested" "TripMatched \<noteq> TripOffered"
    "TripUnfulfilled \<noteq> TripRequested" "TripUnfulfilled \<noteq> TripOffered" by (simp_all add: trip_states)
  have two: "\<exists>e st i. last = [e] \<and> about X t c st i e \<and> (st = TripMatched \<or> st = TripUnfulfilled)" if "r = Inr x" for x
    using es(2) that by (cases x) (auto simp: outcome_told_def, metis)
  have heard: "available_in (hear_trips X (first @ last) a) k = available_in a k \<and>
       open_trips (hear_trips X (first @ last) a) k =
         (if k \<noteq> c then open_trips a k
          else case r of Inr _ \<Rightarrow> (open_trips a k)(t := None)
               | Inl _ \<Rightarrow> if first = [] then open_trips a k else (open_trips a k)(t \<mapsto> tl_Timestamp (hd first)))" for a k
  proof (cases r)
    case (Inl e)
    then have "last = []" using es(2) by simp
    then show ?thesis using es(3) by (elim disjE exE conjE) (simp_all add: hear_trips_def hear Inl)
  next
    case (Inr x)
    from two [OF this] obtain e st i where l: "last = [e]" "about X t c st i e" "st = TripMatched \<or> st = TripUnfulfilled" by blast
    show ?thesis using es(3) l(3)
      by (elim disjE conjE exE) (simp_all add: hear_trips_def l(1) hear [OF l(2)] hear Inr st)
  qed
  have told: "case r of Inl _ \<Rightarrow> last = []
     | Inr (matched, i) \<Rightarrow> \<exists>e. last = [e] \<and> about X t c (if matched then TripMatched else TripUnfulfilled) i e"
    using es(2) by (simp add: outcome_told_def split: sum.splits)
  show ?thesis using es(1,3) told heard by (intro exI [of _ first] exI [of _ last] conjI) blast+
qed

theorem dispatch_closes_demand_witness:
  "\<exists>m i n' es e. Run mem_world all_accept DefaultConfig ''t1'' 1012 demo_ranked (demo_node TripRequested DriverAvailable) = (Inr (m, i), n') \<and>
     trip_events n' = trip_events (demo_node TripRequested DriverAvailable) @ es \<and>
     last es = e \<and> tl_State e = (if m then TripMatched else TripUnfulfilled) \<and> tl_DriverID e = i \<and>
     open_trips (hear_trips mem_world es (RecordTrip 1012 ''t1'' TripOffered 7 (NewAggregator 0))) 1012 ''t1'' = None"
proof -
  obtain m i n' where r: "Run mem_world all_accept DefaultConfig ''t1'' 1012 demo_ranked (demo_node TripRequested DriverAvailable) = (Inr (m, i), n')"
    using demo_run [of TripRequested DriverAvailable] by (metis prod.collapse)
  have v: "CellIsValid mem_world 1012" by (simp add: mem_world_def)
  obtain offered e where es: "trip_events n' = trip_events (demo_node TripRequested DriverAvailable) @ offered @ [e]"
    and e: "about mem_world ''t1'' 1012 (if m then TripMatched else TripUnfulfilled) i e"
    and h: "\<forall>a. open_trips (hear_trips mem_world (offered @ [e]) a) 1012 = (open_trips a 1012)(''t1'' := None)"
    using dispatch_closes_demand [OF mem.text_formats_axioms v r] by auto
  show ?thesis using r es e h
    by (intro exI [of _ m] exI [of _ i] exI [of _ n'] exI [of _ "offered @ [e]"] exI [of _ e]) (simp add: about_def)
qed

end
