(* ===== verification/DispatchCounts.thy ===== *)
theory DispatchCounts
  imports Offers
begin

text \<open>
  What \<open>Run\<close> tells \<open>internal/metrics\<close>: the counters and the histogram of offers per match, against
  the offers it really opened.
\<close>

text \<open>How many offers a step opens, as the published events tell.\<close>

definition opened_by :: "('w node, 'a) io \<Rightarrow> 'w node \<Rightarrow> int" where
  "opened_by m n = int (length (offers_made (snd (m n)))) - int (length (offers_made n))"

text \<open>
  \<open>uncounted j m\<close>: \<open>m\<close> opens \<open>j\<close> offers and reports nothing. \<open>counted k m\<close>: after \<open>k\<close> offers, \<open>m\<close>
  reports its outcome with the number of offers it makes that to be, or nothing when it fails.
\<close>

definition uncounted :: "int \<Rightarrow> ('w node, 'a) io \<Rightarrow> bool" where
  "uncounted j m \<longleftrightarrow> (\<forall>n. metrics (snd (m n)) = metrics n \<and> opened_by m n = j)"

definition counted :: "int \<Rightarrow> ('w node, bool \<times> string) io \<Rightarrow> bool" where
  "counted k m \<longleftrightarrow> (\<forall>n. metrics (snd (m n)) =
     (case fst (m n) of Inl e \<Rightarrow> metrics n | Inr (matched, i) \<Rightarrow> count_outcome matched (k + opened_by m n) (metrics n)))"

lemma opened_by_bind:
  "opened_by (io_bind m f) n = opened_by m n + (case fst (m n) of Inl e \<Rightarrow> 0 | Inr x \<Rightarrow> opened_by (f x) (snd (m n)))"
  by (cases "fst (m n)") (simp_all add: opened_by_def io_bind_ok io_bind_err)

lemma uncounted_bind: "uncounted 0 m \<Longrightarrow> (\<And>x. uncounted 0 (f x)) \<Longrightarrow> uncounted 0 (io_bind m f)"
  unfolding uncounted_def
proof (intro allI)
  fix n assume m: "\<forall>n. metrics (snd (m n)) = metrics n \<and> opened_by m n = 0"
    and f: "\<And>x. \<forall>n. metrics (snd (f x n)) = metrics n \<and> opened_by (f x) n = 0"
  show "metrics (snd (io_bind m f n)) = metrics n \<and> opened_by (io_bind m f) n = 0"
    by (cases "fst (m n)") (simp_all add: opened_by_bind io_bind_ok io_bind_err m f)
qed

lemma counted_after:
  assumes "uncounted j m" "\<And>x. counted (k + j) (f x)"
  shows "counted k (io_bind m f)"
  unfolding counted_def
proof
  fix n
  have m: "metrics (snd (m n)) = metrics n" "opened_by m n = j" using assms(1) by (simp_all add: uncounted_def)
  show "metrics (snd (io_bind m f n)) = (case fst (io_bind m f n) of Inl e \<Rightarrow> metrics n
      | Inr (matched, i) \<Rightarrow> count_outcome matched (k + opened_by (io_bind m f) n) (metrics n))"
  proof (cases "fst (m n)")
    case (Inl e)
    then show ?thesis using m by (simp add: io_bind_err)
  next
    case (Inr x)
    then show ?thesis using m assms(2) [of x, unfolded counted_def, rule_format, of "snd (m n)"]
      by (auto simp: io_bind_ok opened_by_bind add.assoc split: sum.splits)
  qed
qed

lemma counted_if: "(c \<Longrightarrow> counted k a) \<Longrightarrow> (\<not> c \<Longrightarrow> counted k b) \<Longrightarrow> counted k (if c then a else b)"
  by simp

lemma counted_case: "(\<And>e. counted k (f e)) \<Longrightarrow> (\<And>x. counted k (g x)) \<Longrightarrow> counted k (case r of Inl e \<Rightarrow> f e | Inr x \<Rightarrow> g x)"
  by (cases r) auto

lemma counted_fail: "counted k (io_fail e)"
  by (simp add: counted_def)

lemma uncounted_wrap: "uncounted j m \<Longrightarrow> uncounted j (io_wrap s m)"
  by (simp add: uncounted_def opened_by_def)

lemma uncounted_steps:
  "uncounted 0 (on_world w)" "uncounted 0 (io_try (on_world w))" "uncounted 0 (io_return x)" "uncounted 0 (io_fail e)"
  "uncounted 0 (awaitResponse W cfg t)" "uncounted 0 (sleep W d)" "uncounted 0 (publishTrip X t c st i)"
  "uncounted (if st = OfferPending then 1 else 0) (publishOffer X t i rno c st)"
  by (simp_all add: uncounted_def opened_by_def offers_made_def on_world_def awaitResponse_def sleep_def publishTrip_def
      publishOffer_def publish_def Let_def split_beta List.map_filter_def)

lemma uncounted_tolerant: "uncounted 0 (SetState_tolerant X i st msg)"
  unfolding SetState_tolerant_def by (auto intro!: uncounted_bind uncounted_steps split: sum.split)

lemma uncounted_close: "uncounted 0 (close_round X t c i rno resp)"
proof -
  have p: "uncounted 0 (publishOffer X t i rno c st)" if "st \<noteq> OfferPending" for st
    using uncounted_steps(8) [of st X t i rno c] that by simp
  show ?thesis
    unfolding close_round_def
    by (auto intro!: uncounted_bind uncounted_wrap uncounted_steps uncounted_tolerant p simp: offer_states split: sum.split)
qed

lemmas after_silent = counted_after [where j = 0, unfolded add_0_right]

lemma counted_outcome: "counted k (io_bind (recordOutcome matched k) (\<lambda>_. io_return (matched, i)))"
  by (simp add: counted_def opened_by_def offers_made_def io_bind_ok io_return_def)

lemma counted_ends: "counted k (give_up X t c k)" "counted k (accept_round X t c i k)"
proof -
  have p: "uncounted 0 (publishOffer X t i k c OfferAccepted)"
    using uncounted_steps(8) [of OfferAccepted X t i k c] by (simp add: offer_states)
  show "counted k (give_up X t c k)" "counted k (accept_round X t c i k)"
    unfolding give_up_def accept_round_def
    by (intro after_silent counted_outcome uncounted_steps uncounted_wrap uncounted_tolerant p)+
qed

lemma counted_offer_loop: "counted rounds (offer_loop X W cfg t c ids rounds backoff)"
proof (induction ids arbitrary: rounds backoff)
  case Nil
  show ?case by (simp add: counted_ends)
next
  case (Cons i ids)
  have p: "uncounted 1 (publishOffer X t i rno c OfferPending)" for rno
    using uncounted_steps(8) [of OfferPending X t i rno c] by simp
  show ?case
    unfolding offer_loop.simps
    by (intro counted_if counted_case counted_after [OF p] after_silent [OF uncounted_steps(1)] after_silent [OF uncounted_steps(2)]
        after_silent [OF uncounted_wrap [OF uncounted_steps(1)]] after_silent [OF uncounted_steps(5)]
        after_silent [OF uncounted_steps(6)] after_silent [OF uncounted_close] counted_ends counted_fail Cons.IH)
qed

text \<open>
  C29. Metrics: a dispatch that resolves is counted once, as matched or unfulfilled as it returns,
  and its entry in the histogram of offers is the number of offers it published as
  pending; a dispatch that fails is not counted at all, whatever it had opened.
\<close>

theorem dispatch_counted:
  "metrics (snd (Run X W cfg t c cands n)) =
     (case fst (Run X W cfg t c cands n) of
        Inl e \<Rightarrow> metrics n
      | Inr (matched, i) \<Rightarrow> count_outcome matched (opened_by (Run X W cfg t c cands) n) (metrics n))"
proof -
  have "counted 0 (Run X W cfg t c cands)"
    unfolding Run_def Let_def
    by (intro after_silent counted_if counted_fail counted_ends counted_offer_loop uncounted_steps uncounted_wrap)
  then show ?thesis by (simp only: counted_def add_0_left)
qed

end
