(* ===== verification/Rides.thy ===== *)
theory Rides
  imports Handling
begin

text \<open>
  A ride from the request to its driver: creating the trip, the search, the ranking and the
  offers composed as \<open>localHandler.Handle\<close> (\<open>cmd/disco/server.go\<close>) composes them, when nobody else
  acts on the keyspace.
\<close>

section \<open>Searching changes nothing a dispatch depends on\<close>

text \<open>The keyspace is that of \<open>d0\<close>, the sets of the cells apart, from which dead drivers are swept.\<close>

definition off_cells :: "rdb \<Rightarrow> rdb \<Rightarrow> bool" where
  "off_cells d0 d \<longleftrightarrow> (\<forall>k. (\<forall>c. k \<noteq> cell_set_key c) \<longrightarrow> live d k = live d0 k)"

lemma off_cells_refl [simp]: "off_cells d d"
  by (simp add: off_cells_def)

lemma off_cells_hash: "off_cells d0 d \<Longrightarrow> (\<forall>c. k \<noteq> cell_set_key c) \<Longrightarrow> hash_field d k = hash_field d0 k"
  by (intro ext) (simp add: off_cells_def hash_field_def)

lemma off_cells_facts:
  assumes "off_cells d0 d"
  shows "trip_field d t = trip_field d0 t" "driver_state_of d i = driver_state_of d0 i" "trip_at X d t = trip_at X d0 t"
    "trip_typed d0 \<Longrightarrow> trip_typed d" "offer_typed d0 \<Longrightarrow> offer_typed d"
proof -
  have l: "live d k = live d0 k" if "\<forall>c. k \<noteq> cell_set_key c" for k using assms that unfolding off_cells_def by blast
  show f: "trip_field d t = trip_field d0 t" "driver_state_of d i = driver_state_of d0 i"
    using off_cells_hash [OF assms, of "tripKey t"] off_cells_hash [OF assms, of "driverKey i"]
    by (simp_all add: trip_field_def driver_state_of_def)
  show "trip_at X d t = trip_at X d0 t" by (simp add: trip_at_def f)
  show "trip_typed d" if "trip_typed d0" using that by (simp add: trip_typed_def l)
  show "offer_typed d" if "offer_typed d0" using that by (simp add: offer_typed_def l)
qed

context quiet_redis
begin

lemma framed_lookup:
  "driver_lookup (DriversInCell X) (GetDrivers X) (\<lambda>w. drv_parsed X (db X w) \<and> off_cells d0 (db X w))
     (\<lambda>w. live_members X (db X w)) (\<lambda>w. record_of X (db X w))"
proof
  note L = driver_lookup.in_cell_reports [OF quiet_driver_lookup [OF quiet_redis_axioms]]
    driver_lookup.in_cell_keeps [OF quiet_driver_lookup [OF quiet_redis_axioms]]
    driver_lookup.get_many_reports [OF quiet_driver_lookup [OF quiet_redis_axioms]]
    driver_lookup.get_many_keeps [OF quiet_driver_lookup [OF quiet_redis_axioms]]
  fix w c ids
  assume g: "drv_parsed X (db X w) \<and> off_cells d0 (db X w)"
  then have t: "drv_typed (db X w)" by (simp add: drv_parsed_def)
  have "off_cells d0 (db X (snd (DriversInCell X c w)))"
    using DriversInCell_quiet(2) [OF t, of c] g by (auto simp: off_cells_def effect_frame cellKey_def)
  then show "(drv_parsed X (db X (snd (DriversInCell X c w))) \<and> off_cells d0 (db X (snd (DriversInCell X c w)))) \<and>
      live_members X (db X (snd (DriversInCell X c w))) = live_members X (db X w) \<and>
      record_of X (db X (snd (DriversInCell X c w))) = record_of X (db X w)"
    using L(2) g by blast
  have "db X (snd (GetDrivers X ids w)) = db X w"
    using GetDrivers_replies(2) [OF t] by (cases "ids = []") (simp_all add: GetDrivers_def)
  then show "(drv_parsed X (db X (snd (GetDrivers X ids w))) \<and> off_cells d0 (db X (snd (GetDrivers X ids w)))) \<and>
      live_members X (db X (snd (GetDrivers X ids w))) = live_members X (db X w) \<and>
      record_of X (db X (snd (GetDrivers X ids w))) = record_of X (db X w)"
    using g by simp
  show "\<exists>ids. fst (DriversInCell X c w) = Inr ids \<and> distinct ids \<and> set ids = live_members X (db X w) c"
    "fst (GetDrivers X ids w) = Inr (\<lambda>i. if i \<in> set ids then record_of X (db X w) i else None)"
    using L(1,3) g by blast+
qed

text \<open>The search, its disk described by the keyspace at the start; nothing else changes.\<close>

lemma search_run:
  assumes "drv_parsed X (db X w)" and "\<forall>k. 0 \<le> k \<longrightarrow> k \<le> MaxK cfg \<longrightarrow> KRing X origin k = Inr (disk k)" "0 \<le> MaxK cfg"
  obtains k cands w' where "0 \<le> k" "k \<le> MaxK cfg"
    "FindCandidates X (DriversInCell X) (GetDrivers X) origin cfg w = (Inr cands, w')" "off_cells (db X w) (db X w')"
    "drv_parsed X (db X w')" "set cands = available_in X (db X w) (\<Union>j \<in> {0..k}. set (disk j))"
    "k < MaxK cfg \<longrightarrow> MinCandidates cfg \<le> int (length cands)"
proof -
  note L = framed_lookup [of "db X w"]
  have sup: "driver_lookup.supplied (\<lambda>w. live_members X (db X w)) (\<lambda>w. record_of X (db X w)) w C = available_in X (db X w) C" for C
    by (auto simp: driver_lookup.supplied_def [OF L] available_in_def live_members_def)
  have g: "drv_parsed X (db X w) \<and> off_cells (db X w) (db X w)" using assms(1) by simp
  show thesis
    by (rule driver_lookup.FindCandidates_run [where w = w and cfg = cfg and origin = origin and X = X and disk = disk, OF L g assms(3,2)])
      (rule that, assumption+, (simp add: driver_lookup.same_supply_def [OF L] sup)+)
qed

end

lemma available_in_known:
  assumes "r \<in> available_in X d C"
  shows "driver_state_of d (DriverID r) = Some DriverAvailable"
proof -
  obtain i where r: "driver_at X d i = Inr r" "dr_State r = DriverAvailable"
    using assms by (auto simp: available_in_def record_of_def split: sum.splits) (metis sum.exhaust)
  then have "DriverID r = i" "dr_State r = field (hash_field d (driverKey i)) ''state''"
    by (auto simp: driver_at_def parseDriverRecord_def Let_def split: if_splits sum.splits)
  then show ?thesis
    using r(2) by (auto simp: driver_state_of_def field_def driver_states split: option.splits)
qed

section \<open>The dispatch of a new trip\<close>

text \<open>The search parameters, the estimates and the answers a dispatch can count on.\<close>

definition search_works :: "'w ext \<Rightarrow> 'w localHandler \<Rightarrow> f64 \<Rightarrow> f64 \<Rightarrow> cell \<Rightarrow> (int \<Rightarrow> cell list) \<Rightarrow> bool" where
  "search_works X h lat lng origin disk \<longleftrightarrow> CellFor X lat lng (lh_Resolution h) = Inr origin \<and>
     (\<forall>k. 0 \<le> k \<longrightarrow> k \<le> MaxK DefaultSearchConfig \<longrightarrow> KRing X origin k = Inr (disk k)) \<and>
     (\<forall>d. \<exists>eta. eta_of (lh_Estimator h) \<lparr>Lat = lat, Lng = lng\<rparr> d = Inr eta \<and> in_i64 eta)"

text \<open>The candidates in the order in which they are asked.\<close>

definition ranking :: "RankedCandidate list \<Rightarrow> bool" where
  "ranking rs \<longleftrightarrow> sorted_wrt (\<lambda>a b. f_lt (rc_Score a) (rc_Score b) \<or>
     rc_Score a = rc_Score b \<and> DriverID (rc_Driver a) \<le> DriverID (rc_Driver b)) rs"

definition ask_in_turn :: "int \<Rightarrow> (string \<Rightarrow> Response) \<Rightarrow> RankedCandidate list \<Rightarrow> string option" where
  "ask_in_turn rounds ans rs = find (\<lambda>i. ans i = Accepted) (take (nat rounds) (map (DriverID \<circ> rc_Driver) rs))"

lemma rank_run:
  assumes "\<forall>d. \<exists>eta. eta_of est rider d = Inr eta \<and> in_i64 eta"
  obtains rs where "Rank est rider cands DefaultRankConfig now = Inr rs" "ranking rs"
    "mset rs = mset (map (entry_of est rider DefaultRankConfig now) cands)"
proof -
  let ?en = "entry_of est rider DefaultRankConfig now"
  have score: "rc_Score (?en d) \<noteq> NaN" for d
  proof -
    obtain eta where e: "eta_of est rider d = Inr eta" "in_i64 eta" using assms by blast
    show ?thesis using rank_score_number [OF e(2), of DefaultRankConfig 1 now d] by (simp add: entry_of_def e(1) DefaultRankConfig_def)
  qed
  then have "rankable est rider DefaultRankConfig now cands" using assms by (auto simp: rankable_def)
  from Rank_sort [OF this] rank_sorted [of "map ?en cands"] score show thesis
    by (intro that [of "sort_key rank_key (map ?en cands)"]) (simp_all add: ranking_def)
qed

text \<open>The outcome of asking them: the response, and the keyspace behind it.\<close>

definition first_asked :: "'w localHandler \<Rightarrow> string \<Rightarrow> (string \<rightharpoonup> driver_state) \<Rightarrow> (string \<Rightarrow> Response) \<Rightarrow>
    RankedCandidate list \<Rightarrow> DispatchResponse \<Rightarrow> rdb \<Rightarrow> bool" where
  "first_asked h t \<sigma> ans rs resp d \<longleftrightarrow> dp_TripId resp = t \<and> says d resp \<and>
     (case ask_in_turn (MaxRounds (lh_Cfg h)) ans rs of
        Some i \<Rightarrow> dp_Matched resp \<and> dp_DriverId resp = i \<and> dp_State resp = TripMatched \<and> driver_state_of d = \<sigma>(i \<mapsto> DriverEnRoute)
      | None \<Rightarrow> \<not> dp_Matched resp \<and> dp_State resp = TripUnfulfilled \<and> driver_state_of d = \<sigma>)"

definition answers_with :: "'w ext \<Rightarrow> 'w waits \<Rightarrow> string \<Rightarrow> (string \<Rightarrow> Response) \<Rightarrow> bool" where
  "answers_with X W t ans \<longleftrightarrow> (\<forall>win w rec. offer_at (db X w) t = Inr rec \<and> or_State rec = OfferPending \<longrightarrow>
     heard_answer t (fst (arrivals W t win w)) = ans (or_DriverID rec))"

context quiet_store
begin

lemma offers_run:
  assumes "calm X (lh_Waits h)" "answers_with X (lh_Waits h) t ans"
    and "0 < OfferWindow (lh_Cfg h) + offerRecordGrace" "in_i64 (MaxRounds (lh_Cfg h))"
    and "dispatch_typed (db X (world n))" "trip_at X (db X (world n)) t = Inr trip" "tr_State trip = TripRequested"
    and av: "\<forall>r \<in> set rs. driver_state_of (db X (world n)) (DriverID (rc_Driver r)) = Some DriverAvailable"
  obtains x n1 final n' where "Run X (lh_Waits h) (lh_Cfg h) t c rs n = (Inr x, n1)"
    "GetTrip X t (world n1) = (Inr final, n')"
    "first_asked h t (driver_state_of (db X (world n))) ans rs (tripToResponse final) (db X n')"
proof -
  let ?\<sigma> = "driver_state_of (db X (world n))" and ?ids = "map (DriverID \<circ> rc_Driver) rs"
  have A: "answering X (lh_Waits h) t (\<lambda>i r. r = ans i)" using assms(2) by (simp add: answering_def answers_with_def)
  have all: "filter (\<lambda>i. ?\<sigma> i = Some DriverAvailable) ?ids = ?ids" using av by (auto simp: filter_id_conv)
  let ?x = "case ask_in_turn (MaxRounds (lh_Cfg h)) ans rs of Some i \<Rightarrow> (True, i) | None \<Rightarrow> (False, '''')"
  have "settled X t ?\<sigma> {?x} (fst (Run X (lh_Waits h) (lh_Cfg h) t c rs n)) (snd (Run X (lh_Waits h) (lh_Cfg h) t c rs n))"
    using Run_settles [OF assms(1) A assms(3-6), of rs c] assms(7) av unfolding results_first all ask_in_turn_def by auto
  then obtain n1 where run: "Run X (lh_Waits h) (lh_Cfg h) t c rs n = (Inr ?x, n1)"
    and st: "stands X t (if fst ?x then TripMatched else TripUnfulfilled) (won ?x ?\<sigma>) n1"
    by (cases "Run X (lh_Waits h) (lh_Cfg h) t c rs n") (auto simp: settled_def)
  obtain final where final: "trip_at X (db X (world n1)) t = Inr final" using st by (auto simp: stands_def)
  have "trip_typed (db X (world n1))" using st by (simp add: stands_def dispatch_typed_def)
  from GetTrip_quiet [OF this, of t] have get: "GetTrip X t (world n1) = (Inr final, snd (GetTrip X t (world n1)))"
    and d: "db X (snd (GetTrip X t (world n1))) = db X (world n1)"
    using final by (auto intro: prod_eqI)
  have ts: "tr_State final = (if fst ?x then TripMatched else TripUnfulfilled)"
    using trip_at_state [OF final] st by (auto simp: stands_def)
  have who: "MatchedDriverID final = i" if "?x = (True, i)" for i
  proof -
    have "env_keeps (trip_unfulfilled t)" "\<And>i. env_keeps (trip_matched_with t i)" by (simp_all add: env_keeps_def)
    from Run_ends [OF this, of "lh_Waits h" "lh_Cfg h" c rs] have "outcome X t ?ids ?x n1" using run unfolding ends_def by blast
    then show ?thesis using trip_at_facts(3) [OF final] by (simp add: that outcome_def trip_matched_with_def field_def)
  qed
  have "first_asked h t ?\<sigma> ans rs (tripToResponse final) (db X (world n1))"
    using trip_says(1) [OF final] trip_at_facts(1) [OF final] ts who st
    by (auto simp: first_asked_def tripToResponse_def stands_def trip_states split: option.splits)
  then show thesis using that [OF run get] d by simp
qed

end

context quiet_store
begin

lemma dispatch_finds:
  assumes "calm X (lh_Waits h)" "answers_with X (lh_Waits h) (TripID trip) ans"
    and "0 < OfferWindow (lh_Cfg h) + offerRecordGrace" "in_i64 (MaxRounds (lh_Cfg h))"
    and "dispatch_typed (db X (world n))" "drv_parsed X (db X (world n))"
    and "trip_at X (db X (world n)) (TripID trip) = Inr trip" "tr_State trip = TripRequested"
    and works: "search_works X h (OriginLat trip) (OriginLng trip) origin disk"
  obtains k rs resp n' where "0 \<le> k" "k \<le> MaxK DefaultSearchConfig" "dispatch_trip X h trip n = (Inr resp, n')" "ranking rs"
    "rc_Driver ` set rs = available_in X (db X (world n)) (\<Union>j \<in> {0..k}. set (disk j))"
    "k < MaxK DefaultSearchConfig \<longrightarrow> MinCandidates DefaultSearchConfig \<le> int (length rs)"
    "first_asked h (TripID trip) (driver_state_of (db X (world n))) ans rs resp (db X (world n'))"
proof -
  let ?t = "TripID trip" and ?est = "lh_Estimator h" and ?rider = "\<lparr>Lat = OriginLat trip, Lng = OriginLng trip\<rparr>"
  have k4: "0 \<le> MaxK DefaultSearchConfig" by (simp add: DefaultSearchConfig_def)
  have rings: "\<forall>k. 0 \<le> k \<longrightarrow> k \<le> MaxK DefaultSearchConfig \<longrightarrow> KRing X origin k = Inr (disk k)"
    using works unfolding search_works_def by blast
  obtain k cands w' where k: "0 \<le> k" "k \<le> MaxK DefaultSearchConfig"
    and find: "FindCandidates X (DriversInCell X) (GetDrivers X) origin DefaultSearchConfig (world n) = (Inr cands, w')"
    and off: "off_cells (db X (world n)) (db X w')" "drv_parsed X (db X w')"
    and cands: "set cands = available_in X (db X (world n)) (\<Union>j \<in> {0..k}. set (disk j))"
      "k < MaxK DefaultSearchConfig \<longrightarrow> MinCandidates DefaultSearchConfig \<le> int (length cands)"
    by (rule search_run [OF assms(6) rings k4])
  note same = off_cells_facts [OF off(1)]
  have states: "driver_state_of (db X w') = driver_state_of (db X (world n))" by (intro ext) (rule same(2))
  have "\<forall>d. \<exists>eta. eta_of ?est ?rider d = Inr eta \<and> in_i64 eta" using works unfolding search_works_def by blast
  then obtain rs where rank: "Rank ?est ?rider cands DefaultRankConfig (wall X w') = Inr rs" "ranking rs"
    and rs: "mset rs = mset (map (entry_of ?est ?rider DefaultRankConfig (wall X w')) cands)"
    by (rule rank_run)
  have drv: "rc_Driver (entry_of e r c now d) = d" for e r c now d by (simp add: entry_of_def Let_def)
  have set: "rc_Driver ` set rs = set cands" and len: "length rs = length cands"
    using mset_eq_setD [OF rs] mset_eq_length [OF rs] by (auto simp: image_image drv)
  let ?n2 = "n\<lparr>world := w'\<rparr>"
  have av: "\<forall>r \<in> set rs. driver_state_of (db X (world ?n2)) (DriverID (rc_Driver r)) = Some DriverAvailable"
    using available_in_known set cands(1) same(2) by fastforce
  have ty: "dispatch_typed (db X (world ?n2))" "trip_at X (db X (world ?n2)) ?t = Inr trip"
    using assms(5,7) same(4,5) off(2) by (simp_all add: same(3) dispatch_typed_def drv_parsed_def)
  obtain x n1 final n' where run: "Run X (lh_Waits h) (lh_Cfg h) ?t origin rs ?n2 = (Inr x, n1)"
    "GetTrip X ?t (world n1) = (Inr final, n')"
    and res: "first_asked h ?t (driver_state_of (db X (world ?n2))) ans rs (tripToResponse final) (db X n')"
    by (rule offers_run [OF assms(1-4) ty assms(8) av])
  have cell: "CellFor X (OriginLat trip) (OriginLng trip) (lh_Resolution h) = Inr origin"
    using works by (simp add: search_works_def)
  have "on_world (FindCandidates X (DriversInCell X) (GetDrivers X) origin DefaultSearchConfig) n = (Inr cands, ?n2)"
    "on_world (GetTrip X ?t) n1 = (Inr final, n1\<lparr>world := n'\<rparr>)"
    using find run(2) by (simp_all add: on_world_ok)
  then have d: "dispatch_trip X h trip n = (Inr (tripToResponse final), n1\<lparr>world := n'\<rparr>)"
    using rank(1) run(1) by (simp add: dispatch_trip_def cell io_bind_def)
  show thesis
    using that [OF k d rank(2)] set len cands res states by simp
qed

end

text \<open>Creating the trip changes nothing the search looks at.\<close>

lemma new_trip_frame:
  assumes "dispatch_typed d" "drv_parsed X d"
  shows "dispatch_typed (put_new_trip t rider a b k c d)" "drv_parsed X (put_new_trip t rider a b k c d)"
    "driver_state_of (put_new_trip t rider a b k c d) = driver_state_of d"
    "available_in X (put_new_trip t rider a b k c d) C = available_in X d C"
proof -
  let ?d = "put_new_trip t rider a b k c d"
  have l: "live ?d (driverKey i) = live d (driverKey i)" "live ?d (cell_set_key cs) = live d (cell_set_key cs)" for i cs
    by (simp_all add: put_new_trip_def put_trip_def effect_frame)
  have f: "driver_at X ?d i = driver_at X d i" "alive ?d i = alive d i" for i
    using driver_at_frame [OF l(1)] by blast+
  have dt: "drv_typed ?d" using assms(2) by (simp add: drv_parsed_def drv_typed_def l)
  have ot: "offer_typed ?d" using assms(1) by (simp add: dispatch_typed_def put_new_trip_def put_trip_def offer_typed_frame)
  show "dispatch_typed ?d"
    using assms(1) dt ot put_new_trip_facts(1) [of d t rider a b k c] by (simp add: dispatch_typed_def)
  show "drv_parsed X ?d" using assms(2) dt by (simp add: drv_parsed_def f)
  show "driver_state_of ?d = driver_state_of d" by (intro ext) (simp add: driver_state_of_def hash_field_def l)
  show "available_in X ?d C = available_in X d C" by (simp add: available_in_def record_of_def members_def f l)
qed

section \<open>The ride\<close>

text \<open>
  C2. A new request finds its driver: in a calm world, with an unused idempotency key, the
  request creates a trip, searches the disk of some radius \<open>k\<close>, which is the largest allowed or
  holds enough candidates, and ranks exactly the available drivers there. The response names the new
  trip and agrees with its stored record: the first of the \<open>MaxRounds\<close> best ranked drivers whose answer is to accept
  is matched and \<open>EN_ROUTE\<close>; if none of them accepts the trip is \<open>UNFULFILLED\<close>. No other driver's state changes.
\<close>

theorem request_finds_driver:
  assumes "quiet_store X" and "calm X (lh_Waits h)"
    and "0 < OfferWindow (lh_Cfg h) + offerRecordGrace \<and> in_i64 (MaxRounds (lh_Cfg h))"
    and "dispatch_typed (db X (world n)) \<and> drv_parsed X (db X (world n))"
    and "str_at (db X (world n)) (idemKey (dq_IdempotencyKey req)) = None"
    and "trip_field (db X (world n)) (fst (uuid X (world n))) = Map.empty"
    and "is_f64 (dq_OriginLat req) \<and> is_f64 (dq_OriginLng req)"
    and "search_works X h (dq_OriginLat req) (dq_OriginLng req) origin disk"
    and "answers_with X (lh_Waits h) (fst (uuid X (world n))) ans"
  shows "\<exists>k rs resp n'. let t = fst (uuid X (world n)); d = db X (world n); d' = db X (world n') in
    Handle X h ticks req n = (Inr resp, n') \<and> dp_TripId resp = t \<and> says d' resp \<and>
    0 \<le> k \<and> k \<le> MaxK DefaultSearchConfig \<and>
    (k < MaxK DefaultSearchConfig \<longrightarrow> MinCandidates DefaultSearchConfig \<le> int (length rs)) \<and>
    rc_Driver ` set rs = available_in X d (\<Union>j \<in> {0..k}. set (disk j)) \<and> ranking rs \<and>
    (case ask_in_turn (MaxRounds (lh_Cfg h)) ans rs of
       Some i \<Rightarrow> dp_Matched resp \<and> dp_DriverId resp = i \<and> dp_State resp = TripMatched \<and>
         driver_state_of d' = (driver_state_of d)(i \<mapsto> DriverEnRoute)
     | None \<Rightarrow> \<not> dp_Matched resp \<and> dp_State resp = TripUnfulfilled \<and> driver_state_of d' = driver_state_of d)"
proof -
  have q: "quiet_redis X" using assms(1) by (simp add: quiet_store_def)
  let ?d = "db X (world n)" and ?t = "fst (uuid X (world n))"
  let ?c = "CreateTrip X (dq_RiderId req) (dq_OriginLat req) (dq_OriginLng req) (dq_IdempotencyKey req)"
  have tt: "trip_typed ?d" using assms(4) by (simp add: dispatch_typed_def)
  obtain created where rd: "fst (?c (world n)) = trip_at X (db X (snd (?c (world n)))) ?t"
    and d: "db X (snd (?c (world n))) =
      put_new_trip ?t (dq_RiderId req) (fmt_f64 X (dq_OriginLat req)) (fmt_f64 X (dq_OriginLng req)) (dq_IdempotencyKey req) created ?d"
    using quiet_redis.CreateTrip_quiet [OF q tt, of "dq_RiderId req" "dq_OriginLat req" "dq_OriginLng req" "dq_IdempotencyKey req" thesis]
      assms(5) by auto
  obtain trip w1 where c: "?c (world n) = (Inr trip, w1)" "TripID trip = ?t" "tr_State trip = TripRequested"
    and o: "OriginLat trip = dq_OriginLat req" "OriginLng trip = dq_OriginLng req"
    using CreateTrip_creates [OF assms(1) tt assms(5-7), of "dq_RiderId req"] by blast
  let ?n1 = "n\<lparr>world := w1\<rparr>"
  note frame = new_trip_frame [of ?d X ?t "dq_RiderId req" "fmt_f64 X (dq_OriginLat req)" "fmt_f64 X (dq_OriginLng req)"
      "dq_IdempotencyKey req" created, folded d, unfolded c(1) snd_conv]
  have f: "dispatch_typed (db X (world ?n1))" "drv_parsed X (db X (world ?n1))"
    "driver_state_of (db X (world ?n1)) = driver_state_of ?d" "available_in X (db X (world ?n1)) C = available_in X ?d C" for C
    using frame assms(4) by simp_all
  have trip: "trip_at X (db X (world ?n1)) (TripID trip) = Inr trip" using rd c(1,2) by simp
  obtain k rs resp n' where disp: "0 \<le> k" "k \<le> MaxK DefaultSearchConfig" "dispatch_trip X h trip ?n1 = (Inr resp, n')" "ranking rs"
    "rc_Driver ` set rs = available_in X (db X (world ?n1)) (\<Union>j \<in> {0..k}. set (disk j))"
    "k < MaxK DefaultSearchConfig \<longrightarrow> MinCandidates DefaultSearchConfig \<le> int (length rs)"
    and res: "first_asked h (TripID trip) (driver_state_of (db X (world ?n1))) ans rs resp (db X (world n'))"
    by (rule quiet_store.dispatch_finds [OF assms(1,2) assms(9) [folded c(2)] assms(3) [THEN conjunct1] assms(3) [THEN conjunct2]
        f(1,2) trip c(3) assms(8) [folded o]])
  have "on_world ?c n = (Inr trip, ?n1)" using c(1) by (simp add: on_world_ok)
  then have "Handle X h ticks req n = (Inr resp, n')"
    using disp(3) c(3) by (simp add: Handle_def io_bind_def trip_states)
  then show ?thesis
    using disp(1,2,4-6) res unfolding first_asked_def f c(2) Let_def
    by (intro exI [of _ k] exI [of _ rs] exI [of _ resp] exI [of _ n']) simp
qed

definition demo_rider_node :: "rdb node" where
  "demo_rider_node = \<lparr>world = demo_driver ''d1'' DriverAvailable, hub = NewResponseHub, published = [], metrics = no_metrics\<rparr>"

lemma demo_rider:
  "dispatch_typed (demo_driver ''d1'' DriverAvailable) \<and> drv_parsed mem_world (demo_driver ''d1'' DriverAvailable)"
  "str_at (demo_driver ''d1'' DriverAvailable) (idemKey k) = None"
  "trip_field (demo_driver ''d1'' DriverAvailable) t = Map.empty"
proof -
  let ?d = "demo_driver ''d1'' DriverAvailable"
  show "dispatch_typed ?d \<and> drv_parsed mem_world ?d"
    using demo_driver_parsed [of "''d1''" DriverAvailable]
    by (simp add: dispatch_typed_def drv_parsed_def trip_typed_def offer_typed_def)
  show "str_at ?d (idemKey k) = None" by (simp add: str_at_def)
  show "trip_field ?d t = Map.empty" by (intro ext) (simp add: trip_field_def hash_field_def)
qed

definition demo_disk :: "int \<Rightarrow> cell list" where
  "demo_disk k = map (\<lambda>i. 1012 + of_int i) (0 # concat (map (\<lambda>i. [i, - i]) [1 .. k]))"

lemma demo_search: "search_works mem_world demo_handler (Fin 12) (Fin 77) 1012 demo_disk"
proof -
  have "CellFor mem_world (Fin 12) (Fin 77) (lh_Resolution demo_handler) = Inr 1012"
    using demo_cell by (simp add: demo_deployment_def)
  moreover have "\<forall>k. 0 \<le> k \<longrightarrow> k \<le> MaxK DefaultSearchConfig \<longrightarrow> KRing mem_world 1012 k = Inr (demo_disk k)"
    by (simp add: KRing_def mem_world_def mem_disk_def demo_disk_def)
  moreover have "\<forall>d. \<exists>eta. eta_of (lh_Estimator demo_handler) \<lparr>Lat = Fin 12, Lng = Fin 77\<rparr> d = Inr eta \<and> in_i64 eta"
    by (simp add: eta_of_def demo_handler_def in_i64_def)
  ultimately show ?thesis unfolding search_works_def by blast
qed

theorem request_finds_driver_witness:
  "\<exists>resp n'. Handle mem_world demo_handler 5 demo_request demo_rider_node = (Inr resp, n') \<and>
     dp_Matched resp \<and> dp_DriverId resp = ''d1'' \<and> driver_state_of (world n') ''d1'' = Some DriverEnRoute"
proof -
  let ?n = demo_rider_node and ?t = "fst (uuid mem_world (world demo_rider_node))"
  have d: "db mem_world w = w" for w by (simp add: mem_world_def)
  have w: "world ?n = demo_driver ''d1'' DriverAvailable" by (simp add: demo_rider_node_def)
  have calm: "calm mem_world (lh_Waits demo_handler)" by (simp add: demo_handler_def)
  have cfg: "0 < OfferWindow (lh_Cfg demo_handler) + offerRecordGrace \<and> in_i64 (MaxRounds (lh_Cfg demo_handler))"
    by (simp add: demo_handler_def DefaultConfig_def offerRecordGrace_def second_def in_i64_def)
  have fl: "is_f64 (dq_OriginLat demo_request) \<and> is_f64 (dq_OriginLng demo_request)"
    using rnd_int [of 12] rnd_int [of 77] by (simp add: is_f64_def demo_request_def)
  have search: "search_works mem_world demo_handler (dq_OriginLat demo_request) (dq_OriginLng demo_request) 1012 demo_disk"
    using demo_search by (simp add: demo_request_def)
  have ans: "answers_with mem_world (lh_Waits demo_handler) ?t (\<lambda>i. Accepted)"
    by (simp add: answers_with_def demo_handler_def all_accept_def heard_answer_def)
  have typed: "dispatch_typed (db mem_world (world ?n)) \<and> drv_parsed mem_world (db mem_world (world ?n))"
    "str_at (db mem_world (world ?n)) (idemKey (dq_IdempotencyKey demo_request)) = None"
    "trip_field (db mem_world (world ?n)) ?t = Map.empty"
    unfolding d w by (rule demo_rider)+
  obtain k rs resp n' where H: "Handle mem_world demo_handler 5 demo_request ?n = (Inr resp, n')" and k: "0 \<le> k"
    and rs: "rc_Driver ` set rs = available_in mem_world (db mem_world (world ?n)) (\<Union>j \<in> {0..k}. set (demo_disk j))"
    and res: "case ask_in_turn (MaxRounds (lh_Cfg demo_handler)) (\<lambda>i. Accepted) rs of
       Some i \<Rightarrow> dp_Matched resp \<and> dp_DriverId resp = i \<and> dp_State resp = TripMatched \<and>
         driver_state_of (db mem_world (world n')) = (driver_state_of (db mem_world (world ?n)))(i \<mapsto> DriverEnRoute)
     | None \<Rightarrow> \<not> dp_Matched resp \<and> dp_State resp = TripUnfulfilled \<and>
         driver_state_of (db mem_world (world n')) = driver_state_of (db mem_world (world ?n))"
    using request_finds_driver [OF mem.quiet_store_axioms calm cfg typed fl search ans, of 5] unfolding Let_def by blast
  have "1012 \<in> (\<Union>j \<in> {0..k}. set (demo_disk j))" using k by (auto simp: demo_disk_def intro!: bexI [of _ 0])
  then have "rc_Driver ` set rs = {demo_record ''d1'' DriverAvailable}" using rs demo_available unfolding d w by simp
  then obtain r rs' where "rs = r # rs'" "rc_Driver r = demo_record ''d1'' DriverAvailable" by (cases rs) auto
  then have "ask_in_turn (MaxRounds (lh_Cfg demo_handler)) (\<lambda>i. Accepted) rs = Some ''d1''"
    by (simp add: ask_in_turn_def demo_handler_def DefaultConfig_def demo_record_def take_Cons')
  then show ?thesis using H res by (auto simp: d)
qed

end
