(* ===== verification/LoadRun.thy ===== *)
theory LoadRun
  imports LoadGen Settings
begin

text \<open>
  \<open>cmd/loadgen\<close> as processes: the loop of a simulated driver with the goroutine that answers
  an offer, and what the riders' goroutines count for the report. \<open>rand\<close>, \<open>flag\<close> and the
  clock are the standard library's: their values are parameters.
\<close>

section \<open>A run's settings and names\<close>

record load_options =
  numDrivers :: int
  riderRate :: f64
  duration :: int
  opt_acceptProb :: f64
  opt_acceptDelay :: int
  pingInterval :: int
  opt_redisAddr :: string

definition default_options :: "environment \<Rightarrow> load_options" where
  "default_options Getenv = \<lparr>numDrivers = 1000, riderRate = Fin 20, duration = 30 * second, opt_acceptProb = rnd (85 / 100),
     opt_acceptDelay = 2 * second, pingInterval = 3 * second, opt_redisAddr = envOr Getenv ''REDIS_ADDR'' ''127.0.0.1:6379''\<rparr>"

text \<open>How long the riders' context lasts.\<close>

definition rider_timeout :: "load_options \<Rightarrow> int" where
  "rider_timeout opts = (let trailingBuffer = OfferWindow DefaultConfig * MaxRounds DefaultConfig + 30 * second
     in duration opts + trailingBuffer)"

definition driver_name :: "int \<Rightarrow> int \<Rightarrow> string" where
  "driver_name runID i = ''loadgen-'' @ itoa runID @ ''-driver-'' @ itoa i"

definition rider_name :: "int \<Rightarrow> int \<Rightarrow> string" where
  "rider_name runID n = ''loadgen-'' @ itoa runID @ ''-rider-'' @ itoa n"

text \<open>\<open>rand.Int64\<close> is never negative, so neither is a run's number.\<close>

lemma digit_no_dash: "d < 10 \<Longrightarrow> digit_char d \<noteq> CHR ''-''"
proof
  assume "d < 10" "digit_char d = CHR ''-''"
  then have "of_char (digit_char d) = (of_char CHR ''-'' :: nat)" by simp
  with \<open>d < 10\<close> show False by (simp add: digit_char_def)
qed

lemma nat_str_dash: "CHR ''-'' \<notin> set (nat_str n)"
proof (induction n rule: nat_str.induct)
  case (1 n)
  then show ?case using digit_no_dash [of n] digit_no_dash [of "n mod 10"] by (subst nat_str.simps) auto
qed

lemma itoa_inj:
  assumes "itoa m = itoa n" "0 \<le> m" "0 \<le> n"
  shows "m = n"
  using nat_str_inj [of "nat m" "nat n"] assms by (simp add: itoa_def)

lemma split_at_dash:
  assumes "CHR ''-'' \<notin> set a" "CHR ''-'' \<notin> set b" "a @ CHR ''-'' # x = b @ CHR ''-'' # y"
  shows "a = b \<and> x = y"
  using assms
proof (induction a arbitrary: b)
  case Nil
  then show ?case by (cases b) auto
next
  case (Cons c a)
  then show ?case by (cases b) auto
qed

text \<open>Names of drivers and riders never collide, within a run or between runs.\<close>

lemma load_names_distinct:
  assumes "0 \<le> r" "0 \<le> r'" "0 \<le> i" "0 \<le> j"
  shows "driver_name r i = driver_name r' j \<longleftrightarrow> r = r' \<and> i = j" "rider_name r i = rider_name r' j \<longleftrightarrow> r = r' \<and> i = j"
    "driver_name r i \<noteq> rider_name r' j"
proof -
  have d: "CHR ''-'' \<notin> set (itoa n)" if "0 \<le> n" for n using that nat_str_dash by (simp add: itoa_def)
  have s: "r = r' \<and> x = y" if "itoa r @ CHR ''-'' # x = itoa r' @ CHR ''-'' # y" for x y
    using split_at_dash [OF d d that] itoa_inj assms by blast
  show "driver_name r i = driver_name r' j \<longleftrightarrow> r = r' \<and> i = j"
    using s [of "''driver-'' @ itoa i" "''driver-'' @ itoa j"] itoa_inj [of i j] assms by (auto simp: driver_name_def)
  show "rider_name r i = rider_name r' j \<longleftrightarrow> r = r' \<and> i = j"
    using s [of "''rider-'' @ itoa i" "''rider-'' @ itoa j"] itoa_inj [of i j] assms by (auto simp: rider_name_def)
  show "driver_name r i \<noteq> rider_name r' j"
    using s [of "''driver-'' @ itoa i" "''rider-'' @ itoa j"] by (auto simp: driver_name_def rider_name_def)
qed

section \<open>A driver's loop\<close>

text \<open>
  The state of \<open>runDriver\<close>: where it is, the atomic flag \<open>responding\<close>, the offer its goroutine
  is waiting to answer, and whether the loop still runs.
\<close>

record driver_loop =
  dr_pos :: "f64 \<times> f64"
  dr_responding :: bool
  dr_answering :: "string option"
  dr_running :: bool

definition driver_start :: "f64 \<Rightarrow> f64 \<Rightarrow> driver_loop" where
  "driver_start r1 r2 = \<lparr>dr_pos = randPoint r1 r2, dr_responding = False, dr_answering = None, dr_running = True\<rparr>"

datatype driver_label = Pinged "f64 \<times> f64" | Polled "string option" | Answered string Response bool | GaveUp string | Stopped

inductive driver_step :: "'w ext \<Rightarrow> string \<Rightarrow> f64 \<Rightarrow> bool \<Rightarrow> driver_loop \<times> 'w node \<Rightarrow> driver_label \<Rightarrow> driver_loop \<times> 'w node \<Rightarrow> bool"
  for X driverID acceptProb cancelled where
  driver_stop: "dr_running s \<Longrightarrow> cancelled \<Longrightarrow>
    driver_step X driverID acceptProb cancelled (s, n) Stopped (s\<lparr>dr_running := False\<rparr>, n)"
| driver_ping: "dr_running s \<Longrightarrow> 0 \<le> r1 \<Longrightarrow> r1 < 1 \<Longrightarrow> 0 \<le> r2 \<Longrightarrow> r2 < 1 \<Longrightarrow>
    ping_turn X driverID (Fin r1) (Fin r2) (dr_pos s) = (m, pos) \<Longrightarrow>
    driver_step X driverID acceptProb cancelled (s, n) (Pinged pos) (s\<lparr>dr_pos := pos\<rparr>, n\<lparr>world := snd (m (world n))\<rparr>)"
| driver_poll: "dr_running s \<Longrightarrow> poll_turn X driverID (dr_responding s) (world n) = (found, busy, w) \<Longrightarrow>
    driver_step X driverID acceptProb cancelled (s, n) (Polled found)
      (s\<lparr>dr_responding := busy, dr_answering := (if found = None then dr_answering s else found)\<rparr>, n\<lparr>world := w\<rparr>)"
| driver_answer: "dr_answering s = Some t \<Longrightarrow> 0 \<le> r \<Longrightarrow> r < 1 \<Longrightarrow>
    driver_step X driverID acceptProb cancelled (s, n)
      (Answered t (if f_lt (Fin r) acceptProb then Accepted else Declined)
         (fst (Respond t (if f_lt (Fin r) acceptProb then Accepted else Declined) (hub n))))
      (s\<lparr>dr_responding := False, dr_answering := None\<rparr>, n\<lparr>hub := respond_turn acceptProb (Fin r) t (hub n)\<rparr>)"
| driver_give_up: "dr_answering s = Some t \<Longrightarrow> cancelled \<Longrightarrow>
    driver_step X driverID acceptProb cancelled (s, n) (GaveUp t) (s\<lparr>dr_responding := False, dr_answering := None\<rparr>, n)"

text \<open>A run: steps of the driver, between which anything else may happen to the node.\<close>

inductive driver_run :: "'w ext \<Rightarrow> string \<Rightarrow> f64 \<Rightarrow> driver_loop \<Rightarrow> driver_label list \<Rightarrow> driver_loop \<Rightarrow> bool"
  for X driverID acceptProb where
  driver_begin: "driver_run X driverID acceptProb s [] s"
| driver_more: "driver_run X driverID acceptProb s ls s' \<Longrightarrow>
    driver_step X driverID acceptProb cancelled (s', n) l (s'', n') \<Longrightarrow> driver_run X driverID acceptProb s (ls @ [l]) s''"

text \<open>The offers a driver found, and those it is done with.\<close>

definition offers_found :: "driver_label list \<Rightarrow> string list" where
  "offers_found ls = concat (map (\<lambda>l. case l of Polled (Some t) \<Rightarrow> [t] | _ \<Rightarrow> []) ls)"

definition offers_done :: "driver_label list \<Rightarrow> string list" where
  "offers_done ls = concat (map (\<lambda>l. case l of Answered t r b \<Rightarrow> [t] | GaveUp t \<Rightarrow> [t] | _ \<Rightarrow> []) ls)"

lemma offers_lists [simp]:
  "offers_found [] = []" "offers_done [] = []"
  "offers_found (ls @ [Pinged pos]) = offers_found ls" "offers_done (ls @ [Pinged pos]) = offers_done ls"
  "offers_found (ls @ [Polled None]) = offers_found ls" "offers_done (ls @ [Polled f]) = offers_done ls"
  "offers_found (ls @ [Polled (Some t)]) = offers_found ls @ [t]"
  "offers_found (ls @ [Answered t r b]) = offers_found ls" "offers_done (ls @ [Answered t r b]) = offers_done ls @ [t]"
  "offers_found (ls @ [GaveUp t]) = offers_found ls" "offers_done (ls @ [GaveUp t]) = offers_done ls @ [t]"
  "offers_found (ls @ [Stopped]) = offers_found ls" "offers_done (ls @ [Stopped]) = offers_done ls"
  by (simp_all add: offers_found_def offers_done_def)

lemma box_finite: "within_box pos \<Longrightarrow> \<exists>lat lng. pos = (Fin lat, Fin lng)"
proof -
  assume b: "within_box pos"
  have "\<exists>x. y = Fin x" if u: "f_le (rnd a) y" "f_le y (rnd b)" "\<bar>a\<bar> \<le> 100" "\<bar>b\<bar> \<le> 100" for a b y
  proof -
    have h: "rnd 100 = Fin 100" "rnd (- 100) = Fin (- 100)" using rnd_int [of 100] rnd_int [of "- 100"] by simp_all
    obtain a' where "rnd a = Fin a'" using u(3) by (auto intro: rnd_interval [OF _ _ h(2,1), of a])
    moreover obtain b' where "rnd b = Fin b'" using u(4) by (auto intro: rnd_interval [OF _ _ h(2,1), of b])
    ultimately show ?thesis using u(1,2) by (cases y) auto
  qed
  note f = this [of minLat "fst pos" maxLat] this [of minLng "snd pos" maxLng]
  show ?thesis using b f
    by (cases pos) (auto simp: within_box_def minLat_def maxLat_def minLng_def maxLng_def)
qed

lemma randPoint_finite:
  assumes "0 \<le> r1" "r1 < 1" "0 \<le> r2" "r2 < 1"
  shows "\<exists>lat lng. randPoint (Fin r1) (Fin r2) = (Fin lat, Fin lng)"
proof -
  have coord: "\<exists>x. f_add (rnd a) (f_mul (Fin r) (rnd b)) = Fin x"
    if r: "0 \<le> r" "r < 1" and ab: "\<bar>a\<bar> \<le> 100" "0 \<le> b" "b \<le> 1" for a b r
  proof -
    have h: "rnd 100 = Fin 100" "rnd (- 100) = Fin (- 100)" "rnd 101 = Fin 101" "rnd (- 101) = Fin (- 101)"
      using rnd_int [of 100] rnd_int [of "- 100"] rnd_int [of 101] rnd_int [of "- 101"] by simp_all
    obtain a' where a: "rnd a = Fin a'" "- 100 \<le> a'" "a' \<le> 100" using ab(1) by (auto intro: rnd_interval [OF _ _ h(2,1), of a])
    obtain b' where b: "rnd b = Fin b'" "0 \<le> b'" "b' \<le> 1" using ab(2,3) by (auto intro: rnd_interval [OF _ _ rnd_0 rnd_one, of b])
    have "0 \<le> r * b'" "r * b' \<le> 1" using r b mult_le_one [of r b'] by simp_all
    then obtain p where p: "rnd (r * b') = Fin p" "0 \<le> p" "p \<le> 1" by (auto intro: rnd_interval [OF _ _ rnd_0 rnd_one])
    obtain s where "rnd (a' + p) = Fin s" using a p by (auto intro: rnd_interval [OF _ _ h(4,3), of "a' + p"])
    then show ?thesis using a b p by simp
  qed
  show ?thesis
    using coord [of r1 minLat "maxLat - minLat"] coord [of r2 minLng "maxLng - minLng"] assms
    by (simp add: randPoint_def minLat_def maxLat_def minLng_def maxLng_def)
qed

text \<open>What every step keeps: a finite position, and an offer in hand exactly while the flag is set.\<close>

definition driver_inv :: "driver_label list \<Rightarrow> driver_loop \<Rightarrow> bool" where
  "driver_inv ls s \<longleftrightarrow> (\<exists>lat lng. dr_pos s = (Fin lat, Fin lng)) \<and> (dr_responding s \<longleftrightarrow> dr_answering s \<noteq> None) \<and>
     offers_found ls = offers_done ls @ (case dr_answering s of None \<Rightarrow> [] | Some t \<Rightarrow> [t]) \<and>
     (\<forall>pos. Pinged pos \<in> set ls \<longrightarrow> within_box pos)"

lemma poll_turn_cases:
  assumes "poll_turn X i responding w = (found, busy, w')"
  obtains "responding" "found = None" "busy" | "\<not> responding" "found = None" "\<not> busy"
  | t where "\<not> responding" "found = Some t" "busy"
  using assms by (auto simp: poll_turn_def split: if_splits prod.splits sum.splits)

lemma driver_step_inv:
  assumes "driver_step X i p cancelled (s, n) l (s', n')" "driver_inv ls s"
  shows "driver_inv (ls @ [l]) s'"
  using assms(1)
proof (cases rule: driver_step.cases)
  case (driver_ping r1 r2 m pos)
  obtain lat lng where s: "dr_pos s = (Fin lat, Fin lng)" using assms(2) by (auto simp: driver_inv_def)
  have b: "within_box pos" using driver_ping randomWalk_within_box [of r1 r2 lat lng] s by (auto simp: ping_turn_def Let_def)
  then show ?thesis using driver_ping assms(2) box_finite [OF b] by (simp add: driver_inv_def)
next
  case (driver_poll found busy w)
  then have "poll_turn X i (dr_responding s) (world n) = (found, busy, w)" by simp
  then show ?thesis
  proof (cases rule: poll_turn_cases)
    case (3 t)
    then show ?thesis using driver_poll assms(2) by (auto simp: driver_inv_def)
  qed (use driver_poll assms(2) in \<open>simp_all add: driver_inv_def\<close>)
qed (use assms(2) in \<open>auto simp: driver_inv_def\<close>)

text \<open>
  C40. A simulated driver answers or drops every offer it finds, once
  and in the order it found them; it has at most one answer under way, exactly while its
  flag is set; and all its pings are inside the city.
\<close>

theorem loadgen_driver_answers:
  assumes "driver_run X driverID acceptProb (driver_start (Fin r1) (Fin r2)) ls s"
    and "0 \<le> r1 \<and> r1 < 1 \<and> 0 \<le> r2 \<and> r2 < 1"
  shows "offers_found ls = offers_done ls @ (case dr_answering s of None \<Rightarrow> [] | Some t \<Rightarrow> [t]) \<and>
    (dr_responding s \<longleftrightarrow> dr_answering s \<noteq> None) \<and> (\<forall>pos. Pinged pos \<in> set ls \<longrightarrow> within_box pos)"
proof -
  have "driver_inv [] (driver_start (Fin r1) (Fin r2))"
    using randPoint_finite assms(2) by (simp add: driver_inv_def driver_start_def)
  with assms(1) have "driver_inv ls s" by (induction rule: driver_run.induct) (auto intro: driver_step_inv)
  then show ?thesis by (simp add: driver_inv_def)
qed

theorem loadgen_driver_answers_witness:
  "\<exists>s. driver_run mem_world ''d1'' (Fin 1) (driver_start (Fin 0) (Fin 0)) [Polled (Some ''t1'')] s \<and> dr_answering s = Some ''t1'' \<and>
     dr_responding s"
proof -
  let ?s = "driver_start (Fin 0) (Fin 0)"
  let ?w = "empty_db\<lparr>live := [driverOfferKey ''d1'' \<mapsto> (RStr ''t1'', None)]\<rparr>"
  let ?n = "\<lparr>world = ?w, hub = NewResponseHub, published = [], metrics = no_metrics\<rparr>"
  have e: "live (db mem_world ?w) (driverOfferKey ''d1'') = Some (RStr ''t1'', None)" by (simp add: mem_world_def)
  have "fst (CurrentOfferFor mem_world ''d1'' ?w) = Inr ''t1''"
    using mem.get_quiet(2) [OF e] by (simp add: CurrentOfferFor_def io_known io_wrap_fst)
  then obtain w where "poll_turn mem_world ''d1'' False ?w = (Some ''t1'', True, w)"
    by (cases "CurrentOfferFor mem_world ''d1'' ?w") (simp add: poll_turn_def)
  then have step: "driver_step mem_world ''d1'' (Fin 1) False (?s, ?n) (Polled (Some ''t1''))
      (?s\<lparr>dr_responding := True, dr_answering := Some ''t1''\<rparr>, ?n\<lparr>world := w\<rparr>)"
    using driver_poll [of ?s mem_world "''d1''" ?n "Some ''t1''" True w] by (simp add: driver_start_def)
  let ?s' = "?s\<lparr>dr_responding := True, dr_answering := Some ''t1''\<rparr>"
  have run: "driver_run mem_world ''d1'' (Fin 1) ?s [Polled (Some ''t1'')] ?s'" using driver_more [OF driver_begin step] by simp
  have "dr_answering ?s' = Some ''t1''" by simp
  moreover have "dr_responding ?s'" using loadgen_driver_answers [OF run] by simp
  ultimately show ?thesis using run by blast
qed

text \<open>
  The hub knows trips, not drivers: an answer given \<open>acceptDelay\<close> after the poll is taken by
  whichever round of the trip is open by then, also when that round's offer is another
  driver's.
\<close>

lemma late_answer_counts:
  assumes "dr_answering s = Some t" "hub n t = Some None"
  shows "driver_step X driverID (Fin 1) False (s, n) (Answered t Accepted True)
    (s\<lparr>dr_responding := False, dr_answering := None\<rparr>, n\<lparr>hub := (hub n)(t \<mapsto> Some Accepted)\<rparr>)"
  using driver_answer [OF assms(1), of 0 X driverID "Fin 1" False n] assms(2) by (simp add: Respond_def respond_turn_def f_lt_def)

section \<open>What the riders' goroutines count\<close>

record tally =
  ta_matched :: int
  ta_unfulfilled :: int
  ta_errors :: int
  ta_latencies :: "int list"

definition tally_start :: tally where
  "tally_start = \<lparr>ta_matched = 0, ta_unfulfilled = 0, ta_errors = 0, ta_latencies = []\<rparr>"

text \<open>The end of a rider's goroutine, with the result of \<open>runRider\<close> and the time it took.\<close>

definition rider_done :: "bool result \<times> int \<Rightarrow> tally \<Rightarrow> tally" where
  "rider_done = (\<lambda>(r, elapsed) t.
     case r of
       Inl e \<Rightarrow> t\<lparr>ta_errors := wrap_i64 (ta_errors t + 1)\<rparr>
     | Inr m \<Rightarrow>
         (let t = t\<lparr>ta_latencies := ta_latencies t @ [elapsed]\<rparr>
          in if m then t\<lparr>ta_matched := wrap_i64 (ta_matched t + 1)\<rparr>
             else t\<lparr>ta_unfulfilled := wrap_i64 (ta_unfulfilled t + 1)\<rparr>))"

text \<open>The time to the next request; \<open>Log\<close> is \<open>math.Log\<close>.\<close>

definition interArrival :: "(f64 \<Rightarrow> f64) \<Rightarrow> (f64 \<Rightarrow> int) \<Rightarrow> f64 \<Rightarrow> f64 \<Rightarrow> int" where
  "interArrival Log oor rate r =
     f_to_i64 oor (f_mul (f_div (f_neg (Log (f_sub (Fin 1) r))) rate) (f_of_int second))"

record load_report =
  rep_window :: int
  rep_resolved :: int
  rep_matched :: "int \<times> f64"
  rep_unfulfilled :: "int \<times> f64"
  rep_errors :: int
  rep_throughput :: f64
  rep_latencies :: "(int option \<times> int option \<times> int option) option"

definition seconds_of :: "int \<Rightarrow> f64" where
  "seconds_of d = f_add (f_of_int (sgn d * (\<bar>d\<bar> div second))) (f_div (f_of_int (sgn d * (\<bar>d\<bar> mod second))) (f_of_int second))"

definition load_report :: "(f64 \<Rightarrow> int) \<Rightarrow> int \<Rightarrow> tally \<Rightarrow> load_report" where
  "load_report oor dur t =
     (let resolved = wrap_i64 (ta_matched t + ta_unfulfilled t)
      in \<lparr>rep_window = dur, rep_resolved = resolved,
          rep_matched = (ta_matched t, pct (ta_matched t) resolved),
          rep_unfulfilled = (ta_unfulfilled t, pct (ta_unfulfilled t) resolved), rep_errors = ta_errors t,
          rep_throughput = f_div (f_of_int (ta_matched t)) (seconds_of dur),
          rep_latencies = latency_report oor (ta_latencies t)\<rparr>)"

lemma rider_done_counts:
  assumes "length rs < 2 ^ 63"
  shows "fold rider_done rs tally_start =
    \<lparr>ta_matched = int (length (filter (\<lambda>(r, d). r = Inr True) rs)),
     ta_unfulfilled = int (length (filter (\<lambda>(r, d). r = Inr False) rs)),
     ta_errors = int (length (filter (\<lambda>(r, d). \<exists>e. r = Inl e) rs)),
     ta_latencies = map snd (filter (\<lambda>(r, d). \<exists>m. r = Inr m) rs)\<rparr>"
  using assms
proof (induction rs rule: rev_induct)
  case Nil
  then show ?case by (simp add: tally_start_def)
next
  case (snoc x rs)
  obtain r d where x: "x = (r, d)" by (cases x)
  have le: "length (filter p rs) \<le> length rs" for p :: "bool result \<times> int \<Rightarrow> bool" by (rule length_filter_le)
  have w: "wrap_i64 (int (length (filter p rs)) + 1) = int (length (filter p rs)) + 1" for p :: "bool result \<times> int \<Rightarrow> bool"
  proof (rule wrap_i64_id)
    have "length (filter p rs) < 9223372036854775807" by (rule le_less_trans [OF le]) (use snoc.prems in simp)
    then show "in_i64 (int (length (filter p rs)) + 1)" by (simp add: in_i64_def)
  qed
  show ?case using snoc by (cases r) (auto simp: x rider_done_def w Let_def)
qed

lemma mset_filter_length: "mset xs = mset ys \<Longrightarrow> length (filter p xs) = length (filter p ys)"
  by (metis mset_filter size_mset)

lemma mset_map_filter: "mset xs = mset ys \<Longrightarrow> mset (map f (filter p xs)) = mset (map f (filter p ys))"
  by simp

lemma mset_sort_eq: "mset xs = mset ys \<Longrightarrow> sort xs = sort (ys :: int list)"
  by (metis mset_sort properties_for_sort sorted_sort)

text \<open>
  The report counts every request once: those resolved and those that failed add up to
  all, the matched and unfulfilled are those the dispatcher reported so, there is one latency
  per resolved request, and the order in which the goroutines finish does not matter.
\<close>

theorem load_report_counts:
  assumes "length rs < 2 ^ 63"
  shows "let t = fold rider_done rs tally_start; rep = load_report oor dur t in
    rep_resolved rep = fst (rep_matched rep) + fst (rep_unfulfilled rep) \<and>
    rep_resolved rep + rep_errors rep = int (length rs) \<and> rep_resolved rep = int (length (ta_latencies t)) \<and>
    fst (rep_matched rep) = int (length (filter (\<lambda>(r, d). r = Inr True) rs)) \<and>
    (\<forall>rs'. mset rs' = mset rs \<longrightarrow> load_report oor dur (fold rider_done rs' tally_start) = rep)"
proof -
  let ?n = "\<lambda>p. length (filter p rs)"
  have split: "?n (\<lambda>(r, d). r = Inr True) + ?n (\<lambda>(r, d). r = Inr False) = ?n (\<lambda>(r, d). \<exists>m. r = Inr m)"
    "?n (\<lambda>(r, d). \<exists>m. r = Inr m) + ?n (\<lambda>(r, d). \<exists>e. r = Inl e) = length rs"
    by (induction rs) (auto, metis sum.exhaust)
  have le: "?n (\<lambda>(r, d). \<exists>m. r = Inr m) < 2 ^ 63" using assms length_filter_le order_le_less_trans by blast
  have same: "load_report oor dur (fold rider_done rs' tally_start) = load_report oor dur (fold rider_done rs tally_start)"
    if m: "mset rs' = mset rs" for rs'
    unfolding load_report_def latency_report_def Let_def rider_done_counts [OF assms]
      rider_done_counts [OF assms [folded mset_eq_length [OF m]]] by (simp add: mset_filter_length [OF m] mset_sort_eq [OF mset_map_filter [OF m]])
  have "wrap_i64 (int (?n (\<lambda>(r, d). r = Inr True)) + int (?n (\<lambda>(r, d). r = Inr False))) = int (?n (\<lambda>(r, d). \<exists>m. r = Inr m))"
    using split(1) le by (simp add: in_i64_def)
  then have "let t = fold rider_done rs tally_start; rep = load_report oor dur t in
      rep_resolved rep = fst (rep_matched rep) + fst (rep_unfulfilled rep) \<and>
      rep_resolved rep + rep_errors rep = int (length rs) \<and> rep_resolved rep = int (length (ta_latencies t)) \<and>
      fst (rep_matched rep) = int (?n (\<lambda>(r, d). r = Inr True))"
    using split by (simp add: rider_done_counts [OF assms] load_report_def Let_def)
  then show ?thesis using same unfolding Let_def by blast
qed

theorem load_report_counts_witness:
  "let rs = [(Inr True, 7), (Inl ContextDone, 9), (Inr False, 3)]; rep = load_report (\<lambda>_. 0) second (fold rider_done rs tally_start) in
     rep_resolved rep = 2 \<and> rep_errors rep = 1 \<and> rep_matched rep = (1, Fin 50)"
proof -
  let ?rs = "[(Inr True, 7), (Inl ContextDone, 9), (Inr False, 3)] :: (bool result \<times> int) list"
  have l: "length ?rs < 2 ^ 63" by simp
  have "rep_resolved (load_report (\<lambda>_. 0) second (fold rider_done ?rs tally_start)) = 2"
    using load_report_counts [OF l, of "\<lambda>_. 0" second] unfolding Let_def by (simp add: rider_done_def tally_start_def in_i64_def)
  moreover have "rnd (1 / 2) = Fin (1 / 2)" using rnd_dyadic [of 1 1] by simp
  ultimately show ?thesis using rnd_int [of 50]
    by (simp add: load_report_def rider_done_def tally_start_def in_i64_def pct_def f_of_int_def Let_def)
qed

section \<open>A whole run\<close>

text \<open>
  \<open>main\<close>: requests are generated until the time is up or the riders' context ends, each in a
  goroutine of its own; then \<open>riderWG.Wait\<close>, and only then are the drivers cancelled and the
  report printed.
\<close>

record load_run =
  lm_generating :: bool
  lm_seq :: int
  lm_in_flight :: "int list"
  lm_tally :: tally
  lm_drivers_cancelled :: bool
  lm_report :: "load_report option"

definition load_start :: load_run where
  "load_start = \<lparr>lm_generating = True, lm_seq = 0, lm_in_flight = [], lm_tally = tally_start,
     lm_drivers_cancelled = False, lm_report = None\<rparr>"

inductive load_step :: "(f64 \<Rightarrow> int) \<Rightarrow> int \<Rightarrow> load_run \<Rightarrow> load_run \<Rightarrow> bool" for oor dur where
  load_request: "lm_generating s \<Longrightarrow> load_step oor dur s (s\<lparr>lm_seq := lm_seq s + 1, lm_in_flight := (lm_seq s + 1) # lm_in_flight s\<rparr>)"
| load_time_up: "lm_generating s \<Longrightarrow> load_step oor dur s (s\<lparr>lm_generating := False\<rparr>)"
| load_resolved: "n \<in> set (lm_in_flight s) \<Longrightarrow>
    load_step oor dur s (s\<lparr>lm_in_flight := remove1 n (lm_in_flight s), lm_tally := rider_done (r, elapsed) (lm_tally s)\<rparr>)"
| load_wind_up: "\<not> lm_generating s \<Longrightarrow> lm_in_flight s = [] \<Longrightarrow> \<not> lm_drivers_cancelled s \<Longrightarrow>
    load_step oor dur s (s\<lparr>lm_drivers_cancelled := True\<rparr>)"
| load_print: "lm_drivers_cancelled s \<Longrightarrow> lm_report s = None \<Longrightarrow>
    load_step oor dur s (s\<lparr>lm_report := Some (load_report oor dur (lm_tally s))\<rparr>)"

definition load_inv :: "(f64 \<Rightarrow> int) \<Rightarrow> int \<Rightarrow> load_run \<Rightarrow> bool" where
  "load_inv oor dur s \<longleftrightarrow>
     (\<exists>rs. lm_tally s = fold rider_done rs tally_start \<and> lm_seq s = int (length (lm_in_flight s)) + int (length rs) \<and>
        (lm_drivers_cancelled s \<longrightarrow> \<not> lm_generating s \<and> lm_in_flight s = []) \<and>
        (\<forall>rep. lm_report s = Some rep \<longrightarrow> lm_drivers_cancelled s \<and> rep = load_report oor dur (fold rider_done rs tally_start)))"

lemma length_remove1_Suc: "x \<in> set xs \<Longrightarrow> Suc (length (remove1 x xs)) = length xs"
  by (induction xs) auto

lemma load_invI:
  assumes "lm_tally s = fold rider_done rs tally_start" "lm_seq s = int (length (lm_in_flight s)) + int (length rs)"
    "lm_drivers_cancelled s \<Longrightarrow> \<not> lm_generating s \<and> lm_in_flight s = []"
    "\<And>rep. lm_report s = Some rep \<Longrightarrow> lm_drivers_cancelled s \<and> rep = load_report oor dur (fold rider_done rs tally_start)"
  shows "load_inv oor dur s"
  using assms unfolding load_inv_def by blast

lemma load_step_inv:
  assumes "load_step oor dur s s'" "load_inv oor dur s"
  shows "load_inv oor dur s'"
proof -
  obtain rs where rs: "lm_tally s = fold rider_done rs tally_start" "lm_seq s = int (length (lm_in_flight s)) + int (length rs)"
    "lm_drivers_cancelled s \<longrightarrow> \<not> lm_generating s \<and> lm_in_flight s = []"
    "\<forall>rep. lm_report s = Some rep \<longrightarrow> lm_drivers_cancelled s \<and> rep = load_report oor dur (fold rider_done rs tally_start)"
    using assms(2) unfolding load_inv_def by blast
  from assms(1) show ?thesis
  proof (cases rule: load_step.cases)
    case (load_resolved n r elapsed)
    then have "lm_in_flight s \<noteq> []" and c: "\<not> lm_drivers_cancelled s" using rs(3) by auto
    then have "int (length (remove1 n (lm_in_flight s))) + 1 = int (length (lm_in_flight s))"
      using length_remove1_Suc load_resolved by fastforce
    then show ?thesis using load_resolved rs c
      by (intro load_invI [where rs = "rs @ [(r, elapsed)]"]) auto
  qed (use rs in \<open>auto intro!: load_invI [where rs = rs]\<close>)
qed

text \<open>
  No request is lost: the drivers run until the last rider has been answered, and the report
  counts every request that was generated.
\<close>

theorem load_report_complete:
  assumes "(load_step oor dur)\<^sup>*\<^sup>* load_start s" and "lm_seq s < 2 ^ 63"
  shows "(lm_drivers_cancelled s \<longrightarrow> lm_in_flight s = [] \<and> \<not> lm_generating s) \<and>
    (\<forall>rep. lm_report s = Some rep \<longrightarrow> rep_resolved rep + rep_errors rep = lm_seq s)"
proof -
  have "load_inv oor dur load_start" by (rule load_invI [where rs = "[]"]) (simp_all add: load_start_def)
  with assms(1) have "load_inv oor dur s" by induction (auto intro: load_step_inv)
  then obtain rs where rs: "lm_seq s = int (length (lm_in_flight s)) + int (length rs)"
    "lm_drivers_cancelled s \<longrightarrow> \<not> lm_generating s \<and> lm_in_flight s = []"
    "\<forall>rep. lm_report s = Some rep \<longrightarrow> lm_drivers_cancelled s \<and> rep = load_report oor dur (fold rider_done rs tally_start)"
    unfolding load_inv_def by blast
  have l: "length rs < 2 ^ 63" using rs(1) assms(2) by simp
  have "rep_resolved (load_report oor dur (fold rider_done rs tally_start)) + rep_errors (load_report oor dur (fold rider_done rs tally_start)) =
      int (length rs)"
    using load_report_counts [OF l, of oor dur] unfolding Let_def by blast
  then have "rep_resolved rep + rep_errors rep = lm_seq s" if "lm_report s = Some rep" for rep
    using rs that by simp
  then show ?thesis using rs(2) by blast
qed

theorem load_report_complete_witness:
  "\<exists>s rep. (load_step (\<lambda>_. 0) second)\<^sup>*\<^sup>* load_start s \<and> lm_report s = Some rep \<and> rep_resolved rep + rep_errors rep = 1"
proof -
  let ?R = "load_step (\<lambda>_. 0) second"
  let ?s1 = "load_start\<lparr>lm_seq := 1, lm_in_flight := [1]\<rparr>"
  let ?s2 = "?s1\<lparr>lm_in_flight := [], lm_tally := rider_done (Inr True, 7) tally_start\<rparr>"
  let ?s3 = "?s2\<lparr>lm_generating := False\<rparr>"
  let ?s4 = "?s3\<lparr>lm_drivers_cancelled := True\<rparr>"
  let ?s5 = "?s4\<lparr>lm_report := Some (load_report (\<lambda>_. 0) second (lm_tally ?s4))\<rparr>"
  have "?R load_start ?s1" using load_request [of load_start] by (simp add: load_start_def)
  moreover have "?R ?s1 ?s2" using load_resolved [of 1 ?s1] by (simp add: load_start_def)
  moreover have "?R ?s2 ?s3" using load_time_up [of ?s2] by (simp add: load_start_def)
  moreover have "?R ?s3 ?s4" using load_wind_up [of ?s3] by (simp add: load_start_def)
  moreover have "?R ?s4 ?s5" using load_print [of ?s4] by (simp add: load_start_def)
  ultimately have run: "?R\<^sup>*\<^sup>* load_start ?s5" by (meson converse_rtranclp_into_rtranclp rtranclp.rtrancl_refl)
  have "lm_seq ?s5 < 2 ^ 63" by simp
  from load_report_complete [OF run this] show ?thesis using run by (intro exI [of _ ?s5]) simp
qed

end
