(* ===== verification/DiscoLife.thy ===== *)
theory DiscoLife
  imports Answers Settings LoadGen
begin

text \<open>
  The life of a disco process (\<open>cmd/disco/main.go\<close>): its settings, what it builds before it
  serves, the ticker of its reconciler, and how it leaves the cluster. What Redis, memberlist
  and the socket answer at the start are parameters.
\<close>

section \<open>Settings\<close>

record disco_settings =
  ds_httpPort :: string
  ds_grpcPort :: int
  ds_gossipPort :: int
  ds_bindAddr :: string
  ds_advertiseAddr :: string
  ds_nodeName :: string
  ds_seeds :: "string list"
  ds_redisAddr :: string
  ds_kafkaBrokers :: "string list"

definition disco_environment :: "environment \<Rightarrow> disco_settings" where
  "disco_environment Getenv =
     (let grpcPort = envOrInt Getenv ''DISCO_GRPC_PORT'' 9083
      in \<lparr>ds_httpPort = envOr Getenv ''DISCO_PORT'' ''8083'', ds_grpcPort = grpcPort,
          ds_gossipPort = envOrInt Getenv ''DISCO_GOSSIP_PORT'' 7946,
          ds_bindAddr = envOr Getenv ''DISCO_BIND_ADDR'' ''0.0.0.0'',
          ds_advertiseAddr = envOr Getenv ''DISCO_ADVERTISE_ADDR'' ''127.0.0.1'',
          ds_nodeName = envOr Getenv ''DISCO_NODE_NAME'' (''disco-'' @ itoa grpcPort),
          ds_seeds = splitNonEmpty (Getenv ''DISCO_SEEDS'') '','',
          ds_redisAddr = envOr Getenv ''REDIS_ADDR'' ''127.0.0.1:6379'',
          ds_kafkaBrokers = splitNonEmpty (envOr Getenv ''KAFKA_BROKERS'' ''localhost:9092'') '',''\<rparr>)"

definition disco_member_config :: "disco_settings \<Rightarrow> MembershipConfig" where
  "disco_member_config s = \<lparr>NodeName = ds_nodeName s, BindAddr = ds_bindAddr s, BindPort = ds_gossipPort s,
     Seeds = ds_seeds s, VirtualNodes = 0, GRPCAddr = ds_advertiseAddr s @ '':'' @ itoa (ds_grpcPort s)\<rparr>"

section \<open>Starting\<close>

record driver_store =
  drs_res :: int
  drs_publisher :: Publisher

definition NewDriverStore :: "int \<Rightarrow> driver_store" where
  "NewDriverStore resolution = \<lparr>drs_res = resolution, drs_publisher = NoopPublisher\<rparr>"

definition SetPublisher :: "Publisher option \<Rightarrow> driver_store \<Rightarrow> driver_store" where
  "SetPublisher p s = s\<lparr>drs_publisher := or_noop p\<rparr>"

record dispatcher =
  dis_Publisher :: Publisher
  dis_Cfg :: Config

definition NewDispatcher :: "Publisher option \<Rightarrow> Config \<Rightarrow> dispatcher" where
  "NewDispatcher publisher cfg = \<lparr>dis_Publisher = or_noop publisher, dis_Cfg = cfg\<rparr>"

record disco_process =
  dp_settings :: disco_settings
  dp_drivers :: driver_store
  dp_dispatcher :: dispatcher
  dp_proc :: proc

text \<open>The driver store and the publisher; events go to Kafka if any broker is set.\<close>

definition disco_stores :: "disco_settings \<Rightarrow> driver_store \<times> Publisher" where
  "disco_stores s =
     (let drivers = NewDriverStore DefaultResolution
      in if ds_kafkaBrokers s \<noteq> []
         then let kp = PublishTo (NewKafkaPublisher (ds_kafkaBrokers s)) in (SetPublisher (Some kp) drivers, kp)
         else (drivers, NoopPublisher))"

text \<open>
  \<open>main\<close> up to the point where it serves. \<open>ping\<close>, \<open>created\<close>, \<open>joined\<close> and \<open>listening\<close> are the answers
  of Redis, memberlist and \<open>net.Listen\<close>; an error is fatal.
\<close>

definition disco_start :: "(string \<Rightarrow> u64) \<Rightarrow> int \<Rightarrow> environment \<Rightarrow> unit result \<Rightarrow> gossip list result \<Rightarrow> gossip list result
    \<Rightarrow> unit result \<Rightarrow> disco_process result" where
  "disco_start sum64 limit Getenv ping created joined listening =
     (let s = disco_environment Getenv in
      case ping of
        Inl e \<Rightarrow> Inl (Errorf ''disco: connect to redis'' e)
      | Inr _ \<Rightarrow>
          (case membership_New sum64 limit (disco_member_config s) created joined of
             Inl e \<Rightarrow> Inl (Errorf ''disco: join cluster'' e)
           | Inr member \<Rightarrow>
               (case listening of
                  Inl e \<Rightarrow> Inl (Errorf ''disco: listen on gRPC port'' e)
                | Inr _ \<Rightarrow> Inr \<lparr>dp_settings = s, dp_drivers = fst (disco_stores s),
                    dp_dispatcher = NewDispatcher (Some (snd (disco_stores s))) DefaultConfig,
                    dp_proc = \<lparr>p_Name = ds_nodeName s, p_Member = member, p_Hub = NewResponseHub, p_Published = [], p_Metrics = no_metrics\<rparr>\<rparr>)))"

text \<open>What \<open>/debug/ring\<close> shows.\<close>

definition debug_ring :: "disco_process \<Rightarrow> string \<times> string list \<times> string list" where
  "debug_ring p = (ds_nodeName (dp_settings p), Members (p_Member (dp_proc p)), Nodes (mb_ring (p_Member (dp_proc p))))"

section \<open>The reconciler's ticker\<close>

text \<open>
  \<open>runReconciler\<close>: a wait of ten seconds ends with a tick or with the context done; an error of
  the sweep is logged. The result says whether the loop has returned within \<open>ticks\<close> waits.
\<close>

fun runReconciler :: "'w ext \<Rightarrow> 'w Reconciler \<Rightarrow> nat \<Rightarrow> 'w node \<Rightarrow> bool \<times> 'w node" where
  "runReconciler X R 0 n = (False, n)"
| "runReconciler X R (Suc ticks) n =
     (case pause (rc_Waits R) (10 * second) (world n) of (ticked, w) \<Rightarrow>
        if \<not> ticked then (True, n\<lparr>world := w\<rparr>)
        else case Sweep X R (n\<lparr>world := w\<rparr>) of (_, n') \<Rightarrow> runReconciler X R ticks n')"

section \<open>Leaving\<close>

text \<open>
  The end of \<open>main\<close>: \<open>GracefulStop\<close> closes the listener and waits for the calls in progress, then
  \<open>Leave\<close> gossips the departure, and every other process that knows the node drops it.
\<close>

definition graceful_stop :: "string \<Rightarrow> 'w cluster \<Rightarrow> 'w cluster" where
  "graceful_stop b C = C\<lparr>procs := (procs C)(b := None)\<rparr>"

definition hear_leave :: "(string \<Rightarrow> u64) \<Rightarrow> string \<Rightarrow> proc \<Rightarrow> proc" where
  "hear_leave sum64 name p =
     (if name \<in> set (Members (p_Member p)) then p\<lparr>p_Member := notify sum64 (Left name) (p_Member p)\<rparr> else p)"

definition gossip_leave :: "'w deployment \<Rightarrow> string \<Rightarrow> 'w cluster \<Rightarrow> 'w cluster" where
  "gossip_leave D name C = C\<lparr>procs := (\<lambda>a. map_option (hear_leave (dep_sum64 D) name) (procs C a))\<rparr>"

section \<open>A process that has started\<close>

lemma itoa_port_distinct:
  assumes "in_i64 m" "in_i64 n" "itoa m = itoa n"
  shows "m = n"
  using parse_int64_itoa [OF assms(1)] parse_int64_itoa [OF assms(2)] assms(3) by (metis sum.inject(2))

lemma disco_stores_publisher:
  "snd (disco_stores s) = drs_publisher (fst (disco_stores s))"
  "drs_publisher (fst (disco_stores s)) =
     (if ds_kafkaBrokers s = [] then NoopPublisher else PublishTo (NewKafkaPublisher (ds_kafkaBrokers s)))"
  by (simp_all add: disco_stores_def NewDriverStore_def SetPublisher_def or_noop_def Let_def)

text \<open>Every writer of the publisher has all the brokers and the topic of its events.\<close>

lemma Kafka_routes:
  "kw_Addr (fst (kafka_route (NewKafkaPublisher bs) e)) = bs"
  "kw_Topic (fst (kafka_route (NewKafkaPublisher bs) e)) =
     (case e of DriverLocation _ \<Rightarrow> TopicDriverLocation | TripLifecycle _ \<Rightarrow> TopicTripLifecycle | OfferLifecycle _ \<Rightarrow> TopicOfferEvents)"
  by (cases e; simp add: NewKafkaPublisher_def)+

lemma disco_start_cases:
  assumes "disco_start s limit Getenv ping created joined listening = Inr p"
  obtains mb where "ping = Inr ()" "listening = Inr ()"
    "membership_New s limit (disco_member_config (disco_environment Getenv)) created joined = Inr mb"
    "p = \<lparr>dp_settings = disco_environment Getenv, dp_drivers = fst (disco_stores (disco_environment Getenv)),
      dp_dispatcher = NewDispatcher (Some (snd (disco_stores (disco_environment Getenv)))) DefaultConfig,
      dp_proc = \<lparr>p_Name = ds_nodeName (disco_environment Getenv), p_Member = mb, p_Hub = NewResponseHub, p_Published = [], p_Metrics = no_metrics\<rparr>\<rparr>"
proof -
  let ?s = "disco_environment Getenv"
  define P where "P = (\<lambda>mb. \<lparr>dp_settings = ?s, dp_drivers = fst (disco_stores ?s),
      dp_dispatcher = NewDispatcher (Some (snd (disco_stores ?s))) DefaultConfig,
      dp_proc = \<lparr>p_Name = ds_nodeName ?s, p_Member = mb, p_Hub = NewResponseHub, p_Published = [], p_Metrics = no_metrics\<rparr>\<rparr>)"
  define new where "new = membership_New s limit (disco_member_config ?s) created joined"
  have "(case ping of Inl e \<Rightarrow> Inl (Errorf ''disco: connect to redis'' e)
      | Inr _ \<Rightarrow> case new of Inl e \<Rightarrow> Inl (Errorf ''disco: join cluster'' e)
      | Inr mb \<Rightarrow> case listening of Inl e \<Rightarrow> Inl (Errorf ''disco: listen on gRPC port'' e) | Inr _ \<Rightarrow> Inr (P mb)) = Inr p"
    using assms unfolding disco_start_def Let_def P_def new_def .
  then obtain mb where "ping = Inr ()" "new = Inr mb" "listening = Inr ()" "p = P mb"
    by (cases ping; cases new; cases listening) auto
  then show thesis using that unfolding P_def new_def by blast
qed

lemma running_hears:
  assumes "running s limit N v self mb" "legal self N mb ev"
  shows "running s limit N v self (notify s ev mb)"
proof -
  have snoc: "gossips s self N m evs m' \<Longrightarrow> legal self N m' ev \<Longrightarrow> gossips s self N m (evs @ [ev]) (notify s ev m')" for m evs m'
    by (induction rule: gossips.induct) simp_all
  then show ?thesis using assms unfolding running_def by blast
qed

lemma Nodes_ring_over:
  assumes "ring_over s R r"
  shows "set (Nodes r) = R"
proof -
  have ok: "ring_ok r" and o: "\<And>h n. map_of (owners r) h = Some n \<longleftrightarrow> n \<in> R \<and> h \<in> replicas s n (virtualNodes r)"
    using assms by (simp_all add: ring_over_def)
  have "replicas s n (virtualNodes r) \<noteq> {}" for n using ok by (intro replicas_nonempty) (simp add: ring_ok_def)
  then have "\<exists>h. map_of (owners r) h = Some n" if "n \<in> R" for n using o that by blast
  then show ?thesis using o Nodes_correct [OF ok] by (auto simp: ran_def)
qed

section \<open>Leaving a cluster\<close>

text \<open>A router sends a request to the owner's address, whatever the state of the rest of the cluster.\<close>

lemma route_to_peer:
  assumes "cluster_ok D limit N v C" "procs C a = Some p" "owner_at D p key \<noteq> p_Name p"
    "PeerGRPCAddr (p_Member p) (owner_at D p key) = (b, True)" "dep_dial D b = Inr ()"
  shows "route (dep_sum64 D) (disco_router D a p) handle rpc key req S = io_wrap ''router: forward to node'' (rpc b req) S"
proof -
  have "Lookup (dep_sum64 D) (mb_ring (p_Member p)) key = (owner_at D p key, True)"
    using cluster_okD(3) [OF assms(1,2)] by (simp add: owner_at_def prod_eq_iff)
  then show ?thesis using assms(3-5) by (simp add: route_def disco_router_def io_bind_def io_wrap_def io_lift_def io_return_def)
qed

text \<open>\<open>b\<close> is the only process with its name.\<close>

definition sole :: "'w cluster \<Rightarrow> string \<Rightarrow> string \<Rightarrow> bool" where
  "sole C b name \<longleftrightarrow> (\<exists>q. procs C b = Some q \<and> p_Name q = name) \<and> (\<forall>a p. procs C a = Some p \<longrightarrow> p_Name p = name \<longrightarrow> a = b)"

lemma hear_leave_name [simp]: "p_Name (hear_leave s name p) = p_Name p"
  by (simp add: hear_leave_def)

lemma Members_hear_leave: "set (Members (p_Member (hear_leave s name p))) = set (Members (p_Member p)) - {name}"
  by (auto simp: hear_leave_def Members_notify simp del: notify.simps)

lemma PeerGRPCAddr_hear_leave:
  "n \<noteq> name \<Longrightarrow> PeerGRPCAddr (p_Member (hear_leave s name p)) n = PeerGRPCAddr (p_Member p) n"
proof -
  assume n: "n \<noteq> name"
  have f: "find (\<lambda>k. m_Name k = n) (filter (\<lambda>k. m_Name k \<noteq> name) xs) = find (\<lambda>k. m_Name k = n) xs" for xs
    using n by (induction xs) auto
  show ?thesis by (simp add: hear_leave_def PeerGRPCAddr_def f)
qed

lemma procs_left:
  "procs (gossip_leave D name (graceful_stop b C)) a =
     (if a = b then None else map_option (hear_leave (dep_sum64 D) name) (procs C a))"
  by (simp add: gossip_leave_def graceful_stop_def)

lemma left_cluster_ok:
  assumes "cluster_ok D limit N v C" "sole C b name"
  shows "cluster_ok D limit N v (gossip_leave D name (graceful_stop b C))"
proof -
  let ?C = "gossip_leave D name (graceful_stop b C)"
  have "running (dep_sum64 D) limit N v (p_Name p) (p_Member p) \<and>
      (\<forall>n \<in> set (Members (p_Member p)). \<exists>b' q'. PeerGRPCAddr (p_Member p) n = (b', True) \<and>
         dep_dial D b' = Inr () \<and> procs ?C b' = Some q' \<and> p_Name q' = n)" if p: "procs ?C a = Some p" for a p
  proof -
    have "a \<noteq> b" "map_option (hear_leave (dep_sum64 D) name) (procs C a) = Some p"
      using p unfolding procs_left by (simp_all split: if_splits)
    then obtain p0 where p0: "procs C a = Some p0" "a \<noteq> b" "p = hear_leave (dep_sum64 D) name p0" by auto
    have r: "running (dep_sum64 D) limit N v (p_Name p0) (p_Member p0)" using assms(1) p0(1) unfolding cluster_ok_def by blast
    have ne: "p_Name p0 \<noteq> name" using assms(2) p0(1,2) unfolding sole_def by blast
    have "running (dep_sum64 D) limit N v (p_Name p) (p_Member p)"
      using running_hears [OF r, of "Left name"] ne r by (simp add: p0(3) hear_leave_def del: notify.simps)
    moreover have "\<exists>b' q'. PeerGRPCAddr (p_Member p) n = (b', True) \<and> dep_dial D b' = Inr () \<and> procs ?C b' = Some q' \<and> p_Name q' = n"
      if n: "n \<in> set (Members (p_Member p))" for n
    proof -
      have n': "n \<in> set (Members (p_Member p0))" "n \<noteq> name" using n by (simp_all add: p0(3) Members_hear_leave)
      obtain b' q' where b': "PeerGRPCAddr (p_Member p0) n = (b', True)" "dep_dial D b' = Inr ()" "procs C b' = Some q'" "p_Name q' = n"
        by (rule cluster_peer [OF assms(1) p0(1) n'(1)])
      obtain q0 where q0: "procs C b = Some q0" "p_Name q0 = name" using assms(2) unfolding sole_def by blast
      have "b' \<noteq> b" using b'(3,4) q0 n'(2) by auto
      then have "procs ?C b' = Some (hear_leave (dep_sum64 D) name q')" using b'(3) by (simp add: procs_left)
      then show ?thesis using b' unfolding p0(3) PeerGRPCAddr_hear_leave [OF n'(2)]
        by (intro exI [of _ b'] exI [of _ "hear_leave (dep_sum64 D) name q'"]) simp
    qed
    ultimately show ?thesis by (intro conjI ballI)
  qed
  then show ?thesis using assms(1) unfolding cluster_ok_def by (intro conjI allI impI) simp_all
qed

text \<open>
  C18. How a node leaves: between \<open>GracefulStop\<close> and \<open>Leave\<close> every request for a cell it owns is
  refused, whichever process it reaches, although the others are up; once its departure has
  been gossiped the cluster is in order again, and every request is handled by one of the
  remaining processes.
\<close>

theorem disco_shutdown:
  assumes "cluster_ok D limit N v C" and "sole C b name"
    and "CellFor X (dq_OriginLat req) (dq_OriginLng req) (lh_Resolution (dep_handler D)) = Inr c"
    and "procs C a = Some p" and "a \<noteq> b" and "card N \<le> hops"
  shows "(owner_at D p (CellString X c) = name \<longrightarrow>
      serve_Dispatch X D ticks (Suc (Suc hops)) a req (graceful_stop b C) =
        (Inl (Errorf ''router: forward to node'' (ErrorMsg ''connection refused'')), graceful_stop b C)) \<and>
    cluster_ok D limit N v (gossip_leave D name (graceful_stop b C)) \<and>
    (\<exists>b' q' k. b' \<noteq> b \<and> procs (gossip_leave D name (graceful_stop b C)) b' = Some q' \<and>
      serve_Dispatch X D ticks hops a req (gossip_leave D name (graceful_stop b C)) =
        forwarded k (on_node b' (Handle X (dep_handler D) ticks req)) (gossip_leave D name (graceful_stop b C)))"
proof (intro conjI impI)
  let ?S = "graceful_stop b C" and ?C = "gossip_leave D name (graceful_stop b C)" and ?key = "CellString X c"
  show ok: "cluster_ok D limit N v ?C" by (rule left_cluster_ok [OF assms(1,2)])
  have p': "procs ?C a = Some (hear_leave (dep_sum64 D) name p)" using assms(4,5) by (simp add: procs_left)
  have "finite N" using assms(1) unfolding cluster_ok_def by blast
  then have "card (closer D N v ?key (p_Name (hear_leave (dep_sum64 D) name p))) \<le> card N"
    by (intro card_mono) (auto simp: closer_def)
  then have "card (closer D N v ?key (p_Name (hear_leave (dep_sum64 D) name p))) \<le> hops" using assms(6) by (rule order_trans)
  from serve_forwards [OF ok assms(3) p' this, of ticks]
  obtain b' q' k where s: "procs ?C b' = Some q'"
    "serve_Dispatch X D ticks hops a req ?C = forwarded k (on_node b' (Handle X (dep_handler D) ticks req)) ?C" by blast
  moreover have "b' \<noteq> b" using s(1) by (auto simp: procs_left)
  ultimately show "\<exists>b' q' k. b' \<noteq> b \<and> procs ?C b' = Some q' \<and>
      serve_Dispatch X D ticks hops a req ?C = forwarded k (on_node b' (Handle X (dep_handler D) ticks req)) ?C" by blast
  assume own: "owner_at D p ?key = name"
  obtain b0 q0 where peer: "PeerGRPCAddr (p_Member p) (owner_at D p ?key) = (b0, True)" "dep_dial D b0 = Inr ()"
    "procs C b0 = Some q0" "p_Name q0 = owner_at D p ?key"
    by (rule cluster_peer [OF assms(1,4) cluster_okD(4) [OF assms(1,4)]])
  then have b: "b0 = b" using assms(2) own unfolding sole_def by metis
  have ne: "owner_at D p ?key \<noteq> p_Name p" using assms(2,4,5) own unfolding sole_def by metis
  have S: "procs ?S a = Some p" "procs ?S b = None" using assms(4,5) by (simp_all add: graceful_stop_def)
  show "serve_Dispatch X D ticks (Suc (Suc hops)) a req ?S =
      (Inl (Errorf ''router: forward to node'' (ErrorMsg ''connection refused'')), ?S)"
    unfolding serve_step [OF assms(3) S(1), of ticks "Suc hops"] route_to_peer [OF assms(1,4) ne peer(1,2)]
    by (simp add: b S(2) io_wrap_def io_fail_def)
qed

theorem disco_shutdown_witness:
  "serve_Dispatch mem_world demo_deployment 5 5 ''addr-a'' demo_request (graceful_stop ''addr-b'' (pair_cluster empty_db NewResponseHub)) =
     (Inl (Errorf ''router: forward to node'' (ErrorMsg ''connection refused'')),
      graceful_stop ''addr-b'' (pair_cluster empty_db NewResponseHub))"
proof -
  let ?C = "pair_cluster empty_db NewResponseHub"
  obtain p where p: "procs ?C ''addr-a'' = Some p" by (simp add: pair_cluster_def)
  have sole: "sole ?C ''addr-b'' ''b''" by (auto simp: sole_def pair_cluster_def demo_proc_def)
  have c: "card {''a'', ''b'', ''c''} \<le> 3" and ne: "''addr-a'' \<noteq> ''addr-b''" by simp_all
  show ?thesis
    using disco_shutdown [OF pair_cluster_ok sole demo_request_cell p ne c, of 5] pair_owner [OF p demo_key]
    by (simp del: serve_Dispatch.simps)
qed

section \<open>What a process is when it serves\<close>

lemma parse_int64_range: "parse_int64 x = Inr n \<Longrightarrow> in_i64 n"
  unfolding parse_int64_def Let_def by (auto split: prod.splits option.splits if_splits)

lemma envOrInt_range: "in_i64 fallback \<Longrightarrow> in_i64 (envOrInt Getenv key fallback)"
  by (auto simp: envOrInt_def Let_def parse_int64_range split: sum.splits)

text \<open>Processes that are not given a name are told apart by their gRPC port.\<close>

lemma default_names_distinct:
  assumes "Getenv ''DISCO_NODE_NAME'' = []" "Getenv' ''DISCO_NODE_NAME'' = []"
  shows "ds_nodeName (disco_environment Getenv) = ds_nodeName (disco_environment Getenv') \<longleftrightarrow>
    ds_grpcPort (disco_environment Getenv) = ds_grpcPort (disco_environment Getenv')"
proof -
  have d: "in_i64 9083" by (simp add: in_i64_def)
  show ?thesis
    using itoa_port_distinct [OF envOrInt_range [OF d] envOrInt_range [OF d]] assms
    by (auto simp: disco_environment_def envOr_def Let_def)
qed

text \<open>
  C21. A process that has started is a member of its own ring: whatever memberlist reported
  while it joined, \<open>/debug/ring\<close> lists the same nodes as members and as ring nodes, each once
  and itself among them; it is the node of the cluster the routing theorems speak of; a
  process that has heard of nobody owns every cell; and the driver store and the dispatcher
  publish to the same place: nowhere if \<open>KAFKA_BROKERS\<close> (or its default) names no broker, and else to exactly
  the brokers it names, whatever the event, on the topic of its kind.
\<close>

theorem disco_start_correct:
  assumes "disco_start s limit Getenv ping (Inr evs) (Inr evs') listening = Inr p"
    and "start_reports s limit N (disco_member_config (disco_environment Getenv)) evs evs'"
    and "ds_nodeName (disco_environment Getenv) \<in> N" and "collision_free s 150 N"
  shows "running s limit N 150 (p_Name (dp_proc p)) (p_Member (dp_proc p)) \<and>
    (case debug_ring p of (name, gossiped, ring_nodes) \<Rightarrow>
       name = p_Name (dp_proc p) \<and> name \<in> set gossiped \<and> set gossiped = set ring_nodes \<and> distinct gossiped \<and> distinct ring_nodes \<and>
       (set gossiped = {name} \<longrightarrow> (\<forall>key. Lookup s (mb_ring (p_Member (dp_proc p))) key = (name, True)))) \<and>
    dis_Publisher (dp_dispatcher p) = drs_publisher (dp_drivers p) \<and>
    (let brokers = splitNonEmpty (envOr Getenv ''KAFKA_BROKERS'' ''localhost:9092'') '',''
     in case drs_publisher (dp_drivers p) of
          NoopPublisher \<Rightarrow> brokers = []
        | PublishTo kp \<Rightarrow> brokers \<noteq> [] \<and> (\<forall>e. kw_Addr (fst (kafka_route kp e)) = brokers \<and>
            kw_Topic (fst (kafka_route kp e)) =
              (case e of DriverLocation _ \<Rightarrow> TopicDriverLocation | TripLifecycle _ \<Rightarrow> TopicTripLifecycle
               | OfferLifecycle _ \<Rightarrow> TopicOfferEvents)))"
proof -
  let ?s = "disco_environment Getenv"
  obtain mb where new: "membership_New s limit (disco_member_config ?s) (Inr evs) (Inr evs') = Inr mb"
    and p: "p = \<lparr>dp_settings = ?s, dp_drivers = fst (disco_stores ?s),
      dp_dispatcher = NewDispatcher (Some (snd (disco_stores ?s))) DefaultConfig,
      dp_proc = \<lparr>p_Name = ds_nodeName ?s, p_Member = mb, p_Hub = NewResponseHub, p_Published = [], p_Metrics = no_metrics\<rparr>\<rparr>"
    using disco_start_cases [OF assms(1)] by blast
  have cfg: "NodeName (disco_member_config ?s) = ds_nodeName ?s" "VirtualNodes (disco_member_config ?s) = 0"
    by (simp_all add: disco_member_config_def)
  have r: "running s limit N 150 (ds_nodeName ?s) mb"
    unfolding running_def using cfg assms(2,3) new gossips_Nil
    by (intro exI [of _ "disco_member_config ?s"] exI [of _ evs] exI [of _ evs'] exI [of _ mb] exI [of _ "[]"]) simp
  have t: "tracks s (ds_nodeName ?s) N {} mb" by (rule running_tracks [OF r assms(4)])
  then have ring: "ring_over s (set (Members mb)) (mb_ring mb)" "ds_nodeName ?s \<in> set (Members mb)" "distinct (Members mb)"
    by (simp_all add: tracks_def)
  then have ne: "set (Members mb) \<noteq> {}" by auto
  have "Lookup s (mb_ring mb) key = (ds_nodeName ?s, True)" if "set (Members mb) = {ds_nodeName ?s}" for key
    using ring_over_owner [OF ring(1) ne, of key] that by (simp add: prod_eq_iff)
  moreover have "distinct (Nodes (mb_ring mb))" using ring(1) Nodes_correct by (simp add: ring_over_def)
  moreover have "ds_kafkaBrokers ?s = splitNonEmpty (envOr Getenv ''KAFKA_BROKERS'' ''localhost:9092'') '',''"
    by (simp add: disco_environment_def Let_def)
  ultimately show ?thesis
    using r ring(2,3) Nodes_ring_over [OF ring(1)] Kafka_routes
    by (simp add: p debug_ring_def NewDispatcher_def or_noop_def disco_stores_publisher Let_def)
qed

theorem disco_start_correct_witness:
  "\<exists>p. disco_start peer_hash 512 (\<lambda>_. []) (Inr ()) (Inr []) (Inr []) (Inr ()) = Inr p \<and>
     Lookup peer_hash (mb_ring (p_Member (dp_proc p))) ''cell'' = (''disco-9083'', True) \<and>
     (case drs_publisher (dp_drivers p) of NoopPublisher \<Rightarrow> False
      | PublishTo kp \<Rightarrow> \<forall>e. kw_Addr (fst (kafka_route kp e)) = [''localhost:9092''])"
proof -
  let ?e = "\<lambda>_ :: string. [] :: char list" and ?N = "{''disco-9083''}"
  have name: "ds_nodeName (disco_environment ?e) = ''disco-9083''"
    by (simp add: disco_environment_def envOr_def envOrInt_def itoa_def nat_str.simps Let_def)
  have "ds_seeds (disco_environment ?e) = []" by (simp add: disco_environment_def splitNonEmpty_def Let_def)
  then have seeds: "Seeds (disco_member_config (disco_environment ?e)) = []" "ds_seeds (disco_environment ?e) = []"
    by (simp_all add: disco_member_config_def)
  obtain p where p: "disco_start peer_hash 512 ?e (Inr ()) (Inr []) (Inr []) (Inr ()) = Inr p"
    by (simp add: disco_start_def membership_New_def seeds Let_def)
  then obtain mb where mb: "membership_New peer_hash 512 (disco_member_config (disco_environment ?e)) (Inr []) (Inr []) = Inr mb"
    "p_Member (dp_proc p) = mb" by (auto elim!: disco_start_cases)
  then have "Members (p_Member (dp_proc p)) = [''disco-9083'']"
    using name by (auto simp: membership_New_def seeds Members_def disco_member_config_def Let_def)
  then have one: "set (fst (snd (debug_ring p))) = {''disco-9083''}" by (simp add: debug_ring_def)
  have n: "fst (debug_ring p) = ''disco-9083''" using p name by (auto simp: debug_ring_def elim!: disco_start_cases)
  have c: "collision_free peer_hash 150 ?N" by (simp add: collision_free_def)
  have r: "start_reports peer_hash 512 ?N (disco_member_config (disco_environment ?e)) [] []" by (simp add: start_reports_def)
  have b: "splitNonEmpty (envOr ?e ''KAFKA_BROKERS'' ''localhost:9092'') '','' = [''localhost:9092'']"
    by (rule default_brokers) simp
  have m: "ds_nodeName (disco_environment ?e) \<in> ?N" by (simp add: name)
  note H = disco_start_correct [OF p r m c, unfolded b Let_def]
  have "Lookup peer_hash (mb_ring (p_Member (dp_proc p))) ''cell'' = (''disco-9083'', True)"
    using H [THEN conjunct2, THEN conjunct1] one n by (auto split: prod.splits)
  moreover have "case drs_publisher (dp_drivers p) of NoopPublisher \<Rightarrow> False
      | PublishTo kp \<Rightarrow> \<forall>e. kw_Addr (fst (kafka_route kp e)) = [''localhost:9092'']"
    using H [THEN conjunct2, THEN conjunct2, THEN conjunct2] by (cases "drs_publisher (dp_drivers p)") simp_all
  ultimately show ?thesis using p by blast
qed

end
