(* ===== verification/HttpEdges.thy ===== *)
theory HttpEdges
  imports Services Gateway DiscoLife
begin

text \<open>
  The HTTP servers of \<open>cmd/supply\<close>, \<open>cmd/demand\<close> and \<open>cmd/gateway\<close>: their settings, their route
  tables over \<open>net/http\<close>'s \<open>ServeMux\<close>, and the WebSocket connections of the gateway.
\<close>

section \<open>ServeMux\<close>

text \<open>
  A pattern: a method, if any, and the segments of its path; a pattern that ends in a slash
  matches every path below it. A request's path is given as its segments, cleaned and
  unescaped as \<open>ServeMux\<close> does before it matches.
\<close>

datatype seg = Lit string | Wild string

record pattern =
  pt_Method :: "string option"
  pt_Path :: "seg list"
  pt_Subtree :: bool

fun match_path :: "seg list \<Rightarrow> bool \<Rightarrow> string list \<Rightarrow> (string \<times> string) list option" where
  "match_path [] subtree path = (if subtree \<or> path = [] then Some [] else None)"
| "match_path (s # ss) subtree [] = None"
| "match_path (Lit l # ss) subtree (x # xs) = (if l = x then match_path ss subtree xs else None)"
| "match_path (Wild v # ss) subtree (x # xs) =
     (if x = [] then None else map_option ((#) (v, x)) (match_path ss subtree xs))"

definition allows :: "pattern \<Rightarrow> string \<Rightarrow> bool" where
  "allows p method = (case pt_Method p of None \<Rightarrow> True | Some m \<Rightarrow> method = m \<or> m = ''GET'' \<and> method = ''HEAD'')"

text \<open>
  The handler of a request, or the status of the answer without one. Tables are given with
  the more specific patterns first.
\<close>

fun mux_find :: "(pattern \<times> 'h) list \<Rightarrow> string \<Rightarrow> string list \<Rightarrow> bool \<Rightarrow> int + 'h \<times> (string \<times> string) list" where
  "mux_find [] method path seen = Inl (if seen then 405 else 404)"
| "mux_find ((p, h) # table) method path seen =
     (case match_path (pt_Path p) (pt_Subtree p) path of
        None \<Rightarrow> mux_find table method path seen
      | Some vars \<Rightarrow> if allows p method then Inr (h, vars) else mux_find table method path True)"

definition PathValue :: "string \<Rightarrow> (string \<times> string) list \<Rightarrow> string" where
  "PathValue v vars = (case map_of vars v of Some x \<Rightarrow> x | None \<Rightarrow> [])"

definition any_method :: "seg list \<Rightarrow> pattern" where
  "any_method path = \<lparr>pt_Method = None, pt_Path = path, pt_Subtree = False\<rparr>"

definition with_method :: "string \<Rightarrow> seg list \<Rightarrow> pattern" where
  "with_method m path = \<lparr>pt_Method = Some m, pt_Path = path, pt_Subtree = False\<rparr>"

section \<open>Supply\<close>

record supply_settings =
  su_port :: string
  su_redisAddr :: string
  su_discoAddr :: string
  su_kafkaBrokers :: string

definition supply_environment :: "environment \<Rightarrow> supply_settings" where
  "supply_environment Getenv = \<lparr>su_port = envOr Getenv ''SUPPLY_PORT'' ''8081'',
     su_redisAddr = envOr Getenv ''REDIS_ADDR'' ''127.0.0.1:6379'',
     su_discoAddr = envOr Getenv ''DISCO_ADDR'' ''127.0.0.1:9083'', su_kafkaBrokers = envOr Getenv ''KAFKA_BROKERS'' []\<rparr>"

text \<open>What \<open>main\<close> builds; \<open>ping\<close> and \<open>dial\<close> are the answers of Redis and of gRPC, an error is fatal.\<close>

definition supply_start :: "environment \<Rightarrow> unit result \<Rightarrow> unit result \<Rightarrow> driver_store result" where
  "supply_start Getenv ping dial =
     (let s = supply_environment Getenv in
      case ping of
        Inl e \<Rightarrow> Inl (Errorf ''supply-service: connect to redis'' e)
      | Inr _ \<Rightarrow>
          let drivers = NewDriverStore DefaultResolution;
              drivers = (if su_kafkaBrokers s \<noteq> []
                then SetPublisher (Some (PublishTo (NewKafkaPublisher [su_kafkaBrokers s]))) drivers else drivers)
          in case dial of Inl e \<Rightarrow> Inl (Errorf ''supply-service: dial disco'' e) | Inr _ \<Rightarrow> Inr drivers)"

datatype supply_handler = SupplyHealthz | SupplyMetrics | HandleLocation | HandleGetOffer | HandleRespondOffer

definition supply_mux :: "(pattern \<times> supply_handler) list" where
  "supply_mux =
     [(any_method [Lit ''healthz''], SupplyHealthz), (any_method [Lit ''metrics''], SupplyMetrics),
      (with_method ''POST'' [Lit ''drivers'', Wild ''id'', Lit ''location''], HandleLocation),
      (with_method ''GET'' [Lit ''drivers'', Wild ''id'', Lit ''offer''], HandleGetOffer),
      (with_method ''POST'' [Lit ''drivers'', Wild ''id'', Lit ''offer'', Lit ''respond''], HandleRespondOffer)]"

text \<open>A request, with what its body decodes to for either of the handlers that read it.\<close>

record supply_request =
  sr_Method :: string
  sr_Path :: "string list"
  sr_Location :: "locationRequest option"
  sr_Response :: "string option"

datatype supply_json = OfferJSON string | DeliveredJSON bool

definition map_http :: "('a \<Rightarrow> 'b) \<Rightarrow> 'a http \<Rightarrow> 'b http" where
  "map_http f r = \<lparr>status = status r, body = (case body r of NoBody \<Rightarrow> NoBody | ErrorText m \<Rightarrow> ErrorText m
     | ErrorBody e \<Rightarrow> ErrorBody e | JSON x \<Rightarrow> JSON (f x))\<rparr>"

text \<open>The server: the answer and the events of a ping. \<open>/metrics\<close> is Prometheus' handler.\<close>

definition serve_supply :: "'w ext \<Rightarrow> driver_store \<Rightarrow> (RespondToOfferRequest \<Rightarrow> ('w cluster, RespondToOfferResponse) io)
    \<Rightarrow> supply_request \<Rightarrow> ('w cluster, supply_json http \<times> event list) io" where
  "serve_supply X drivers RespondToOffer req =
     (case mux_find supply_mux (sr_Method req) (sr_Path req) False of
        Inl code \<Rightarrow> io_return (\<lparr>status = code, body = NoBody\<rparr>, [])
      | Inr (h, vars) \<Rightarrow>
          let driverID = PathValue ''id'' vars in
          (case h of
             SupplyHealthz \<Rightarrow> io_return (\<lparr>status = 200, body = ErrorText ''ok''\<rparr>, [])
           | SupplyMetrics \<Rightarrow> io_return (\<lparr>status = 200, body = NoBody\<rparr>, [])
           | HandleLocation \<Rightarrow> io_bind (on_shared (handleLocation X (drs_res drivers) driverID (sr_Location req)))
               (\<lambda>(r, evs). io_return (map_http (\<lambda>_. OfferJSON []) r, evs))
           | HandleGetOffer \<Rightarrow> io_bind (on_shared (handleGetOffer X driverID)) (\<lambda>r. io_return (map_http OfferJSON r, []))
           | HandleRespondOffer \<Rightarrow> io_bind (handleRespondOffer RespondToOffer driverID (sr_Response req))
               (\<lambda>r. io_return (map_http DeliveredJSON r, []))))"

section \<open>Demand\<close>

record demand_settings =
  de_port :: string
  de_discoAddr :: string

definition demand_environment :: "environment \<Rightarrow> demand_settings" where
  "demand_environment Getenv = \<lparr>de_port = envOr Getenv ''DEMAND_PORT'' ''8082'',
     de_discoAddr = envOr Getenv ''DISCO_ADDR'' ''127.0.0.1:9083''\<rparr>"

datatype demand_handler = DemandHealthz | DemandMetrics | HandleCreateTrip

definition demand_mux :: "(pattern \<times> demand_handler) list" where
  "demand_mux = [(any_method [Lit ''healthz''], DemandHealthz), (any_method [Lit ''metrics''], DemandMetrics),
     (with_method ''POST'' [Lit ''trips''], HandleCreateTrip)]"

definition serve_demand :: "(DispatchRequest \<Rightarrow> ('s, DispatchResponse) io) \<Rightarrow> string \<Rightarrow> string list \<Rightarrow> string \<Rightarrow> tripRequest option
    \<Rightarrow> ('s, tripResponse http) io" where
  "serve_demand Dispatch method path idempotency_header decoded =
     (case mux_find demand_mux method path False of
        Inl code \<Rightarrow> answer code NoBody
      | Inr (h, vars) \<Rightarrow>
          (case h of
             DemandHealthz \<Rightarrow> answer 200 (ErrorText ''ok'')
           | DemandMetrics \<Rightarrow> answer 200 NoBody
           | HandleCreateTrip \<Rightarrow> handleCreateTrip Dispatch idempotency_header decoded))"

section \<open>What the route tables do\<close>

lemma mux_pattern_simps [simp]:
  "pt_Path (any_method ss) = ss" "pt_Subtree (any_method ss) = False" "allows (any_method ss) m"
  "pt_Path (with_method k ss) = ss" "pt_Subtree (with_method k ss) = False"
  "allows (with_method k ss) m \<longleftrightarrow> m = k \<or> k = ''GET'' \<and> m = ''HEAD''"
  by (auto simp: any_method_def with_method_def allows_def)

lemma supply_mux_routes:
  assumes "i \<noteq> []"
  shows "mux_find supply_mux ''POST'' [''drivers'', i, ''location''] False = Inr (HandleLocation, [(''id'', i)])"
    "mux_find supply_mux ''GET'' [''drivers'', i, ''offer''] False = Inr (HandleGetOffer, [(''id'', i)])"
    "mux_find supply_mux ''POST'' [''drivers'', i, ''offer'', ''respond''] False = Inr (HandleRespondOffer, [(''id'', i)])"
  using assms by (simp_all add: supply_mux_def)

text \<open>A handler is reached only on its own path, for the driver the path names.\<close>

definition reaches_driver :: "string list \<Rightarrow> bool" where
  "reaches_driver path \<longleftrightarrow> (\<exists>i. i \<noteq> [] \<and> path \<in> {[''drivers'', i, ''location''], [''drivers'', i, ''offer''], [''drivers'', i, ''offer'', ''respond'']})"

lemma match_path_iff:
  "match_path [] False path = Some vars \<longleftrightarrow> path = [] \<and> vars = []"
  "match_path (Lit l # ss) sub path = Some vars \<longleftrightarrow> (\<exists>xs. path = l # xs \<and> match_path ss sub xs = Some vars)"
  "match_path (Wild v # ss) sub path = Some vars \<longleftrightarrow>
     (\<exists>x xs vs. path = x # xs \<and> x \<noteq> [] \<and> match_path ss sub xs = Some vs \<and> vars = (v, x) # vs)"
  by (cases path; auto)+

lemma supply_mux_elsewhere:
  assumes "\<not> reaches_driver path" "mux_find supply_mux m path False = Inr (h, vars)"
  shows "h = SupplyHealthz \<or> h = SupplyMetrics"
proof -
  have none: "match_path [Lit ''drivers'', Wild ''id'', Lit ''location''] False path = None"
    "match_path [Lit ''drivers'', Wild ''id'', Lit ''offer''] False path = None"
    "match_path [Lit ''drivers'', Wild ''id'', Lit ''offer'', Lit ''respond''] False path = None"
    using assms(1) unfolding not_Some_eq [symmetric] match_path_iff reaches_driver_def by blast+
  then show ?thesis using assms(2) by (simp add: supply_mux_def split: option.splits if_splits)
qed

text \<open>
  The supply service does what its paths say: a ping, a poll and an answer reach their
  handlers with the driver the path names, and any other request changes nothing and
  publishes nothing.
\<close>

theorem supply_routes:
  "(i \<noteq> [] \<longrightarrow>
      serve_supply X s rpc \<lparr>sr_Method = ''POST'', sr_Path = [''drivers'', i, ''location''], sr_Location = loc, sr_Response = rsp\<rparr> =
        io_bind (on_shared (handleLocation X (drs_res s) i loc)) (\<lambda>(r, evs). io_return (map_http (\<lambda>_. OfferJSON []) r, evs)) \<and>
      serve_supply X s rpc \<lparr>sr_Method = ''GET'', sr_Path = [''drivers'', i, ''offer''], sr_Location = loc, sr_Response = rsp\<rparr> =
        io_bind (on_shared (handleGetOffer X i)) (\<lambda>r. io_return (map_http OfferJSON r, [])) \<and>
      serve_supply X s rpc \<lparr>sr_Method = ''POST'', sr_Path = [''drivers'', i, ''offer'', ''respond''], sr_Location = loc, sr_Response = rsp\<rparr> =
        io_bind (handleRespondOffer rpc i rsp) (\<lambda>r. io_return (map_http DeliveredJSON r, []))) \<and>
   (\<not> reaches_driver (sr_Path req) \<longrightarrow>
      (\<exists>a. serve_supply X s rpc req C = (Inr (a, []), C) \<and> status a \<in> {200, 404, 405}))"
proof (intro conjI impI)
  assume "\<not> reaches_driver (sr_Path req)"
  note e = supply_mux_elsewhere [OF this, of "sr_Method req"]
  have code: "code = 404 \<or> code = 405" if "mux_find t m p seen = Inl code" for t :: "(pattern \<times> 'x) list" and m p seen code
    using that by (induction t m p seen rule: mux_find.induct) (auto split: option.splits if_splits)
  show "\<exists>a. serve_supply X s rpc req C = (Inr (a, []), C) \<and> status a \<in> {200, 404, 405}"
  proof (cases "mux_find supply_mux (sr_Method req) (sr_Path req) False")
    case (Inl n)
    then show ?thesis using code [OF Inl] by (auto simp: serve_supply_def io_return_def)
  next
    case (Inr hv)
    then show ?thesis using e [of "fst hv" "snd hv"] by (auto simp: serve_supply_def io_return_def split: prod.splits)
  qed
qed (simp_all add: serve_supply_def supply_mux_routes PathValue_def)

theorem supply_routes_witness:
  "let s = NewDriverStore DefaultResolution; C = pair_cluster empty_db NewResponseHub; rpc = (\<lambda>_. io_fail ContextDone) in
   (\<exists>a. serve_supply mem_world s rpc
      \<lparr>sr_Method = ''POST'', sr_Path = [''drivers'', [], ''location''], sr_Location = None, sr_Response = None\<rparr> C = (Inr (a, []), C)) \<and>
   serve_supply mem_world s rpc \<lparr>sr_Method = ''POST'', sr_Path = [''drivers'', ''d1'', ''location''], sr_Location = None, sr_Response = None\<rparr> C =
     (Inr (\<lparr>status = 400, body = ErrorText ''invalid body''\<rparr>, []), C)"
proof -
  let ?C = "pair_cluster empty_db NewResponseHub" and ?s = "NewDriverStore DefaultResolution"
  let ?bad = "\<lparr>sr_Method = ''POST'', sr_Path = [''drivers'', [], ''location''], sr_Location = None, sr_Response = None\<rparr>"
  have "\<not> reaches_driver (sr_Path ?bad)" "''d1'' \<noteq> []" by (simp_all add: reaches_driver_def)
  moreover have "io_bind (on_shared (handleLocation mem_world (drs_res ?s) ''d1'' None)) (\<lambda>(r, evs). io_return (map_http (\<lambda>_. OfferJSON []) r, evs)) ?C =
      (Inr (\<lparr>status = 400, body = ErrorText ''invalid body''\<rparr>, []), ?C)"
    by (simp add: handleLocation_def io_bind_def on_shared_def io_return_def map_http_def)
  ultimately show ?thesis
    using supply_routes [of "''d1''" mem_world ?s "\<lambda>_. io_fail ContextDone" None None ?bad ?C] unfolding Let_def by metis
qed

text \<open>
  A list of brokers that \<open>cmd/disco\<close> splits is one broker for \<open>cmd/supply\<close>, which does not.
\<close>

lemma supply_brokers_not_split:
  assumes "\<forall>x \<in> set xs. x \<noteq> [] \<and> CHR '','' \<notin> set x \<and> TrimSpace x = x" "xs \<noteq> []"
    and "Getenv ''KAFKA_BROKERS'' = join_with (CHR '','') xs" "supply_start Getenv (Inr ()) (Inr ()) = Inr d"
  shows "ds_kafkaBrokers (disco_environment Getenv) = xs"
    "drs_publisher d = PublishTo (NewKafkaPublisher [join_with (CHR '','') xs])"
proof -
  have ne: "join_with (CHR '','') xs \<noteq> []" using assms(1,2) by (cases "(CHR '','', xs)" rule: join_with.cases) auto
  then show "ds_kafkaBrokers (disco_environment Getenv) = xs"
    using splitNonEmpty_joined [OF assms(1)] assms(3) by (simp add: disco_environment_def envOr_def Let_def)
  show "drs_publisher d = PublishTo (NewKafkaPublisher [join_with (CHR '','') xs])"
    using assms(3,4) ne
    by (auto simp: supply_start_def supply_environment_def envOr_def SetPublisher_def or_noop_def NewDriverStore_def Let_def)
qed

section \<open>The other servers\<close>

record surge_settings =
  sg_port :: string
  sg_redisAddr :: string
  sg_kafkaBrokers :: "string list"

definition surge_environment :: "environment \<Rightarrow> surge_settings" where
  "surge_environment Getenv = \<lparr>sg_port = envOr Getenv ''SURGE_PORT'' ''8084'',
     sg_redisAddr = envOr Getenv ''REDIS_ADDR'' ''127.0.0.1:6379'',
     sg_kafkaBrokers = strings_Split (envOr Getenv ''KAFKA_BROKERS'' ''localhost:9092'') '',''\<rparr>"

datatype surge_handler = SurgeHealthz | SurgeMetrics

definition surge_mux :: "(pattern \<times> surge_handler) list" where
  "surge_mux = [(any_method [Lit ''healthz''], SurgeHealthz), (any_method [Lit ''metrics''], SurgeMetrics)]"

record gateway_settings =
  gw_port :: string
  gw_brokers :: "string list"

definition gateway_environment :: "environment \<Rightarrow> gateway_settings" where
  "gateway_environment Getenv = \<lparr>gw_port = envOr Getenv ''GATEWAY_PORT'' ''8086'',
     gw_brokers = strings_Split (envOr Getenv ''KAFKA_BROKERS'' ''localhost:9092'') '',''\<rparr>"

datatype gateway_handler = GatewayHealthz | WebSocket | StaticFiles

definition gateway_mux :: "(pattern \<times> gateway_handler) list" where
  "gateway_mux = [(any_method [Lit ''healthz''], GatewayHealthz), (any_method [Lit ''ws''], WebSocket),
     (\<lparr>pt_Method = None, pt_Path = [], pt_Subtree = True\<rparr>, StaticFiles)]"

datatype disco_handler = DiscoHealthz | DiscoMetrics | DebugRing

definition disco_mux :: "(pattern \<times> disco_handler) list" where
  "disco_mux = [(any_method [Lit ''healthz''], DiscoHealthz), (any_method [Lit ''metrics''], DiscoMetrics),
     (any_method [Lit ''debug'', Lit ''ring''], DebugRing)]"

text \<open>Every request to the gateway finds a handler; the map is whatever is not the socket.\<close>

lemma gateway_mux_total: "mux_find gateway_mux m path False =
    Inr (if path = [''healthz''] then GatewayHealthz else if path = [''ws''] then WebSocket else StaticFiles, [])"
proof -
  have "allows \<lparr>pt_Method = None, pt_Path = [], pt_Subtree = True\<rparr> m" by (simp add: allows_def)
  moreover have "match_path [Lit l] False path = (if path = [l] then Some [] else None)" for l
    by (cases path) auto
  ultimately show ?thesis by (simp add: gateway_mux_def)
qed

text \<open>
  An entry of the list with a space in front of it, or an empty one, is dropped or trimmed by
  \<open>cmd/disco\<close> and used as it is by \<open>cmd/surge\<close> and \<open>cmd/gateway\<close>.
\<close>

lemma brokers_read_differently:
  assumes "Getenv ''KAFKA_BROKERS'' = ''a:1, b:2,''"
  shows "ds_kafkaBrokers (disco_environment Getenv) = [''a:1'', ''b:2'']"
    "sg_kafkaBrokers (surge_environment Getenv) = [''a:1'', '' b:2'', []]"
    "gw_brokers (gateway_environment Getenv) = [''a:1'', '' b:2'', []]"
proof -
  have sp: "strings_Split ''a:1, b:2,'' '','' = [''a:1'', '' b:2'', []]"
    by (simp add: strings_Split.simps)
  have tr: "map TrimSpace [''a:1'', '' b:2'', []] = [''a:1'', ''b:2'', []]" by code_simp
  show "ds_kafkaBrokers (disco_environment Getenv) = [''a:1'', ''b:2'']"
    using assms tr by (simp add: disco_environment_def envOr_def splitNonEmpty_def sp Let_def)
  show "sg_kafkaBrokers (surge_environment Getenv) = [''a:1'', '' b:2'', []]"
    "gw_brokers (gateway_environment Getenv) = [''a:1'', '' b:2'', []]"
    using assms by (simp_all add: surge_environment_def gateway_environment_def envOr_def sp)
qed

end
