(* ===== verification/Spec2Isabelle.thy ===== *)
theory Spec2Isabelle
  imports Prelude GoLib GoFloat Metrics StateMachine HashRing Surge External MemWorld Events
    DriverStore TripStore OfferStore Matching Offers Membership Router Disco Handling
    Answers Services SurgeService Gateway Recovery Integrity System LoadGen Settings
    SurgeProcess DemandFlow DispatchCounts Rides LoadRun DiscoLife HttpEdges
begin

text \<open>
  A verification development for geo-dispatch, a ride dispatcher written in Go: riders ask
  for trips, drivers ping their position, and a cluster of matcher processes (``disco'')
  offers each trip to one driver after another until one accepts. All durable state is in
  one Redis; the cells of the H3 grid are shared out between the processes by a consistent
  hash ring that follows gossip.

  \<^bold>\<open>How the parts work together.\<close> \<open>POST /trips\<close> reaches \<open>cmd/demand\<close>, which calls \<open>Dispatch\<close>
  on some disco process. \<open>cmd/disco/grpc_server.go\<close> finds the cell of the origin, the router
  (\<open>internal/router\<close>) asks the ring (\<open>internal/hashring\<close>, kept by \<open>internal/membership\<close>) for
  its owner and handles the request or forwards it. The owner (\<open>cmd/disco/server.go\<close>)
  creates the trip under its idempotency key (\<open>internal/store/trip.go\<close>), searches drivers in
  growing disks of cells (\<open>internal/matching\<close> over \<open>internal/store/driver.go\<close>), ranks them and
  runs the offer loop (\<open>internal/offers/dispatcher.go\<close>): claim the driver, open an offer
  (\<open>internal/store/offer.go\<close>), wait on the hub, and record the answer. Drivers ping, poll and
  answer through \<open>cmd/supply\<close>; an answer is routed to the hub of the owner of the trip's
  cell. \<open>internal/offers/reconcile.go\<close> resumes trips that were left \<open>OFFERED\<close>. Events go to Kafka
  (\<open>internal/events\<close>); \<open>cmd/surge\<close> turns them into a multiplier per cell
  (\<open>internal/surge\<close>, \<open>internal/store/surge.go\<close>) and \<open>cmd/gateway\<close> broadcasts them to browsers.

  \<^bold>\<open>How code is modelled.\<close> A Go function that reads and writes the world and may fail is a
  function \<open>('w, 'a) io = 'w \<Rightarrow> (go_error + 'a) \<times> 'w\<close>, composed with \<open>io_bind\<close> as the code
  composes calls and early returns; \<open>io_wrap\<close> is \<open>fmt.Errorf\<close> with \<open>%w\<close> and keeps the message
  without its arguments. Errors the code compares are constructors of \<open>go_error\<close>. Structs are
  records, named string types are strings (Redis may hold any string), ring positions and
  cells are \<open>64 word\<close>, durations and times are integers with the wrap-around of \<open>int64\<close> where
  the code multiplies, \<open>float64\<close> is \<open>f64\<close> with rounding to nearest even. Maps that are iterated
  over are association lists. Code that is not in the repository is a parameter: the record
  \<open>ext\<close> of theory \<open>External\<close> holds Redis, the clock, UUIDs, H3, number formats and the times to live
  that go-redis sends for a duration (whole seconds or milliseconds), and its
  locales state what their documentation promises. Before every request the rest of the
  world takes a step of a relation \<open>env\<close> and may lose the request or its reply, so the
  theorems about \<open>redis_server\<close> hold under interleaving with other clients and under
  crashes (a crash is the loss of all later requests).

  \<^bold>\<open>The theories\<close>, in the order of their dependencies:

  \<^item> \<open>Prelude\<close>, \<open>GoLib\<close>, \<open>GoFloat\<close>: errors, sequencing, total-correctness triples over \<open>io\<close>
    (\<open>post\<close>, \<open>goes\<close>), binary search, slices, number formats, integer and floating point
    arithmetic of Go.
  \<^item> \<open>Metrics\<close> (\<open>internal/metrics\<close>): the counters of outcomes and the offers per match.
  \<^item> \<open>StateMachine\<close> (\<open>internal/statemachine\<close>): the three lifecycles, one locale with three
    interpretations.
  \<^item> \<open>HashRing\<close> (\<open>internal/hashring/ring.go\<close>): the ring refines a map from positions to nodes;
    ownership does not depend on the order of joins, a join relocates keys only to the
    new node, a leave undoes a join.
  \<^item> \<open>Surge\<close> (\<open>internal/surge\<close>): the windowed counts and the step curve.
  \<^item> \<open>External\<close>, \<open>MemWorld\<close>: the parameters, their laws, and complete in-memory worlds that
    satisfy them, on which the witnesses compute.
  \<^item> \<open>Events\<close> (\<open>internal/events\<close>): topics, payloads, the publishers and how a Kafka writer routes
    and orders events.
  \<^item> \<open>DriverStore\<close>, \<open>TripStore\<close>, \<open>OfferStore\<close> (\<open>internal/store\<close>): every
    method with its Redis requests in order, Lua scripts and transactions atomic. Each store
    has an abstract view of the keyspace (\<open>driver_at\<close>, \<open>trip_at\<close>, \<open>offer_at\<close>, \<open>members\<close>, \<open>offered_set\<close>)
    and lemmas that say what each method computes on it.
  \<^item> \<open>Matching\<close> (\<open>internal/matching\<close>, \<open>internal/h3index\<close>): candidate search over the interface
    locale of driver lookups, estimators, ranking.
  \<^item> \<open>Offers\<close> (\<open>internal/offers\<close>): hub, offer loop, reconciler; a dispatch runs on a \<open>node\<close> (world, hub,
    published events, metrics). What arrives while it waits is the parameter \<open>waits\<close>. Three
    calculi carry the proofs about the loop: \<open>emits\<close> (which events a step adds), \<open>ends\<close> (what a
    successful run leaves behind under interference) and \<open>post\<close> (what a run does in a calm world).
  \<^item> \<open>Membership\<close>, \<open>Router\<close> (\<open>internal/membership\<close>, \<open>internal/router\<close>): rings that follow gossip;
    every forward comes strictly closer to the key on the ring.
  \<^item> \<open>Disco\<close>, \<open>Handling\<close>, \<open>Answers\<close> (\<open>cmd/disco\<close>): a cluster of processes on one Redis, its gRPC
    methods, what a dispatch reports, where answers go.
  \<^item> \<open>Rides\<close>: the whole of a new request, from the trip to the driver who gets it: creation,
    search, ranking and offers composed.
  \<^item> \<open>Services\<close> (\<open>cmd/demand\<close>, \<open>cmd/supply\<close>), \<open>SurgeService\<close> (\<open>cmd/surge\<close>), \<open>Gateway\<close>
    (\<open>internal/gateway\<close>, \<open>cmd/gateway\<close>): the handlers and loops at the edges, and the life of
    WebSocket connections on the hub.
  \<^item> \<open>Settings\<close>, \<open>DiscoLife\<close>, \<open>HttpEdges\<close>: the \<open>main\<close> functions: environment and defaults, the start
    of a disco process and its leaving, route tables of the HTTP servers.
  \<^item> \<open>SurgeProcess\<close>, \<open>DemandFlow\<close>, \<open>DispatchCounts\<close>: the goroutines of \<open>cmd/surge\<close> as a step relation
    and the prices readers see; what the events of a dispatch do to the aggregator; what a
    dispatch tells the metrics.
  \<^item> \<open>Recovery\<close>: the reconciler's promise, and what a failed dispatch or a lost offer leaves.
  \<^item> \<open>Integrity\<close>, \<open>System\<close>: an abstract protocol on the keyspace with its invariant, and the
    proof, by a rely-guarantee argument over every operation, that the whole program only
    takes steps of that protocol.
  \<^item> \<open>LoadGen\<close>, \<open>LoadRun\<close> (\<open>cmd/loadgen\<close>): the turns of simulated drivers and riders, the driver's
    loop with its answering goroutine as a step relation, the counts and the report.

  \<^bold>\<open>Bounds and fuel.\<close> Loops over lists and radii are structural recursion, binary search
  and string splitting are functions with a measure. \<open>serve_Dispatch\<close> and
  \<open>serve_RespondToOffer\<close> bound the number of hops a request may take before its deadline;
  \<open>Dispatch_reaches_an_owner\<close> shows that as many hops as there are node names are always enough.
  \<open>awaitResolution\<close> polls for as many ticks as the request's context lasts, and \<open>runReconciler\<close>
  sweeps for as many ticks as its context lasts. \<open>consumeLoop\<close> may
  run for ever; its fuel bounds the readers it opens, and \<open>consumeLoop_returns\<close> says exactly
  when some fuel is enough. Goroutines that run for ever are step relations.

  \<^bold>\<open>Not modelled.\<close> \<open>api/proto/dispatchpb\<close> is generated (the messages are taken from
  \<open>dispatch.proto\<close>). Of \<open>internal/metrics\<close> the latency and the ring expansion, which are only
  measured and read by no code. Of the \<open>main\<close> functions the opening of sockets, the waiting for
  signals and the printing: what they read from the environment, build, route and run is in
  the theories above. Mutexes are left out where a method holds its lock throughout (ring,
  aggregator, the gateway's hub): such a method is one step. \<open>ResponseHub.Respond\<close> lets go of
  its lock before it sends; it is one step too, so an answer sent to a wait that ended in
  between is not seen. When an answer and the end of the window are ready
  together, \<open>select\<close> may take either; which answers came in time is up to the parameter \<open>waits\<close>. Logging, HTTP headers, JSON and the transport
  of gRPC are the libraries'.
\<close>

end
